(* ===== verification/Raptor_Prelude.thy ===== *)
theory Raptor_Prelude
  imports Main "HOL-Library.Word"
begin

text \<open>
  Shared vocabulary of the development: the fixed-width types of the C sources, the
  big-endian byte helpers every wire format uses, the arithmetic of power-of-two masks, and
  the circular-array view of a list that the send queues are built on.

  The C sources declare lengths and indices as \<^verbatim>\<open>uint32_t\<close> or \<^verbatim>\<open>int\<close>. Where a value goes
  on the wire or wraps, it is kept as a word; where it only counts list elements it is a
  natural number and the wrap-around, if the code can reach it, is written out.
\<close>

unbundle bit_operations_syntax

type_synonym byte = "8 word"
type_synonym u16 = "16 word"
type_synonym u32 = "32 word"
type_synonym u64 = "64 word"

named_theorems ring_simps \<open>rewriting facts about circular arrays\<close>
named_theorems wire_simps \<open>rewriting facts about big-endian encodings\<close>

subsection \<open>C integer division and truncation\<close>

text \<open>C's \<^verbatim>\<open>/\<close> on signed integers rounds towards zero, unlike \<^const>\<open>divide\<close> on \<^typ>\<open>int\<close>.\<close>

definition cdiv :: "int \<Rightarrow> int \<Rightarrow> int" where
  "cdiv a b = (if (a < 0) = (b < 0) then \<bar>a\<bar> div \<bar>b\<bar> else - (\<bar>a\<bar> div \<bar>b\<bar>))"

lemma cdiv_nonneg: "0 \<le> a \<Longrightarrow> 0 < b \<Longrightarrow> cdiv a b = a div b"
  by (simp add: cdiv_def)

lemma cdiv_neg: "a < 0 \<Longrightarrow> 0 < b \<Longrightarrow> cdiv a b = - ((- a) div b)"
  by (simp add: cdiv_def)

lemma cdiv_bounds:
  assumes "0 < b"
  shows "\<bar>cdiv a b\<bar> * b \<le> \<bar>a\<bar>" and "\<bar>cdiv a b\<bar> \<le> \<bar>a\<bar>"
proof -
  have abs_eq: "\<bar>cdiv a b\<bar> = \<bar>a\<bar> div b"
    using assms by (simp add: cdiv_def pos_imp_zdiv_nonneg_iff)
  show "\<bar>cdiv a b\<bar> * b \<le> \<bar>a\<bar>"
    unfolding abs_eq using div_mult_mod_eq [of "\<bar>a\<bar>" b] pos_mod_sign [OF assms, of "\<bar>a\<bar>"]
    by linarith
  show "\<bar>cdiv a b\<bar> \<le> \<bar>a\<bar>"
    unfolding abs_eq using assms
    by (metis abs_ge_zero div_0 int_div_le_self order_le_less order_refl)
qed

text \<open>The value range of \<^verbatim>\<open>uint32_t\<close> and the wrap-around of its arithmetic.\<close>

definition u32max :: nat where
  "u32max = 4294967295"

definition wrap32 :: "nat \<Rightarrow> nat" where
  "wrap32 n = n mod 4294967296"

lemma wrap32_less [simp]: "wrap32 n < 4294967296"
  by (simp add: wrap32_def)

lemma wrap32_id [simp]: "n < 4294967296 \<Longrightarrow> wrap32 n = n"
  by (simp add: wrap32_def)

lemma sint_of_nat_u32: "n < 2 ^ 31 \<Longrightarrow> sint (word_of_nat n :: u32) = int n"
  by (simp add: signed_of_nat signed_take_bit_int_eq_self)

lemma unat_of_nat_u8: "n < 256 \<Longrightarrow> unat (word_of_nat n :: byte) = n"
  by (simp add: unsigned_of_nat take_bit_nat_eq_self)

lemma unat_of_nat_u16: "n < 2 ^ 16 \<Longrightarrow> unat (word_of_nat n :: u16) = n"
  by (simp add: unsigned_of_nat take_bit_nat_eq_self)

lemma unat_of_nat_u32: "n < 2 ^ 32 \<Longrightarrow> unat (word_of_nat n :: u32) = n"
  by (simp add: unsigned_of_nat take_bit_nat_eq_self)

subsection \<open>Power-of-two masks\<close>

text \<open>\<^verbatim>\<open>x & (n - 1)\<close> is \<^term>\<open>x mod n\<close> for a power of two.\<close>

lemma and_mask_pow2: "(x::nat) AND (2 ^ k - 1) = x mod 2 ^ k"
  by (metis mask_eq_exp_minus_1 take_bit_eq_mask take_bit_eq_mod)

subsection \<open>Big-endian encodings\<close>

definition be16 :: "u16 \<Rightarrow> byte list" where
  "be16 v = [ucast (drop_bit 8 v), ucast v]"

definition be32 :: "u32 \<Rightarrow> byte list" where
  "be32 v = [ucast (drop_bit 24 v), ucast (drop_bit 16 v), ucast (drop_bit 8 v), ucast v]"

definition be64 :: "u64 \<Rightarrow> byte list" where
  "be64 v = be32 (ucast (drop_bit 32 v)) @ be32 (ucast v)"

lemma length_be16 [simp]: "length (be16 v) = 2"
  by (simp add: be16_def)

lemma length_be32 [simp]: "length (be32 v) = 4"
  by (simp add: be32_def)

lemma length_be64 [simp]: "length (be64 v) = 8"
  by (simp add: be64_def)

definition rd16 :: "byte list \<Rightarrow> u16" where
  "rd16 p = push_bit 8 (ucast (p ! 0)) OR ucast (p ! 1)"

definition rd32 :: "byte list \<Rightarrow> u32" where
  "rd32 p = push_bit 24 (ucast (p ! 0)) OR push_bit 16 (ucast (p ! 1)) OR
     push_bit 8 (ucast (p ! 2)) OR ucast (p ! 3)"

lemma rd16_be16 [simp, wire_simps]: "rd16 (be16 v @ bs) = v"
  by (rule bit_word_eqI)
    (auto simp: rd16_def be16_def bit_simps not_less le_less_Suc_eq)

lemma rd32_be32 [simp, wire_simps]: "rd32 (be32 v @ bs) = v"
proof (rule bit_word_eqI)
  fix n assume n: "n < LENGTH(32)"
  then consider "n < 8" | "8 \<le> n" "n < 16" | "16 \<le> n" "n < 24" | "24 \<le> n" "n < 32"
    by fastforce
  then show "bit (rd32 (be32 v @ bs)) n = bit v n"
    by cases (simp_all add: rd32_def be32_def bit_simps less_diff_conv2)
qed

definition rd64 :: "byte list \<Rightarrow> u64" where
  "rd64 p = push_bit 32 (ucast (rd32 p)) OR ucast (rd32 (drop 4 p))"

lemma rd64_be64 [simp, wire_simps]: "rd64 (be64 v @ bs) = v"
proof -
  have "rd64 (be64 v @ bs) = push_bit 32 (ucast (ucast (drop_bit 32 v) :: u32)) OR ucast (ucast v :: u32)"
    by (simp add: rd64_def be64_def)
  also have "\<dots> = v"
    by (rule bit_word_eqI) (auto simp: bit_simps not_less)
  finally show ?thesis .
qed

lemmas rd16_be16_Nil [simp, wire_simps] = rd16_be16 [where bs = "[]", simplified]
lemmas rd32_be32_Nil [simp, wire_simps] = rd32_be32 [where bs = "[]", simplified]

lemmas rd64_be64_Nil [simp, wire_simps] = rd64_be64 [where bs = "[]", simplified]

lemma be16_inject [simp]: "be16 v = be16 w \<longleftrightarrow> v = w"
  by (metis rd16_be16_Nil)

lemma be32_inject [simp]: "be32 v = be32 w \<longleftrightarrow> v = w"
  by (metis rd32_be32_Nil)

subsection \<open>Circular arrays\<close>

text \<open>
  \<open>ring es t c\<close> is the queue a circular array holds: the \<open>c\<close> slots of \<open>es\<close> starting at
  index \<open>t\<close>, in order, wrapping at the end of the array.
\<close>

definition ring :: "'a list \<Rightarrow> nat \<Rightarrow> nat \<Rightarrow> 'a list" where
  "ring es t c = map (\<lambda>i. es ! ((t + i) mod length es)) [0..<c]"

lemma length_ring [simp]: "length (ring es t c) = c"
  by (simp add: ring_def)

lemma ring_0 [simp]: "ring es t 0 = []"
  by (simp add: ring_def)

lemma nth_ring [simp]: "i < c \<Longrightarrow> ring es t c ! i = es ! ((t + i) mod length es)"
  by (simp add: ring_def)

lemma ring_eq_Nil_iff [simp]: "ring es t c = [] \<longleftrightarrow> c = 0"
  by (simp add: ring_def)

lemma mod_add_neq:
  assumes "i < (n::nat)" and "j < n" and "i \<noteq> j"
  shows "(t + i) mod n \<noteq> (t + j) mod n"
proof
  assume "(t + i) mod n = (t + j) mod n"
  then have "(int t + int i) mod int n = (int t + int j) mod int n"
    by (metis of_nat_add of_nat_mod)
  then have dvd: "int n dvd (int i - int j)"
    by (simp add: mod_eq_dvd_iff)
  have "\<bar>int i - int j\<bar> < int n" using assms by linarith
  with dvd have "int i - int j = 0"
    by (metis abs_of_nat dvd_imp_le_int not_le)
  with assms show False by simp
qed

lemma ring_cong:
  assumes "length es = length fs"
    and "\<And>i. i < c \<Longrightarrow> es ! ((t + i) mod length es) = fs ! ((t + i) mod length es)"
  shows "ring es t c = ring fs t c"
  using assms by (simp add: ring_def)

lemma ring_Suc [ring_simps]: "ring es t (Suc c) = ring es t c @ [es ! ((t + c) mod length es)]"
  by (simp add: ring_def)

lemma ring_update_other [ring_simps]:
  assumes "c \<le> j" and "j < length es"
  shows "ring (es[(t + j) mod length es := x]) t c = ring es t c"
proof (rule ring_cong)
  fix i assume "i < c"
  with assms have "(t + i) mod length es \<noteq> (t + j) mod length es"
    by (intro mod_add_neq) auto
  then show "es[(t + j) mod length es := x] ! ((t + i) mod length (es[(t + j) mod length es := x])) =
      es ! ((t + i) mod length (es[(t + j) mod length es := x]))"
    by simp
qed simp

lemma ring_push [ring_simps]:
  assumes "c < length es"
  shows "ring (es[(t + c) mod length es := x]) t (Suc c) = ring es t c @ [x]"
proof -
  have "(t + c) mod length es < length es" using assms by (intro mod_less_divisor) auto
  then show ?thesis using assms by (simp add: ring_Suc ring_update_other)
qed

lemma ring_pop [ring_simps]:
  assumes "0 < c" and "t < length es"
  shows "ring es t c = es ! t # ring es (Suc t mod length es) (c - 1)"
proof (rule nth_equalityI)
  show "length (ring es t c) = length (es ! t # ring es (Suc t mod length es) (c - 1))"
    using assms by simp
next
  fix i assume i: "i < length (ring es t c)"
  show "ring es t c ! i = (es ! t # ring es (Suc t mod length es) (c - 1)) ! i"
  proof (cases i)
    case 0
    with i assms show ?thesis by simp
  next
    case (Suc j)
    have "(Suc t mod length es + j) mod length es = (t + Suc j) mod length es"
      by (simp add: mod_simps)
    with Suc i assms show ?thesis by simp
  qed
qed

lemma ring_update_tail [ring_simps]:
  assumes "t < length es" and "c < length es"
  shows "ring (es[t := x]) (Suc t mod length es) c = ring es (Suc t mod length es) c"
proof (rule ring_cong)
  fix i assume i: "i < c"
  have "(t + Suc i) mod length es \<noteq> (t + 0) mod length es"
    using i assms by (intro mod_add_neq) auto
  then have "(Suc t mod length es + i) mod length es \<noteq> t"
    using assms by (simp add: mod_simps)
  then show "es[t := x] ! ((Suc t mod length es + i) mod length (es[t := x])) =
      es ! ((Suc t mod length es + i) mod length (es[t := x]))"
    by simp
qed simp

lemma ring_nth_set: "x \<in> set (ring es t c) \<Longrightarrow> 0 < length es \<Longrightarrow> x \<in> set es"
  by (auto simp: ring_def)

end
