(* ===== verification/Lossy_Queue.thy ===== *)
theory Lossy_Queue
  imports Raptor_Prelude "HOL-Library.Sublist"
begin

text \<open>
  The contract every per-client media queue of the system keeps with its two sides, the ring
  reader that offers frames and the send thread that delivers them. A queue may drop frames
  (all of them have an overflow policy), but within one kind of frame it never reorders,
  duplicates or invents one, and it never holds more than its capacity.

  The RTSP queue (\<^verbatim>\<open>rsd/rsd_sendq.c\<close>), the WebRTC queue (\<^verbatim>\<open>rwd/rwd_sendq.c\<close>) and the live555
  queue (\<^verbatim>\<open>rsd-555/rsd555_queue.c\<close>) each interpret the locale with their own operations.
\<close>

text \<open>A run of operations, collecting what was delivered.\<close>

fun run_ops :: "('op \<Rightarrow> 'q \<Rightarrow> 'q \<times> 'e list) \<Rightarrow> 'op list \<Rightarrow> 'q \<Rightarrow> 'q \<times> 'e list" where
  "run_ops exec [] q = (q, [])"
| "run_ops exec (p # ps) q =
     (let (q1, out) = exec p q; (q2, outs) = run_ops exec ps q1 in (q2, out @ outs))"

text \<open>The frames of one kind.\<close>

definition of_kind :: "('e \<Rightarrow> 'k) \<Rightarrow> 'k \<Rightarrow> 'e list \<Rightarrow> 'e list" where
  "of_kind kind k = filter (\<lambda>e. kind e = k)"

lemma of_kind_append [simp]: "of_kind kind k (xs @ ys) = of_kind kind k xs @ of_kind kind k ys"
  by (simp add: of_kind_def)

lemma of_kind_Nil [simp]: "of_kind kind k [] = []"
  by (simp add: of_kind_def)

lemma of_kind_Cons [simp]:
  "of_kind kind k (x # xs) = (if kind x = k then x # of_kind kind k xs else of_kind kind k xs)"
  by (simp add: of_kind_def)

lemma subseq_of_kind: "subseq xs ys \<Longrightarrow> subseq (of_kind kind k xs) (of_kind kind k ys)"
  by (simp add: of_kind_def subseq_filter)

locale lossy_queue =
  fixes exec :: "'op \<Rightarrow> 'q \<Rightarrow> 'q \<times> 'e list"
    and offered :: "'op \<Rightarrow> 'e list"
    and items :: "'q \<Rightarrow> 'e list"
    and kind :: "'e \<Rightarrow> 'k"
    and invar :: "'q \<Rightarrow> bool"
    and cap :: nat
  assumes exec_invar: "invar q \<Longrightarrow> invar (fst (exec p q))"
    and invar_cap: "invar q \<Longrightarrow> length (items q) \<le> cap"
    and exec_order: "invar q \<Longrightarrow>
      subseq (of_kind kind k (snd (exec p q) @ items (fst (exec p q))))
             (of_kind kind k (items q @ offered p))"
begin

lemma run_invar: "invar q \<Longrightarrow> invar (fst (run_ops exec ps q))"
proof (induction ps arbitrary: q)
  case (Cons p ps)
  then have "invar (fst (run_ops exec ps (fst (exec p q))))" by (simp add: exec_invar)
  then show ?case by (simp add: split_def Let_def)
qed simp

lemma run_cap: "invar q \<Longrightarrow> length (items (fst (run_ops exec ps q))) \<le> cap"
  by (intro invar_cap run_invar)

lemma run_order:
  "invar q \<Longrightarrow>
   subseq (of_kind kind k (snd (run_ops exec ps q) @ items (fst (run_ops exec ps q))))
          (of_kind kind k (items q @ concat (map offered ps)))"
proof (induction ps arbitrary: q)
  case (Cons p ps)
  let ?q1 = "fst (exec p q)" and ?out = "snd (exec p q)"
  let ?rest = "snd (run_ops exec ps ?q1) @ items (fst (run_ops exec ps ?q1))"
  let ?K = "of_kind kind k"
  have "subseq (?K ?rest) (?K (items ?q1 @ concat (map offered ps)))"
    using Cons.prems by (intro Cons.IH exec_invar)
  then have "subseq (?K ?out @ ?K ?rest) ((?K ?out @ ?K (items ?q1)) @ ?K (concat (map offered ps)))"
    by (simp add: list_emb_append_mono)
  also have "subseq \<dots> (?K (items q @ offered p) @ ?K (concat (map offered ps)))"
    using exec_order [OF Cons.prems, of k p] by (intro list_emb_append_mono) simp_all
  finally show ?case by (simp add: split_def Let_def)
qed simp

text \<open>
  So the frames a client is sent, of one kind, from an empty queue, are a subsequence of the
  frames the reader offered.
\<close>

lemma run_delivered:
  assumes "invar q" and "items q = []"
  shows "subseq (of_kind kind k (snd (run_ops exec ps q))) (of_kind kind k (concat (map offered ps)))"
proof -
  let ?K = "of_kind kind k"
  have "subseq (?K (snd (run_ops exec ps q)))
          (?K (snd (run_ops exec ps q)) @ ?K (items (fst (run_ops exec ps q))))"
    by (rule list_emb_prefix) simp
  also have "subseq \<dots> (?K (concat (map offered ps)))"
    using run_order [OF assms(1), of k ps] assms(2) by simp
  finally show ?thesis .
qed

end

end
