(* ===== verification/Annexb_Format.thy ===== *)
theory Annexb_Format
  imports Raptor_Prelude
begin

text \<open>
  The Annex B byte stream the daemons exchange: NAL units behind start codes. This is the
  format the scanners of \<^verbatim>\<open>rsd\<close>, \<^verbatim>\<open>rmr\<close> and \<^verbatim>\<open>rfs\<close> are written for, stated once: a NAL unit
  is not empty, does not end in a zero byte, and emulation prevention keeps
  \<open>00 00 00\<close>, \<open>00 00 01\<close> and \<open>00 00 02\<close> out of it.
\<close>

fun no_start_code :: "byte list \<Rightarrow> bool" where
  "no_start_code (a # b # c # xs) =
     (\<not> (a = 0 \<and> b = 0 \<and> c \<le> 2) \<and> no_start_code (b # c # xs))"
| "no_start_code _ = True"

definition nal_wf :: "byte list \<Rightarrow> bool" where
  "nal_wf n \<longleftrightarrow> n \<noteq> [] \<and> last n \<noteq> 0 \<and> no_start_code n"

definition annexb4 :: "byte list list \<Rightarrow> byte list" where
  "annexb4 nals = concat (map (\<lambda>n. [0, 0, 0, 1] @ n) nals)"

text \<open>Either start code in front of each unit, as encoders mix them.\<close>

datatype start_code = SC3 | SC4

fun sc_bytes :: "start_code \<Rightarrow> byte list" where
  "sc_bytes SC3 = [0, 0, 1]"
| "sc_bytes SC4 = [0, 0, 0, 1]"

definition annexb :: "(start_code \<times> byte list) list \<Rightarrow> byte list" where
  "annexb us = concat (map (\<lambda>(s, n). sc_bytes s @ n) us)"

lemma annexb4_simps [simp]:
  "annexb4 [] = []" "annexb4 (n # ns) = [0, 0, 0, 1] @ n @ annexb4 ns"
  by (simp_all add: annexb4_def)

lemma annexb4_append [simp]: "annexb4 (xs @ ys) = annexb4 xs @ annexb4 ys"
  by (simp add: annexb4_def)

lemma annexb_simps [simp]:
  "annexb [] = []" "annexb ((s, n) # us) = sc_bytes s @ n @ annexb us"
  by (simp_all add: annexb_def)

lemma annexb4_annexb: "annexb4 ns = annexb (map (Pair SC4) ns)"
  by (induction ns) simp_all

lemma no_start_code_nth:
  "no_start_code xs \<Longrightarrow> i + 2 < length xs \<Longrightarrow> xs ! i = 0 \<Longrightarrow> xs ! (i + 1) = 0 \<Longrightarrow> \<not> xs ! (i + 2) \<le> 2"
proof (induction xs arbitrary: i rule: no_start_code.induct)
  case (1 a b c xs)
  then show ?case by (cases i) auto
qed auto

text \<open>
  Inside a well-formed unit no three bytes look like the beginning of a start code, not even
  when they run into whatever follows the unit.
\<close>

lemma nal_wf_inside:
  assumes "nal_wf n" and "k < length n"
    and "(n @ rest) ! k = 0" and "(n @ rest) ! (k + 1) = 0" and "(n @ rest) ! (k + 2) \<le> 2"
  shows False
proof -
  have last: "n ! (length n - 1) \<noteq> 0"
    using assms(1) last_conv_nth [of n] by (auto simp: nal_wf_def)
  have "k + 1 \<noteq> length n"
    using last assms(2,3) by (metis add_diff_cancel_right' nth_append)
  moreover have "k + 2 \<noteq> length n"
    using last assms(2,4) by (cases "length n") (auto simp: nth_append)
  ultimately have "k + 2 < length n" using assms(2) by simp
  then show False
    using no_start_code_nth [of n k] assms by (simp add: nal_wf_def nth_append)
qed

lemma nal_wf_inside_at:
  assumes "nal_wf n" and "k < length n"
  shows "\<not> ((pre @ n @ rest) ! (length pre + k) = 0 \<and> (pre @ n @ rest) ! (length pre + k + 1) = 0 \<and>
    (pre @ n @ rest) ! (length pre + k + 2) \<le> 2)"
  using nal_wf_inside [OF assms, of rest]
  by (auto simp: nth_append add.assoc)

lemma nal_wf_Nil [simp]: "\<not> nal_wf []"
  by (simp add: nal_wf_def)

end
