(* ===== verification/Rsd_Sendq.thy ===== *)
theory Rsd_Sendq
  imports Lossy_Queue Annexb_Format
begin

text \<open>
  The per-client send queue of the RTSP daemon, \<^verbatim>\<open>rsd/rsd_sendq.c\<close>, with the two places of
  \<^verbatim>\<open>rsd/rsd_ring_reader.c\<close> that take entries out of it: the send thread's pop and the audio
  drain between video NAL units. Each operation runs under the queue's mutex, so it is one
  atomic function on the queue record; an interleaving of threads is a list of operations.

  \<^item> the state is \<open>rsd_sendq\<close>, a circular array of 32 entries; \<open>rsd_items\<close> is the queue it
    holds and \<open>rsd_inv\<close> the representation invariant;
  \<^item> a failing \<^verbatim>\<open>malloc\<close> is an argument of the operations that allocate;
  \<^item> \<open>spec_push_video\<close>, \<open>spec_push_audio\<close> and \<open>spec_take_audio\<close> say what the overflow
    policy promises on lists; the refinement lemmas show the array code implements them.
\<close>

subsection \<open>State\<close>

datatype frame_type = RSD_FRAME_VIDEO | RSD_FRAME_AUDIO

record rsd_sendq_entry =
  data :: "byte list option"
  len :: u32
  rtp_ts :: u32
  capture_us :: int
  ftype :: frame_type
  codec :: u32
  zerocopy :: bool
  buf_idx :: byte
  buf_gen :: u32

record rsd_sendq =
  entries :: "rsd_sendq_entry list"
  head :: nat
  tail :: nat
  count :: nat
  shutdown :: bool
  drop_audio :: u32
  drop_video :: u32
  overflows :: u32

definition RSD_SENDQ_SLOTS :: nat where
  "RSD_SENDQ_SLOTS = 32"

datatype sendq_result = RSD_SENDQ_OK | RSD_SENDQ_DROPPED | RSD_SENDQ_ERR

definition zero_entry :: rsd_sendq_entry where
  "zero_entry = \<lparr>data = None, len = 0, rtp_ts = 0, capture_us = 0, ftype = RSD_FRAME_VIDEO,
     codec = 0, zerocopy = False, buf_idx = 0, buf_gen = 0\<rparr>"

definition rsd_sendq_init :: rsd_sendq where
  "rsd_sendq_init = \<lparr>entries = replicate RSD_SENDQ_SLOTS zero_entry, head = 0, tail = 0,
     count = 0, shutdown = False, drop_audio = 0, drop_video = 0, overflows = 0\<rparr>"

subsection \<open>Operations\<close>

definition rsd_sendq_release_entry :: "rsd_sendq_entry \<Rightarrow> rsd_sendq_entry" where
  "rsd_sendq_release_entry e = e\<lparr>data := None\<rparr>"

function rsd_sendq_destroy :: "rsd_sendq \<Rightarrow> rsd_sendq" where
  "rsd_sendq_destroy q =
     (if count q > 0 then
        rsd_sendq_destroy
          (q\<lparr>entries := (entries q)[tail q := rsd_sendq_release_entry (entries q ! tail q)],
             tail := (tail q + 1) mod RSD_SENDQ_SLOTS,
             count := count q - 1\<rparr>)
      else q)"
  by pat_completeness auto
termination
  by (relation "measure count") auto

text \<open>
  \<^verbatim>\<open>sendq_drop_video_locked\<close>: empty the array keeping the audio entries aside, then write
  them back from slot 0.
\<close>

function drop_video_drain :: "rsd_sendq \<Rightarrow> rsd_sendq_entry list \<Rightarrow> rsd_sendq \<times> rsd_sendq_entry list" where
  "drop_video_drain q audio =
     (if count q > 0 then
        let entry = entries q ! tail q;
            q1 = q\<lparr>entries := (entries q)[tail q := rsd_sendq_release_entry (entries q ! tail q)],
                   tail := (tail q + 1) mod RSD_SENDQ_SLOTS,
                   count := count q - 1\<rparr>
        in if ftype entry = RSD_FRAME_AUDIO
           then drop_video_drain q1 (audio @ [entry])
           else drop_video_drain (q1\<lparr>drop_video := drop_video q1 + 1\<rparr>) audio
      else (q, audio))"
  by pat_completeness auto
termination
  by (relation "measure (\<lambda>(q, audio). count q)") (auto simp: Let_def)

fun drop_video_refill :: "rsd_sendq_entry list \<Rightarrow> rsd_sendq \<Rightarrow> rsd_sendq" where
  "drop_video_refill [] q = q"
| "drop_video_refill (a # audio) q =
     drop_video_refill audio
       (q\<lparr>entries := (entries q)[head q := a],
          head := (head q + 1) mod RSD_SENDQ_SLOTS,
          count := count q + 1\<rparr>)"

definition sendq_drop_video_locked :: "rsd_sendq \<Rightarrow> rsd_sendq" where
  "sendq_drop_video_locked q =
     (let (q1, audio) = drop_video_drain q []
      in drop_video_refill audio (q1\<lparr>head := 0, tail := 0\<rparr>))"

text \<open>The inner loop of \<^verbatim>\<open>rsd_sendq_take_audio_locked\<close>: move the entries before slot \<open>j\<close> up one.\<close>

fun shift_forward :: "nat \<Rightarrow> nat \<Rightarrow> rsd_sendq_entry list \<Rightarrow> rsd_sendq_entry list" where
  "shift_forward t 0 es = es"
| "shift_forward t (Suc j) es =
     shift_forward t j
       (es[(t + Suc j) mod RSD_SENDQ_SLOTS := es ! ((t + Suc j - 1) mod RSD_SENDQ_SLOTS)])"

function take_audio_from :: "nat \<Rightarrow> rsd_sendq \<Rightarrow> (rsd_sendq_entry \<times> rsd_sendq) option" where
  "take_audio_from i q =
     (if i < count q then
        let idx = (tail q + i) mod RSD_SENDQ_SLOTS in
        if ftype (entries q ! idx) \<noteq> RSD_FRAME_AUDIO then take_audio_from (i + 1) q
        else
          let out = entries q ! idx;
              es1 = (entries q)[idx := rsd_sendq_release_entry (entries q ! idx)];
              es2 = shift_forward (tail q) i es1;
              es3 = es2[tail q := rsd_sendq_release_entry (es2 ! tail q)]
          in Some (out, q\<lparr>entries := es3, tail := (tail q + 1) mod RSD_SENDQ_SLOTS,
                          count := count q - 1\<rparr>)
      else None)"
  by pat_completeness auto
termination
  by (relation "measure (\<lambda>(i, q). count q - i)") (auto simp: Let_def)

definition rsd_sendq_take_audio_locked :: "rsd_sendq \<Rightarrow> (rsd_sendq_entry \<times> rsd_sendq) option" where
  "rsd_sendq_take_audio_locked q = take_audio_from 0 q"

text \<open>Offset of the first VCL NAL unit behind a 4-byte start code; the length when there is none.\<close>

definition is_sc4 :: "byte list \<Rightarrow> nat \<Rightarrow> bool" where
  "is_sc4 d p \<longleftrightarrow> d ! p = 0 \<and> d ! (p + 1) = 0 \<and> d ! (p + 2) = 0 \<and> d ! (p + 3) = 1"

definition is_vcl_first :: "bool \<Rightarrow> byte \<Rightarrow> bool" where
  "is_vcl_first is_h265 first =
     (if is_h265 then (drop_bit 1 first AND 0x3f) < 32
      else (let t = first AND 0x1f in t \<ge> 1 \<and> t \<le> 5))"

function first_vcl_from :: "byte list \<Rightarrow> bool \<Rightarrow> nat \<Rightarrow> nat" where
  "first_vcl_from d is_h265 p =
     (if p + 4 < length d then
        if \<not> is_sc4 d p then first_vcl_from d is_h265 (p + 1)
        else if is_vcl_first is_h265 (d ! (p + 4)) then p
        else first_vcl_from d is_h265 (p + 4)
      else length d)"
  by pat_completeness auto
termination
  by (relation "measure (\<lambda>(d, h, p). length d - p)") auto

definition first_vcl_offset :: "byte list \<Rightarrow> bool \<Rightarrow> nat" where
  "first_vcl_offset d is_h265 = first_vcl_from d is_h265 0"

text \<open>The copy a push queues: the frame with the timecode SEI spliced in.\<close>

definition splice_sei :: "byte list \<Rightarrow> byte list \<Rightarrow> bool \<Rightarrow> byte list" where
  "splice_sei d sei is_h265 =
     (if sei \<noteq> [] then
        let off = first_vcl_offset d is_h265 in take off d @ sei @ drop off d
      else d)"

text \<open>Write the slot at the head; a push leaves the fields it does not assign as they were.\<close>

definition push_slot :: "(rsd_sendq_entry \<Rightarrow> rsd_sendq_entry) \<Rightarrow> rsd_sendq \<Rightarrow> rsd_sendq" where
  "push_slot f q = q\<lparr>entries := (entries q)[head q := f (entries q ! head q)],
     head := (head q + 1) mod RSD_SENDQ_SLOTS, count := count q + 1\<rparr>"

definition video_slot :: "byte list \<Rightarrow> u32 \<Rightarrow> int \<Rightarrow> rsd_sendq_entry \<Rightarrow> rsd_sendq_entry" where
  "video_slot copy ts cap e = e\<lparr>data := Some copy, len := of_nat (length copy), rtp_ts := ts,
     capture_us := cap, ftype := RSD_FRAME_VIDEO, codec := 0\<rparr>"

definition audio_slot :: "u32 \<Rightarrow> byte list \<Rightarrow> u32 \<Rightarrow> int \<Rightarrow> rsd_sendq_entry \<Rightarrow> rsd_sendq_entry" where
  "audio_slot cdc copy ts cap e = e\<lparr>data := Some copy, len := of_nat (length copy), rtp_ts := ts,
     capture_us := cap, ftype := RSD_FRAME_AUDIO, codec := cdc, zerocopy := False\<rparr>"

definition rsd_sendq_push_video ::
  "bool \<Rightarrow> byte list \<Rightarrow> u32 \<Rightarrow> int \<Rightarrow> byte list \<Rightarrow> bool \<Rightarrow> rsd_sendq \<Rightarrow> sendq_result \<times> rsd_sendq" where
  "rsd_sendq_push_video malloc_ok d ts cap sei is_h265 q =
     (if \<not> malloc_ok then (RSD_SENDQ_ERR, q)
      else
        let copy = splice_sei d sei is_h265 in
        if shutdown q then (RSD_SENDQ_ERR, q)
        else if count q \<ge> RSD_SENDQ_SLOTS then
          let q1 = sendq_drop_video_locked (q\<lparr>overflows := overflows q + 1\<rparr>)
          in (RSD_SENDQ_DROPPED, q1\<lparr>drop_video := drop_video q1 + 1\<rparr>)
        else (RSD_SENDQ_OK, push_slot (video_slot copy ts cap) q))"

definition rsd_sendq_push_audio ::
  "bool \<Rightarrow> u32 \<Rightarrow> byte list \<Rightarrow> u32 \<Rightarrow> int \<Rightarrow> rsd_sendq \<Rightarrow> sendq_result \<times> rsd_sendq" where
  "rsd_sendq_push_audio malloc_ok cdc d ts cap q =
     (if \<not> malloc_ok then (RSD_SENDQ_ERR, q)
      else if shutdown q then (RSD_SENDQ_ERR, q)
      else if count q \<ge> RSD_SENDQ_SLOTS then
        let q1 = q\<lparr>overflows := overflows q + 1, drop_audio := drop_audio q + 1\<rparr>
        in (case rsd_sendq_take_audio_locked q1 of
              None \<Rightarrow> (RSD_SENDQ_DROPPED, q1)
            | Some (victim, q2) \<Rightarrow> (RSD_SENDQ_OK, push_slot (audio_slot cdc d ts cap) q2))
      else (RSD_SENDQ_OK, push_slot (audio_slot cdc d ts cap) q))"

text \<open>
  The critical section of \<^verbatim>\<open>rsd_client_send_thread\<close>: \<open>None\<close> while the thread has to wait or
  has been told to exit.
\<close>

definition send_thread_pop :: "rsd_sendq \<Rightarrow> (rsd_sendq_entry \<times> rsd_sendq) option" where
  "send_thread_pop q =
     (if shutdown q \<or> count q = 0 then None
      else Some (entries q ! tail q,
        q\<lparr>entries := (entries q)[tail q := rsd_sendq_release_entry (entries q ! tail q)],
          tail := (tail q + 1) mod RSD_SENDQ_SLOTS,
          count := count q - 1\<rparr>))"

text \<open>The audio drain between video NAL units, and the shutdown of the client teardown.\<close>

definition sendq_drain_audio :: "rsd_sendq \<Rightarrow> (rsd_sendq_entry \<times> rsd_sendq) option" where
  "sendq_drain_audio q = rsd_sendq_take_audio_locked q"

definition sendq_shutdown :: "rsd_sendq \<Rightarrow> rsd_sendq" where
  "sendq_shutdown q = q\<lparr>shutdown := True\<rparr>"

declare rsd_sendq_destroy.simps [simp del] drop_video_drain.simps [simp del]
  take_audio_from.simps [simp del] first_vcl_from.simps [simp del]

subsection \<open>Representation\<close>

definition rsd_items :: "rsd_sendq \<Rightarrow> rsd_sendq_entry list" where
  "rsd_items q = ring (entries q) (tail q) (count q)"

definition rsd_shape :: "rsd_sendq \<Rightarrow> bool" where
  "rsd_shape q \<longleftrightarrow> length (entries q) = RSD_SENDQ_SLOTS \<and> tail q < RSD_SENDQ_SLOTS \<and>
     count q \<le> RSD_SENDQ_SLOTS \<and> head q = (tail q + count q) mod RSD_SENDQ_SLOTS"

text \<open>A queued entry owns a live payload of the length it records.\<close>

definition owned :: "rsd_sendq_entry \<Rightarrow> bool" where
  "owned e \<longleftrightarrow> (\<exists>d. data e = Some d \<and> len e = of_nat (length d))"

text \<open>The fields kept for the zero-copy mode are never used.\<close>

definition plain :: "rsd_sendq_entry \<Rightarrow> bool" where
  "plain e \<longleftrightarrow> \<not> zerocopy e \<and> buf_idx e = 0 \<and> buf_gen e = 0"

definition rsd_inv :: "rsd_sendq \<Rightarrow> bool" where
  "rsd_inv q \<longleftrightarrow> rsd_shape q \<and> list_all plain (entries q) \<and> list_all owned (rsd_items q)"

lemmas rsd_defs = rsd_items_def rsd_shape_def RSD_SENDQ_SLOTS_def

lemma length_rsd_items [simp]: "length (rsd_items q) = count q"
  by (simp add: rsd_items_def)

lemma rsd_items_frame [simp]:
  "rsd_items (q\<lparr>overflows := a\<rparr>) = rsd_items q"
  "rsd_items (q\<lparr>drop_audio := a\<rparr>) = rsd_items q"
  "rsd_items (q\<lparr>drop_video := a\<rparr>) = rsd_items q"
  "rsd_items (q\<lparr>shutdown := b\<rparr>) = rsd_items q"
  by (simp_all add: rsd_items_def)

lemma rsd_shape_frame [simp]:
  "rsd_shape (q\<lparr>overflows := a\<rparr>) = rsd_shape q"
  "rsd_shape (q\<lparr>drop_audio := a\<rparr>) = rsd_shape q"
  "rsd_shape (q\<lparr>drop_video := a\<rparr>) = rsd_shape q"
  "rsd_shape (q\<lparr>shutdown := b\<rparr>) = rsd_shape q"
  by (simp_all add: rsd_shape_def)

lemma plain_release [simp]: "plain (rsd_sendq_release_entry e) = plain e"
  by (simp add: plain_def rsd_sendq_release_entry_def)

lemma list_all_update: "list_all P xs \<Longrightarrow> P x \<Longrightarrow> list_all P (xs[i := x])"
  by (auto simp: list_all_iff dest!: set_update_subset_insert [THEN subsetD])

lemma plain_update:
  assumes "list_all plain (entries q)" and "i < length (entries q)"
  shows "list_all plain ((entries q)[i := rsd_sendq_release_entry (entries q ! i)])"
  using assms by (intro list_all_update) (simp_all add: list_all_length)

subsection \<open>Pushing and popping a slot\<close>

lemma push_slot_shape: "rsd_shape q \<Longrightarrow> count q < RSD_SENDQ_SLOTS \<Longrightarrow> rsd_shape (push_slot f q)"
  by (auto simp: rsd_defs push_slot_def mod_simps)

lemma push_slot_items:
  assumes "rsd_shape q" and "count q < RSD_SENDQ_SLOTS"
  shows "rsd_items (push_slot f q) = rsd_items q @ [f (entries q ! head q)]"
  using assms ring_push [of "count q" "entries q" "tail q"]
  by (simp add: rsd_defs push_slot_def)

lemma push_slot_plain:
  assumes "list_all plain (entries q)" and "rsd_shape q" and "plain (f (entries q ! head q))"
  shows "list_all plain (entries (push_slot f q))"
  using assms by (simp add: push_slot_def list_all_update)

definition drop_tail :: "rsd_sendq \<Rightarrow> rsd_sendq" where
  "drop_tail q = q\<lparr>entries := (entries q)[tail q := rsd_sendq_release_entry (entries q ! tail q)],
     tail := (tail q + 1) mod RSD_SENDQ_SLOTS, count := count q - 1\<rparr>"

lemma drop_tail_shape: "rsd_shape q \<Longrightarrow> 0 < count q \<Longrightarrow> rsd_shape (drop_tail q)"
  by (cases "count q") (auto simp: rsd_defs drop_tail_def mod_simps)

lemma drop_tail_items:
  assumes "rsd_shape q" and "0 < count q"
  shows "rsd_items q = entries q ! tail q # rsd_items (drop_tail q)"
  using assms ring_pop [of "count q" "tail q" "entries q"]
    ring_update_tail [of "tail q" "entries q" "count q - 1"]
  by (auto simp: rsd_defs drop_tail_def)

lemma drop_tail_plain:
  "rsd_shape q \<Longrightarrow> list_all plain (entries q) \<Longrightarrow> list_all plain (entries (drop_tail q))"
  by (auto simp: drop_tail_def rsd_shape_def intro: plain_update)

lemma drop_tail_frame [simp]:
  "drop_video (drop_tail q) = drop_video q" "drop_audio (drop_tail q) = drop_audio q"
  "overflows (drop_tail q) = overflows q" "shutdown (drop_tail q) = shutdown q"
  "count (drop_tail q) = count q - 1"
  by (simp_all add: drop_tail_def)

subsection \<open>Dropping the queued video\<close>

abbreviation is_audio :: "rsd_sendq_entry \<Rightarrow> bool" where
  "is_audio e \<equiv> ftype e = RSD_FRAME_AUDIO"

lemma drop_video_drain_unfold:
  "drop_video_drain q audio =
     (if count q > 0 then
        if is_audio (entries q ! tail q) then drop_video_drain (drop_tail q) (audio @ [entries q ! tail q])
        else drop_video_drain ((drop_tail q)\<lparr>drop_video := drop_video q + 1\<rparr>) audio
      else (q, audio))"
  by (subst drop_video_drain.simps) (simp add: drop_tail_def Let_def)

lemma drop_video_drain_spec:
  assumes "rsd_shape q" and "list_all plain (entries q)"
  shows "\<exists>q1. drop_video_drain q audio = (q1, audio @ filter is_audio (rsd_items q)) \<and>
    length (entries q1) = RSD_SENDQ_SLOTS \<and> list_all plain (entries q1) \<and> count q1 = 0 \<and>
    drop_video q1 = drop_video q + of_nat (length (filter (Not \<circ> is_audio) (rsd_items q))) \<and>
    drop_audio q1 = drop_audio q \<and> overflows q1 = overflows q \<and> shutdown q1 = shutdown q"
  using assms
proof (induction "count q" arbitrary: q audio)
  case 0
  then show ?case
    by (subst drop_video_drain_unfold) (simp add: rsd_items_def rsd_shape_def)
next
  case (Suc n)
  then have pos: "0 < count q" by simp
  note items = drop_tail_items [OF Suc.prems(1) pos]
  have n: "n = count (drop_tail q)" using Suc.hyps(2) by simp
  show ?case
  proof (cases "is_audio (entries q ! tail q)")
    case True
    with Suc.hyps(1) [of "drop_tail q" "audio @ [entries q ! tail q]"] Suc.prems pos n
    show ?thesis
      by (subst drop_video_drain_unfold) (simp add: items drop_tail_shape drop_tail_plain)
  next
    case False
    with Suc.hyps(1) [of "(drop_tail q)\<lparr>drop_video := drop_video q + 1\<rparr>" audio] Suc.prems pos n
    show ?thesis
      by (subst drop_video_drain_unfold)
        (simp add: items drop_tail_shape drop_tail_plain add.assoc)
  qed
qed

lemma drop_video_refill_cons:
  "drop_video_refill (a # audio) q = drop_video_refill audio (push_slot (\<lambda>_. a) q)"
  by (simp add: push_slot_def)

lemma drop_video_refill_spec:
  assumes "rsd_shape q" and "count q + length audio \<le> RSD_SENDQ_SLOTS"
    and "list_all plain (entries q)" and "list_all plain audio"
  shows "rsd_shape (drop_video_refill audio q) \<and>
    rsd_items (drop_video_refill audio q) = rsd_items q @ audio \<and>
    list_all plain (entries (drop_video_refill audio q)) \<and>
    drop_video (drop_video_refill audio q) = drop_video q \<and>
    drop_audio (drop_video_refill audio q) = drop_audio q \<and>
    overflows (drop_video_refill audio q) = overflows q \<and>
    shutdown (drop_video_refill audio q) = shutdown q"
  using assms
proof (induction audio arbitrary: q)
  case (Cons a audio)
  then have room: "count q < RSD_SENDQ_SLOTS" by simp
  let ?q = "push_slot (\<lambda>_. a) q"
  have "count ?q + length audio \<le> RSD_SENDQ_SLOTS"
    using Cons.prems(2) by (simp add: push_slot_def)
  with Cons.IH [of ?q] Cons.prems room show ?case
    unfolding drop_video_refill_cons
    by (simp add: push_slot_shape push_slot_items push_slot_plain) (simp add: push_slot_def)
qed simp

lemma sendq_drop_video_spec:
  assumes "rsd_shape q" and "list_all plain (entries q)"
  shows "rsd_shape (sendq_drop_video_locked q) \<and>
    rsd_items (sendq_drop_video_locked q) = filter is_audio (rsd_items q) \<and>
    list_all plain (entries (sendq_drop_video_locked q)) \<and>
    drop_video (sendq_drop_video_locked q) =
      drop_video q + of_nat (length (filter (Not \<circ> is_audio) (rsd_items q))) \<and>
    drop_audio (sendq_drop_video_locked q) = drop_audio q \<and>
    overflows (sendq_drop_video_locked q) = overflows q \<and>
    shutdown (sendq_drop_video_locked q) = shutdown q"
proof -
  let ?audio = "filter is_audio (rsd_items q)"
  from drop_video_drain_spec [OF assms, of "[]"] obtain q1 where
    q1: "drop_video_drain q [] = (q1, ?audio)"
      "length (entries q1) = RSD_SENDQ_SLOTS" "list_all plain (entries q1)" "count q1 = 0"
      "drop_video q1 = drop_video q + of_nat (length (filter (Not \<circ> is_audio) (rsd_items q)))"
      "drop_audio q1 = drop_audio q" "overflows q1 = overflows q" "shutdown q1 = shutdown q"
    by auto
  let ?q = "q1\<lparr>head := 0, tail := 0\<rparr>"
  have shape: "rsd_shape ?q" using q1 by (simp add: rsd_shape_def RSD_SENDQ_SLOTS_def)
  have len: "count ?q + length ?audio \<le> RSD_SENDQ_SLOTS"
    using assms(1) q1(4) length_filter_le [of is_audio "rsd_items q"]
    by (simp add: rsd_shape_def)
  have "list_all plain ?audio"
    using assms by (auto simp: list_all_iff rsd_defs dest!: ring_nth_set)
  with drop_video_refill_spec [OF shape len] q1 show ?thesis
    by (simp add: sendq_drop_video_locked_def rsd_items_def)
qed

subsection \<open>Taking the oldest audio entry\<close>

lemma length_shift_forward [simp]: "length (shift_forward t j es) = length es"
  by (induction j arbitrary: es) simp_all

lemma nth_shift_forward:
  assumes "length es = RSD_SENDQ_SLOTS" and "j < RSD_SENDQ_SLOTS" and "k < RSD_SENDQ_SLOTS"
  shows "shift_forward t j es ! ((t + k) mod RSD_SENDQ_SLOTS) =
    (if 1 \<le> k \<and> k \<le> j then es ! ((t + k - 1) mod RSD_SENDQ_SLOTS)
     else es ! ((t + k) mod RSD_SENDQ_SLOTS))"
  using assms
proof (induction j arbitrary: es)
  case (Suc j)
  let ?N = RSD_SENDQ_SLOTS
  have N: "0 < ?N" by (simp add: RSD_SENDQ_SLOTS_def)
  have neq: "(t + i) mod ?N \<noteq> (t + Suc j) mod ?N" if "i < ?N" "i \<noteq> Suc j" for i
    using that Suc.prems by (intro mod_add_neq) auto
  have neq': "(t + k - 1) mod ?N \<noteq> (t + Suc j) mod ?N" if "1 \<le> k" "k \<le> j"
    using neq [of "k - 1"] that Suc.prems by simp
  show ?case
    using Suc.IH [of "es[(t + Suc j) mod ?N := es ! ((t + j) mod ?N)]"] Suc.prems neq [of k] neq' N
    by (auto simp: le_Suc_eq)
qed auto

lemma ring_delete_shift:
  assumes len: "length es = RSD_SENDQ_SLOTS" and t: "t < RSD_SENDQ_SLOTS"
    and c: "c \<le> RSD_SENDQ_SLOTS" and i: "i < c"
  shows "ring ((shift_forward t i (es[(t + i) mod RSD_SENDQ_SLOTS := x]))[t := y])
      ((t + 1) mod RSD_SENDQ_SLOTS) (c - 1) = take i (ring es t c) @ drop (Suc i) (ring es t c)"
    (is "?lhs = ?rhs")
proof (rule nth_equalityI)
  let ?N = RSD_SENDQ_SLOTS
  let ?sf = "shift_forward t i (es[(t + i) mod ?N := x])"
  show "length ?lhs = length ?rhs" using i by simp
  fix k assume "k < length ?lhs"
  then have k: "Suc k < c" using i by simp
  have neq: "(t + a) mod ?N \<noteq> (t + b) mod ?N" if "a < c" "b < c" "a \<noteq> b" for a b
    using that c by (intro mod_add_neq) auto
  have "?lhs ! k = ?sf[t := y] ! ((t + Suc k) mod ?N)"
    using len k by (simp add: mod_simps)
  also have "\<dots> = ?sf ! ((t + Suc k) mod ?N)"
    using neq [of "Suc k" 0] k t by simp
  also have "\<dots> = (if Suc k \<le> i then es ! ((t + k) mod ?N) else es ! ((t + Suc k) mod ?N))"
    using nth_shift_forward [of "es[(t + i) mod ?N := x]" i "Suc k" t] len c i k
      neq [of k i] neq [of "Suc k" i] by auto
  also have "\<dots> = ?rhs ! k"
    using len i k by (auto simp: nth_append)
  finally show "?lhs ! k = ?rhs ! k" .
qed

fun spec_take_audio :: "rsd_sendq_entry list \<Rightarrow> (rsd_sendq_entry \<times> rsd_sendq_entry list) option" where
  "spec_take_audio [] = None"
| "spec_take_audio (e # es) =
     (if is_audio e then Some (e, es) else map_option (apsnd ((#) e)) (spec_take_audio es))"

lemma spec_take_audio_skip:
  "\<forall>e\<in>set xs. \<not> is_audio e \<Longrightarrow> spec_take_audio (xs @ ys) = map_option (apsnd ((@) xs)) (spec_take_audio ys)"
  by (induction xs) (simp_all add: option.map_comp o_def apsnd_def map_prod_def split_def option.map_ident)

lemma shift_forward_all:
  "list_all P es \<Longrightarrow> length es = RSD_SENDQ_SLOTS \<Longrightarrow> list_all P (shift_forward t j es)"
proof (induction j arbitrary: es)
  case (Suc j)
  have "(t + j) mod RSD_SENDQ_SLOTS < length es"
    using Suc.prems by (simp add: RSD_SENDQ_SLOTS_def)
  with Suc show ?case by (simp add: list_all_update list_all_length [of P es])
qed simp

definition take_audio_post :: "rsd_sendq \<Rightarrow> (rsd_sendq_entry \<times> rsd_sendq) option \<Rightarrow> bool" where
  "take_audio_post q r = (case r of None \<Rightarrow> spec_take_audio (rsd_items q) = None
     | Some (e, q') \<Rightarrow> spec_take_audio (rsd_items q) = Some (e, rsd_items q') \<and> rsd_shape q' \<and>
         list_all plain (entries q') \<and> Suc (count q') = count q \<and> shutdown q' = shutdown q \<and>
         drop_video q' = drop_video q \<and> drop_audio q' = drop_audio q \<and> overflows q' = overflows q)"

lemma take_audio_hit:
  assumes "rsd_shape q" and "list_all plain (entries q)"
    and "\<forall>e\<in>set (take i (rsd_items q)). \<not> is_audio e" and "i < count q"
    and "is_audio (entries q ! ((tail q + i) mod RSD_SENDQ_SLOTS))"
  shows "take_audio_post q (take_audio_from i q)"
proof -
  let ?N = RSD_SENDQ_SLOTS and ?xs = "rsd_items q" and ?r = rsd_sendq_release_entry
  let ?e = "entries q ! ((tail q + i) mod ?N)"
  have split: "?xs = take i ?xs @ ?e # drop (Suc i) ?xs"
    using assms(1,4) id_take_nth_drop [of i ?xs] by (simp add: rsd_items_def rsd_shape_def)
  have spec: "spec_take_audio ?xs = Some (?e, take i ?xs @ drop (Suc i) ?xs)"
    using assms(3,5) by (subst split, subst spec_take_audio_skip) simp_all
  let ?es2 = "shift_forward (tail q) i ((entries q)[(tail q + i) mod ?N := ?r ?e])"
  let ?q' = "q\<lparr>entries := ?es2[tail q := ?r (?es2 ! tail q)], tail := (tail q + 1) mod ?N,
    count := count q - 1\<rparr>"
  have run: "take_audio_from i q = Some (?e, ?q')"
    using assms(4,5) by (subst take_audio_from.simps) (simp add: Let_def)
  have shape: "rsd_shape ?q'"
    using assms(1,4) by (cases "count q") (auto simp: rsd_defs mod_simps)
  have items: "rsd_items ?q' = take i ?xs @ drop (Suc i) ?xs"
    using assms(1,4) by (simp add: rsd_items_def rsd_shape_def ring_delete_shift [simplified])
  have N: "0 < ?N" by (simp add: RSD_SENDQ_SLOTS_def)
  then have "list_all plain ?es2"
    using assms(1,2)
    by (intro shift_forward_all list_all_update) (auto simp: rsd_shape_def list_all_length)
  then have "list_all plain (entries ?q')"
    using assms(1) by (auto intro!: list_all_update simp: rsd_shape_def list_all_length [of plain ?es2])
  then show ?thesis using run spec shape items assms(4) by (simp add: take_audio_post_def)
qed

lemma take_audio_from_spec:
  assumes "rsd_shape q" and "list_all plain (entries q)"
    and "\<forall>e\<in>set (take i (rsd_items q)). \<not> is_audio e"
  shows "take_audio_post q (take_audio_from i q)"
  using assms
proof (induction i q rule: take_audio_from.induct)
  case (1 i q)
  let ?e = "entries q ! ((tail q + i) mod RSD_SENDQ_SLOTS)"
  consider "\<not> i < count q" | "i < count q" "is_audio ?e" | "i < count q" "\<not> is_audio ?e" by blast
  then show ?case
  proof cases
    case 1
    with "1.prems" spec_take_audio_skip [of "rsd_items q" "[]"] show ?thesis
      by (subst take_audio_from.simps) (simp add: take_audio_post_def)
  next
    case 2
    with "1.prems" show ?thesis by (intro take_audio_hit)
  next
    case 3
    then have "rsd_items q ! i = ?e"
      using "1.prems"(1) by (simp add: rsd_items_def rsd_shape_def)
    with 3 "1.prems" have "\<forall>e\<in>set (take (i + 1) (rsd_items q)). \<not> is_audio e"
      by (simp add: take_Suc_conv_app_nth)
    with "1.IH" 3 "1.prems" show ?thesis by (subst take_audio_from.simps) simp
  qed
qed

subsection \<open>The overflow policy on lists\<close>

text \<open>What a client of the queue sees: the queued entries, the flag and the counters.\<close>

record queue_view =
  vw_items :: "rsd_sendq_entry list"
  vw_shutdown :: bool
  vw_drop_audio :: u32
  vw_drop_video :: u32
  vw_overflows :: u32

definition rsd_view :: "rsd_sendq \<Rightarrow> queue_view" where
  "rsd_view q = \<lparr>vw_items = rsd_items q, vw_shutdown = shutdown q, vw_drop_audio = drop_audio q,
     vw_drop_video = drop_video q, vw_overflows = overflows q\<rparr>"

definition spec_push_video ::
  "bool \<Rightarrow> byte list \<Rightarrow> u32 \<Rightarrow> int \<Rightarrow> byte list \<Rightarrow> bool \<Rightarrow> queue_view \<Rightarrow> sendq_result \<times> queue_view" where
  "spec_push_video malloc_ok d ts cap sei is_h265 v =
     (if \<not> malloc_ok \<or> vw_shutdown v then (RSD_SENDQ_ERR, v)
      else if length (vw_items v) < 32 then
        (RSD_SENDQ_OK, v\<lparr>vw_items := vw_items v @ [video_slot (splice_sei d sei is_h265) ts cap zero_entry]\<rparr>)
      else
        (RSD_SENDQ_DROPPED,
         v\<lparr>vw_items := filter is_audio (vw_items v), vw_overflows := vw_overflows v + 1,
           vw_drop_video := vw_drop_video v + of_nat (length (filter (Not \<circ> is_audio) (vw_items v))) + 1\<rparr>))"

definition spec_push_audio ::
  "bool \<Rightarrow> u32 \<Rightarrow> byte list \<Rightarrow> u32 \<Rightarrow> int \<Rightarrow> queue_view \<Rightarrow> sendq_result \<times> queue_view" where
  "spec_push_audio malloc_ok cdc d ts cap v =
     (let e = audio_slot cdc d ts cap zero_entry;
          v1 = v\<lparr>vw_overflows := vw_overflows v + 1, vw_drop_audio := vw_drop_audio v + 1\<rparr> in
      if \<not> malloc_ok \<or> vw_shutdown v then (RSD_SENDQ_ERR, v)
      else if length (vw_items v) < 32 then (RSD_SENDQ_OK, v\<lparr>vw_items := vw_items v @ [e]\<rparr>)
      else (case spec_take_audio (vw_items v) of
              None \<Rightarrow> (RSD_SENDQ_DROPPED, v1)
            | Some (_, es) \<Rightarrow> (RSD_SENDQ_OK, v1\<lparr>vw_items := es @ [e]\<rparr>)))"

definition spec_pop :: "queue_view \<Rightarrow> (rsd_sendq_entry \<times> queue_view) option" where
  "spec_pop v = (if vw_shutdown v then None
     else case vw_items v of [] \<Rightarrow> None | e # es \<Rightarrow> Some (e, v\<lparr>vw_items := es\<rparr>))"

definition spec_drain :: "queue_view \<Rightarrow> (rsd_sendq_entry \<times> queue_view) option" where
  "spec_drain v = map_option (apsnd (\<lambda>es. v\<lparr>vw_items := es\<rparr>)) (spec_take_audio (vw_items v))"

lemma plain_nth: "rsd_inv q \<Longrightarrow> plain (entries q ! head q)"
  by (auto simp: rsd_inv_def rsd_shape_def list_all_length RSD_SENDQ_SLOTS_def)

lemma video_slot_plain: "plain e \<Longrightarrow> video_slot d ts cap e = video_slot d ts cap zero_entry"
  by (simp add: plain_def video_slot_def zero_entry_def)

lemma audio_slot_plain: "plain e \<Longrightarrow> audio_slot cdc d ts cap e = audio_slot cdc d ts cap zero_entry"
  by (simp add: plain_def audio_slot_def zero_entry_def)

lemma slots_ok [simp]:
  "plain (video_slot d ts cap zero_entry)" "plain (audio_slot cdc d ts cap zero_entry)"
  "owned (video_slot d ts cap e)" "owned (audio_slot cdc d ts cap e)"
  by (simp_all add: plain_def owned_def video_slot_def audio_slot_def zero_entry_def)

lemma push_slot_ok:
  assumes "rsd_inv q" and "count q < RSD_SENDQ_SLOTS" and "f (entries q ! head q) = e"
    and "plain e" and "owned e"
  shows "rsd_inv (push_slot f q) \<and> rsd_view (push_slot f q) = (rsd_view q)\<lparr>vw_items := rsd_items q @ [e]\<rparr>"
  using assms push_slot_shape push_slot_items push_slot_plain [of q f]
  by (simp add: rsd_inv_def rsd_view_def) (simp add: push_slot_def)

lemma rsd_view_simps [simp]:
  "vw_items (rsd_view q) = rsd_items q" "vw_shutdown (rsd_view q) = shutdown q"
  "vw_drop_audio (rsd_view q) = drop_audio q" "vw_drop_video (rsd_view q) = drop_video q"
  "vw_overflows (rsd_view q) = overflows q"
  "rsd_view (q\<lparr>drop_video := a\<rparr>) = (rsd_view q)\<lparr>vw_drop_video := a\<rparr>"
  "rsd_view (q\<lparr>drop_audio := a\<rparr>) = (rsd_view q)\<lparr>vw_drop_audio := a\<rparr>"
  "rsd_view (q\<lparr>overflows := a\<rparr>) = (rsd_view q)\<lparr>vw_overflows := a\<rparr>"
  "rsd_view (q\<lparr>shutdown := b\<rparr>) = (rsd_view q)\<lparr>vw_shutdown := b\<rparr>"
  by (simp_all add: rsd_view_def)

lemma rsd_inv_frame [simp]:
  "rsd_inv (q\<lparr>overflows := a\<rparr>) = rsd_inv q" "rsd_inv (q\<lparr>drop_audio := a\<rparr>) = rsd_inv q"
  "rsd_inv (q\<lparr>drop_video := a\<rparr>) = rsd_inv q" "rsd_inv (q\<lparr>shutdown := b\<rparr>) = rsd_inv q"
  by (simp_all add: rsd_inv_def)

lemma drop_video_ok:
  assumes "rsd_inv q"
  shows "rsd_inv (sendq_drop_video_locked q)"
    and "rsd_view (sendq_drop_video_locked q) = (rsd_view q)\<lparr>vw_items := filter is_audio (rsd_items q),
      vw_drop_video := drop_video q + of_nat (length (filter (Not \<circ> is_audio) (rsd_items q)))\<rparr>"
    and "drop_video (sendq_drop_video_locked q) =
      drop_video q + of_nat (length (filter (Not \<circ> is_audio) (rsd_items q)))"
  using sendq_drop_video_spec [of q] assms
  by (auto simp: rsd_inv_def rsd_view_def list_all_iff)

lemma push_video_refines:
  assumes "rsd_inv q"
  shows "rsd_inv (snd (rsd_sendq_push_video m d ts cap sei h q)) \<and>
    apsnd rsd_view (rsd_sendq_push_video m d ts cap sei h q) = spec_push_video m d ts cap sei h (rsd_view q)"
proof (cases "count q < RSD_SENDQ_SLOTS")
  case True
  with push_slot_ok [OF assms True, of "video_slot (splice_sei d sei h) ts cap"] plain_nth [OF assms]
  show ?thesis using assms video_slot_plain
    by (simp add: rsd_sendq_push_video_def spec_push_video_def Let_def RSD_SENDQ_SLOTS_def)
next
  case False
  with drop_video_ok [of "q\<lparr>overflows := overflows q + 1\<rparr>"] assms show ?thesis
    by (simp add: rsd_sendq_push_video_def spec_push_video_def Let_def RSD_SENDQ_SLOTS_def)
qed

lemma spec_take_audio_subset: "spec_take_audio xs = Some (e, ys) \<Longrightarrow> set ys \<subseteq> set xs \<and> e \<in> set xs"
  by (induction xs arbitrary: ys) (auto split: if_splits)

lemma take_audio_refines:
  assumes "rsd_inv q"
  shows "map_option (apsnd rsd_view) (rsd_sendq_take_audio_locked q) = spec_drain (rsd_view q) \<and>
    (\<forall>e q'. rsd_sendq_take_audio_locked q = Some (e, q') \<longrightarrow> rsd_inv q' \<and> Suc (count q') = count q)"
proof (cases "rsd_sendq_take_audio_locked q")
  case None
  with take_audio_from_spec [of q 0] assms show ?thesis
    by (simp add: rsd_sendq_take_audio_locked_def take_audio_post_def rsd_inv_def spec_drain_def)
next
  case (Some r)
  obtain e q' where r: "r = (e, q')" by force
  with Some take_audio_from_spec [of q 0] assms
  have post: "spec_take_audio (rsd_items q) = Some (e, rsd_items q')" "rsd_shape q'"
    "list_all plain (entries q')" "Suc (count q') = count q" "shutdown q' = shutdown q"
    "drop_video q' = drop_video q" "drop_audio q' = drop_audio q" "overflows q' = overflows q"
    by (simp_all add: rsd_sendq_take_audio_locked_def take_audio_post_def rsd_inv_def)
  have "list_all owned (rsd_items q')"
    using spec_take_audio_subset [OF post(1)] assms by (auto simp: rsd_inv_def list_all_iff)
  with post Some r show ?thesis by (simp add: rsd_inv_def spec_drain_def rsd_view_def)
qed

lemma take_audio_items:
  assumes "rsd_inv q"
  shows "spec_take_audio (rsd_items q) = map_option (apsnd rsd_items) (rsd_sendq_take_audio_locked q)"
  using take_audio_from_spec [of q 0] assms
  by (simp add: rsd_sendq_take_audio_locked_def take_audio_post_def rsd_inv_def split: option.splits prod.splits)

lemma push_audio_refines:
  assumes "rsd_inv q"
  shows "rsd_inv (snd (rsd_sendq_push_audio m cdc d ts cap q)) \<and>
    apsnd rsd_view (rsd_sendq_push_audio m cdc d ts cap q) = spec_push_audio m cdc d ts cap (rsd_view q)"
proof (cases "count q < RSD_SENDQ_SLOTS")
  case True
  with push_slot_ok [OF assms True, of "audio_slot cdc d ts cap"] plain_nth [OF assms]
  show ?thesis using assms audio_slot_plain
    by (simp add: rsd_sendq_push_audio_def spec_push_audio_def Let_def RSD_SENDQ_SLOTS_def)
next
  case False
  let ?q = "q\<lparr>overflows := overflows q + 1, drop_audio := drop_audio q + 1\<rparr>"
  have inv: "rsd_inv ?q" using assms by simp
  show ?thesis
  proof (cases "rsd_sendq_take_audio_locked ?q")
    case None
    with take_audio_items [OF inv] inv assms False show ?thesis
      by (simp add: rsd_sendq_push_audio_def spec_push_audio_def Let_def RSD_SENDQ_SLOTS_def)
  next
    case (Some r)
    obtain e q2 where r: "r = (e, q2)" by force
    with Some take_audio_refines [OF inv] have q2: "rsd_inv q2" "Suc (count q2) = count q" by auto
    have view: "rsd_view q2 = (rsd_view ?q)\<lparr>vw_items := rsd_items q2\<rparr>"
      using Some r take_audio_refines [OF inv] take_audio_items [OF inv] by (simp add: spec_drain_def)
    have "count q2 < RSD_SENDQ_SLOTS" using q2 assms by (simp add: rsd_inv_def rsd_shape_def)
    with push_slot_ok [OF q2(1) this, of "audio_slot cdc d ts cap"] plain_nth [OF q2(1)] Some r
      take_audio_items [OF inv] assms False audio_slot_plain view
    show ?thesis
      by (simp add: rsd_sendq_push_audio_def spec_push_audio_def Let_def RSD_SENDQ_SLOTS_def)
  qed
qed

lemma send_thread_pop_refines:
  assumes "rsd_inv q"
  shows "map_option (apsnd rsd_view) (send_thread_pop q) = spec_pop (rsd_view q) \<and>
    (\<forall>e q'. send_thread_pop q = Some (e, q') \<longrightarrow> rsd_inv q')"
proof (cases "count q")
  case 0
  then have "rsd_items q = []" by (simp add: rsd_items_def)
  with 0 show ?thesis by (simp add: send_thread_pop_def spec_pop_def rsd_view_def)
next
  case (Suc n)
  have eq: "send_thread_pop q = (if shutdown q then None else Some (entries q ! tail q, drop_tail q))"
    using Suc by (simp add: send_thread_pop_def drop_tail_def)
  have pos: "0 < count q" using Suc by simp
  from assms drop_tail_items [OF _ pos] drop_tail_shape [OF _ pos] drop_tail_plain [of q] pos
  show ?thesis by (simp add: eq rsd_inv_def spec_pop_def rsd_view_def)
qed

lemma shutdown_refines: "rsd_inv q \<Longrightarrow> rsd_inv (sendq_shutdown q)"
  by (simp add: sendq_shutdown_def rsd_inv_def)

lemma rsd_inv_init: "rsd_inv rsd_sendq_init"
  by (simp add: rsd_inv_def rsd_defs rsd_sendq_init_def list_all_length plain_def zero_entry_def)

lemma rsd_items_init: "rsd_items rsd_sendq_init = []"
  by (simp add: rsd_items_def rsd_sendq_init_def)

text \<open>Teardown frees every queued payload, whatever the order of the operations before it.\<close>

lemma rsd_sendq_destroy_unfold:
  "rsd_sendq_destroy q = (if count q > 0 then rsd_sendq_destroy (drop_tail q) else q)"
  by (subst rsd_sendq_destroy.simps) (simp add: drop_tail_def)

lemma destroy_empties:
  "rsd_shape q \<Longrightarrow> rsd_shape (rsd_sendq_destroy q) \<and> count (rsd_sendq_destroy q) = 0"
proof (induction "count q" arbitrary: q)
  case 0
  then show ?case by (subst (1 2) rsd_sendq_destroy_unfold) simp
next
  case (Suc n)
  then have "0 < count q" "n = count (drop_tail q)" by simp_all
  with Suc show ?case
    by (subst (1 2) rsd_sendq_destroy_unfold) (simp add: drop_tail_shape)
qed

subsection \<open>Ownership of the payloads\<close>

text \<open>
  A slot outside the queue holds no payload: a push never overwrites a live pointer, and once
  the queue is empty nothing is left allocated.
\<close>

definition rsd_clean :: "rsd_sendq \<Rightarrow> bool" where
  "rsd_clean q \<longleftrightarrow> (\<forall>k < RSD_SENDQ_SLOTS. count q \<le> k \<longrightarrow>
     data (entries q ! ((tail q + k) mod RSD_SENDQ_SLOTS)) = None)"

lemma slot_neq:
  "i < RSD_SENDQ_SLOTS \<Longrightarrow> j < RSD_SENDQ_SLOTS \<Longrightarrow> i \<noteq> j \<Longrightarrow>
   (t + i) mod RSD_SENDQ_SLOTS \<noteq> (t + j) mod RSD_SENDQ_SLOTS"
  by (rule mod_add_neq)

lemma push_slot_clean:
  assumes "rsd_shape q" and "rsd_clean q" and "count q < RSD_SENDQ_SLOTS"
  shows "rsd_clean (push_slot f q)"
  unfolding rsd_clean_def
proof (intro allI impI)
  fix k assume k: "k < RSD_SENDQ_SLOTS" "count (push_slot f q) \<le> k"
  then have "(tail q + k) mod RSD_SENDQ_SLOTS \<noteq> (tail q + count q) mod RSD_SENDQ_SLOTS"
    by (intro slot_neq) (auto simp: push_slot_def)
  with k assms show "data (entries (push_slot f q) ! ((tail (push_slot f q) + k) mod RSD_SENDQ_SLOTS)) = None"
    by (simp add: rsd_clean_def rsd_shape_def push_slot_def)
qed

text \<open>Advancing the tail over a released slot.\<close>

lemma advance_clean:
  assumes "length es = RSD_SENDQ_SLOTS" and "t < RSD_SENDQ_SLOTS" and "data x = None"
    and "\<And>k. Suc k < RSD_SENDQ_SLOTS \<Longrightarrow> c \<le> Suc k \<Longrightarrow> data (es ! ((t + Suc k) mod RSD_SENDQ_SLOTS)) = None"
    and "entries q' = es[t := x]" and "tail q' = (t + 1) mod RSD_SENDQ_SLOTS" and "count q' = c - 1"
  shows "rsd_clean q'"
  unfolding rsd_clean_def
proof (intro allI impI)
  let ?N = RSD_SENDQ_SLOTS
  fix k assume k: "k < ?N" "count q' \<le> k"
  have pos: "(tail q' + k) mod ?N = (t + Suc k) mod ?N" using assms(6) by (simp add: mod_simps)
  show "data (entries q' ! ((tail q' + k) mod ?N)) = None"
  proof (cases "Suc k = ?N")
    case True
    then have "(t + Suc k) mod ?N = t" using assms(2) by simp
    with assms(1-3,5) show ?thesis by (simp only: pos) simp
  next
    case False
    with k have "(t + Suc k) mod ?N \<noteq> (t + 0) mod ?N" by (intro slot_neq) auto
    with k False assms(1-3,5,7) assms(4) [of k] show ?thesis by (simp only: pos) simp
  qed
qed

lemma drop_tail_clean: "rsd_shape q \<Longrightarrow> rsd_clean q \<Longrightarrow> rsd_clean (drop_tail q)"
  by (rule advance_clean [where es = "entries q" and t = "tail q" and c = "count q"
        and x = "rsd_sendq_release_entry (entries q ! tail q)"])
    (auto simp: rsd_shape_def rsd_clean_def drop_tail_def rsd_sendq_release_entry_def)

lemma rsd_clean_frame [simp]:
  "rsd_clean (q\<lparr>overflows := a\<rparr>) = rsd_clean q" "rsd_clean (q\<lparr>drop_audio := a\<rparr>) = rsd_clean q"
  "rsd_clean (q\<lparr>drop_video := a\<rparr>) = rsd_clean q" "rsd_clean (q\<lparr>shutdown := b\<rparr>) = rsd_clean q"
  by (simp_all add: rsd_clean_def)

lemma drop_video_drain_clean:
  "rsd_shape q \<Longrightarrow> rsd_clean q \<Longrightarrow> drop_video_drain q audio = (q1, as) \<Longrightarrow>
   rsd_shape q1 \<and> rsd_clean q1 \<and> count q1 = 0"
proof (induction "count q" arbitrary: q audio)
  case 0
  then show ?case by (simp add: drop_video_drain_unfold [of q])
next
  case (Suc n)
  then have "0 < count q" "n = count (drop_tail q)" by simp_all
  moreover note Suc.hyps(1) [of "drop_tail q"] Suc.hyps(1) [of "(drop_tail q)\<lparr>drop_video := drop_video q + 1\<rparr>"]
  ultimately show ?case
    using Suc.prems by (simp add: drop_video_drain_unfold [of q] drop_tail_shape drop_tail_clean split: if_splits)
qed

lemma drop_video_refill_clean:
  "rsd_shape q \<Longrightarrow> rsd_clean q \<Longrightarrow> count q + length audio \<le> RSD_SENDQ_SLOTS \<Longrightarrow>
   rsd_clean (drop_video_refill audio q)"
proof (induction audio arbitrary: q)
  case (Cons a audio)
  moreover have "count (push_slot (\<lambda>_. a) q) = Suc (count q)" by (simp add: push_slot_def)
  ultimately show ?case
    unfolding drop_video_refill_cons by (simp add: push_slot_clean push_slot_shape)
qed simp

lemma empty_clean_all:
  assumes "rsd_shape q" and "rsd_clean q" and "count q = 0" and "i < RSD_SENDQ_SLOTS"
  shows "data (entries q ! i) = None"
proof -
  let ?N = RSD_SENDQ_SLOTS
  let ?k = "(?N - tail q + i) mod ?N"
  have "(tail q + ?k) mod ?N = (tail q + (?N - tail q + i)) mod ?N" by (simp add: mod_simps)
  also have "\<dots> = i" using assms(1,4) by (simp add: rsd_shape_def)
  finally have "(tail q + ?k) mod ?N = i" .
  moreover have "?k < ?N" by (simp add: RSD_SENDQ_SLOTS_def)
  ultimately show ?thesis using assms(2,3) unfolding rsd_clean_def by (metis le0)
qed

lemma sendq_drop_video_clean:
  assumes "rsd_inv q" and "rsd_clean q"
  shows "rsd_clean (sendq_drop_video_locked q)"
proof -
  obtain q1 as where r: "drop_video_drain q [] = (q1, as)" by force
  have shape: "rsd_shape q" "list_all plain (entries q)" using assms by (simp_all add: rsd_inv_def)
  note q1 = drop_video_drain_clean [OF shape(1) assms(2) r]
  have "length as \<le> RSD_SENDQ_SLOTS"
    using drop_video_drain_spec [OF shape, of "[]"] r shape(1) length_filter_le [of is_audio "rsd_items q"]
    by (auto simp: rsd_shape_def)
  moreover have "rsd_clean (q1\<lparr>head := 0, tail := 0\<rparr>)"
    using q1 empty_clean_all [of q1] by (simp add: rsd_clean_def RSD_SENDQ_SLOTS_def)
  ultimately show ?thesis using q1 r
    by (auto simp: sendq_drop_video_locked_def intro!: drop_video_refill_clean)
      (simp add: rsd_shape_def)
qed

lemma take_audio_clean:
  "rsd_shape q \<Longrightarrow> rsd_clean q \<Longrightarrow> take_audio_from i q = Some (e, q') \<Longrightarrow> rsd_clean q'"
proof (induction i q rule: take_audio_from.induct)
  case (1 i q)
  let ?N = RSD_SENDQ_SLOTS
  let ?i = "(tail q + i) mod ?N"
  show ?case
  proof (cases "i < count q \<and> is_audio (entries q ! ?i)")
    case False
    then show ?thesis
      using "1.prems"(3) by (auto simp: take_audio_from.simps [of i q] intro: "1.IH" "1.prems" split: if_splits)
  next
    case True
    let ?es1 = "(entries q)[?i := rsd_sendq_release_entry (entries q ! ?i)]"
    let ?es2 = "shift_forward (tail q) i ?es1"
    have sf: "data (?es2 ! ((tail q + Suc k) mod ?N)) = None" if "Suc k < ?N" "count q \<le> Suc k" for k
      using that True "1.prems"(1,2) nth_shift_forward [of ?es1 i "Suc k" "tail q"]
        slot_neq [of "Suc k" i "tail q"]
      by (auto simp: rsd_shape_def rsd_clean_def dest: spec [of _ "Suc k"])
    from "1.prems"(3) True have q': "entries q' = ?es2[tail q := rsd_sendq_release_entry (?es2 ! tail q)]"
      "tail q' = (tail q + 1) mod ?N" "count q' = count q - 1"
      by (auto simp: take_audio_from.simps [of i q] Let_def)
    show ?thesis
      by (rule advance_clean [OF _ _ _ sf q']) (use "1.prems"(1) in
          \<open>auto simp: rsd_shape_def rsd_sendq_release_entry_def\<close>)
  qed
qed

subsection \<open>Interleavings of the reader, the send thread and the teardown\<close>

datatype rsd_op =
    PushVideo bool "byte list" u32 int "byte list" bool
  | PushAudio bool u32 "byte list" u32 int
  | SendPop
  | DrainAudio
  | Shutdown

text \<open>One critical section: the queue after it and the entries handed to the sender.\<close>

fun rsd_exec :: "rsd_op \<Rightarrow> rsd_sendq \<Rightarrow> rsd_sendq \<times> rsd_sendq_entry list" where
  "rsd_exec (PushVideo m d ts cap sei h) q = (snd (rsd_sendq_push_video m d ts cap sei h q), [])"
| "rsd_exec (PushAudio m cdc d ts cap) q = (snd (rsd_sendq_push_audio m cdc d ts cap q), [])"
| "rsd_exec SendPop q = (case send_thread_pop q of None \<Rightarrow> (q, []) | Some (e, q') \<Rightarrow> (q', [e]))"
| "rsd_exec DrainAudio q = (case sendq_drain_audio q of None \<Rightarrow> (q, []) | Some (e, q') \<Rightarrow> (q', [e]))"
| "rsd_exec Shutdown q = (sendq_shutdown q, [])"

fun rsd_offered :: "rsd_op \<Rightarrow> rsd_sendq_entry list" where
  "rsd_offered (PushVideo m d ts cap sei h) = [video_slot (splice_sei d sei h) ts cap zero_entry]"
| "rsd_offered (PushAudio m cdc d ts cap) = [audio_slot cdc d ts cap zero_entry]"
| "rsd_offered _ = []"

lemma spec_take_audio_order:
  "spec_take_audio xs = Some (e, ys) \<Longrightarrow>
   of_kind ftype RSD_FRAME_AUDIO xs = e # of_kind ftype RSD_FRAME_AUDIO ys \<and>
   of_kind ftype RSD_FRAME_VIDEO xs = of_kind ftype RSD_FRAME_VIDEO ys \<and> is_audio e"
  by (induction xs arbitrary: ys) (auto split: if_splits)

lemma spec_take_audio_kind:
  assumes "spec_take_audio xs = Some (e, ys)"
  shows "of_kind ftype k (e # ys) = of_kind ftype k xs"
    and "subseq (of_kind ftype k ys) (of_kind ftype k xs)"
proof -
  show eq: "of_kind ftype k (e # ys) = of_kind ftype k xs"
    using spec_take_audio_order [OF assms] by (cases k) (simp_all only: of_kind_Cons frame_type.distinct simp_thms if_True if_False)
  show "subseq (of_kind ftype k ys) (of_kind ftype k xs)"
    unfolding eq [symmetric] by (intro subseq_of_kind) auto
qed

lemma rsd_exec_inv:
  assumes "rsd_inv q"
  shows "rsd_inv (fst (rsd_exec p q))"
proof (cases p)
  case SendPop
  then show ?thesis
    using assms send_thread_pop_refines [OF assms] by (cases "send_thread_pop q") auto
next
  case DrainAudio
  then show ?thesis
    using assms take_audio_refines [OF assms]
    by (cases "rsd_sendq_take_audio_locked q") (auto simp: sendq_drain_audio_def)
qed (simp_all add: assms push_video_refines push_audio_refines shutdown_refines)

lemma push_video_items:
  assumes "rsd_inv q"
  shows "rsd_items (snd (rsd_sendq_push_video m d ts cap sei h q)) =
    (if \<not> m \<or> shutdown q then rsd_items q
     else if count q < 32 then rsd_items q @ [video_slot (splice_sei d sei h) ts cap zero_entry]
     else filter is_audio (rsd_items q))"
proof -
  have "vw_items (snd (apsnd rsd_view (rsd_sendq_push_video m d ts cap sei h q))) =
      vw_items (snd (spec_push_video m d ts cap sei h (rsd_view q)))"
    using push_video_refines [OF assms] by metis
  then show ?thesis by (simp add: spec_push_video_def rsd_view_def)
qed

lemma push_audio_items:
  assumes "rsd_inv q"
  shows "rsd_items (snd (rsd_sendq_push_audio m cdc d ts cap q)) =
    (if \<not> m \<or> shutdown q then rsd_items q
     else if count q < 32 then rsd_items q @ [audio_slot cdc d ts cap zero_entry]
     else (case spec_take_audio (rsd_items q) of None \<Rightarrow> rsd_items q
             | Some (_, es) \<Rightarrow> es @ [audio_slot cdc d ts cap zero_entry]))"
proof -
  have "vw_items (snd (apsnd rsd_view (rsd_sendq_push_audio m cdc d ts cap q))) =
      vw_items (snd (spec_push_audio m cdc d ts cap (rsd_view q)))"
    using push_audio_refines [OF assms] by metis
  then show ?thesis by (simp add: spec_push_audio_def rsd_view_def Let_def split: option.splits)
qed

lemma rsd_exec_order:
  assumes "rsd_inv q"
  shows "subseq (of_kind ftype k (snd (rsd_exec p q) @ rsd_items (fst (rsd_exec p q))))
    (of_kind ftype k (rsd_items q @ rsd_offered p))"
proof (cases p)
  case (PushVideo m d ts cap sei h)
  let ?e = "video_slot (splice_sei d sei h) ts cap zero_entry"
  have "subseq (of_kind ftype k (filter is_audio (rsd_items q))) (of_kind ftype k (rsd_items q @ [?e]))"
    "subseq (of_kind ftype k (rsd_items q)) (of_kind ftype k (rsd_items q @ [?e]))"
    by (intro subseq_of_kind, simp add: list_emb_prefix)+
  then show ?thesis
    unfolding PushVideo rsd_exec.simps rsd_offered.simps fst_conv snd_conv append_Nil
      push_video_items [OF assms]
    by (simp del: of_kind_append)
next
  case (PushAudio m cdc d ts cap)
  let ?e = "audio_slot cdc d ts cap zero_entry"
  have "subseq (of_kind ftype k (rsd_items q)) (of_kind ftype k (rsd_items q @ [?e]))"
    by (intro subseq_of_kind) (simp add: list_emb_prefix)
  moreover have "subseq (of_kind ftype k (es @ [?e])) (of_kind ftype k (rsd_items q @ [?e]))"
    if "spec_take_audio (rsd_items q) = Some (e, es)" for e es
    unfolding of_kind_append by (intro list_emb_append_mono spec_take_audio_kind(2) [OF that]) simp
  ultimately show ?thesis
    unfolding PushAudio rsd_exec.simps rsd_offered.simps fst_conv snd_conv append_Nil
      push_audio_items [OF assms]
    by (simp del: of_kind_append split: option.splits prod.splits)
next
  case SendPop
  then show ?thesis
    using send_thread_pop_refines [OF assms]
    by (auto simp: spec_pop_def rsd_view_def split: option.splits list.splits if_splits)
next
  case DrainAudio
  then show ?thesis
    using spec_take_audio_kind(1) [of "rsd_items q"] take_audio_items [OF assms]
    by (simp add: sendq_drain_audio_def del: of_kind_Cons of_kind_append split: option.splits prod.splits)
next
  case Shutdown
  then show ?thesis by (simp add: sendq_shutdown_def)
qed

interpretation rsdq: lossy_queue rsd_exec rsd_offered rsd_items ftype rsd_inv RSD_SENDQ_SLOTS
proof
  fix q assume "rsd_inv q"
  then show "length (rsd_items q) \<le> RSD_SENDQ_SLOTS"
    by (simp add: rsd_inv_def rsd_shape_def)
qed (fact rsd_exec_inv rsd_exec_order)+

lemma push_clean:
  assumes "rsd_inv q" and "rsd_clean q"
  shows "rsd_clean (snd (rsd_sendq_push_video m d ts cap sei h q))"
    and "rsd_clean (snd (rsd_sendq_push_audio m cdc d ts cap q))"
proof -
  have "rsd_inv (q\<lparr>overflows := overflows q + 1\<rparr>)" using assms(1) by (simp add: rsd_inv_def)
  with assms show "rsd_clean (snd (rsd_sendq_push_video m d ts cap sei h q))"
    by (auto simp: rsd_sendq_push_video_def Let_def push_slot_clean sendq_drop_video_clean rsd_inv_def)
next
  let ?q = "q\<lparr>overflows := overflows q + 1, drop_audio := drop_audio q + 1\<rparr>"
  have inv: "rsd_inv ?q" "rsd_clean ?q" using assms by (simp_all add: rsd_inv_def)
  then have shape: "rsd_shape ?q" by (simp add: rsd_inv_def)
  have "rsd_clean (push_slot f q2)" if "rsd_sendq_take_audio_locked ?q = Some (e, q2)" for e q2 f
  proof (rule push_slot_clean)
    show "rsd_shape q2" "count q2 < RSD_SENDQ_SLOTS"
      using that take_audio_refines [OF inv(1)] shape by (auto simp: rsd_inv_def rsd_shape_def)
    show "rsd_clean q2"
      using that take_audio_clean [OF shape inv(2)] by (simp add: rsd_sendq_take_audio_locked_def)
  qed
  with assms show "rsd_clean (snd (rsd_sendq_push_audio m cdc d ts cap q))"
    by (auto simp: rsd_sendq_push_audio_def Let_def push_slot_clean rsd_inv_def split: option.splits)
qed

lemma rsd_exec_clean: "rsd_inv q \<Longrightarrow> rsd_clean q \<Longrightarrow> rsd_clean (fst (rsd_exec p q))"
proof (cases p)
  case SendPop
  assume a: "rsd_inv q" "rsd_clean q"
  then have "rsd_clean (drop_tail q)" by (simp add: drop_tail_clean rsd_inv_def)
  with a SendPop show ?thesis
    by (auto simp: send_thread_pop_def drop_tail_def split: option.splits)
next
  case DrainAudio
  assume a: "rsd_inv q" "rsd_clean q"
  with DrainAudio take_audio_clean [of q 0] show ?thesis
    by (auto simp: sendq_drain_audio_def rsd_sendq_take_audio_locked_def rsd_inv_def split: option.splits)
qed (simp_all add: push_clean sendq_shutdown_def)

lemma rsd_run_clean:
  "rsd_inv q \<Longrightarrow> rsd_clean q \<Longrightarrow> rsd_clean (fst (run_ops rsd_exec ps q))"
  by (induction ps arbitrary: q) (simp_all add: split_def Let_def rsd_exec_inv rsd_exec_clean)

lemma destroy_clean: "rsd_shape q \<Longrightarrow> rsd_clean q \<Longrightarrow> rsd_clean (rsd_sendq_destroy q)"
proof (induction "count q" arbitrary: q)
  case 0
  then show ?case by (simp add: rsd_sendq_destroy_unfold [of q])
next
  case (Suc n)
  then have "0 < count q" "n = count (drop_tail q)" by simp_all
  with Suc show ?case by (simp add: rsd_sendq_destroy_unfold [of q] drop_tail_shape drop_tail_clean)
qed

subsection \<open>The timecode SEI\<close>

abbreviation is_vcl :: "bool \<Rightarrow> byte list \<Rightarrow> bool" where
  "is_vcl is_h265 n \<equiv> is_vcl_first is_h265 (hd n)"

lemma first_vcl_end: "\<not> p + 4 < length d \<Longrightarrow> first_vcl_from d h p = length d"
  by (simp add: first_vcl_from.simps)

lemma first_vcl_skip: "\<not> is_sc4 d p \<Longrightarrow> first_vcl_from d h p = first_vcl_from d h (Suc p)"
  by (cases "p + 4 < length d") (simp_all add: first_vcl_end, simp add: first_vcl_from.simps [of d h p])

lemma first_vcl_skip_nal:
  assumes "nal_wf n" and "k \<le> length n" and "d = pre @ n @ rest"
  shows "first_vcl_from d h (length pre + (length n - k)) = first_vcl_from d h (length pre + length n)"
  using assms(2)
proof (induction k)
  case (Suc k)
  let ?p = "length pre + (length n - Suc k)"
  have "length n - Suc k < length n" using Suc.prems by linarith
  then have "\<not> is_sc4 d ?p"
    using nal_wf_inside_at [OF assms(1), of "length n - Suc k" pre rest] assms(3)
    by (auto simp: is_sc4_def)
  moreover have "Suc ?p = length pre + (length n - k)" using Suc.prems by simp
  ultimately show ?case using Suc first_vcl_skip [of d ?p h] by simp
qed simp

lemma first_vcl_from_annexb4:
  assumes "list_all nal_wf nals"
  shows "first_vcl_from (pre @ annexb4 nals) h (length pre) =
    length pre + length (annexb4 (takeWhile (Not \<circ> is_vcl h) nals))"
  using assms
proof (induction nals arbitrary: pre)
  case Nil
  then show ?case by (subst first_vcl_from.simps) simp
next
  case (Cons n ns)
  let ?d = "pre @ annexb4 (n # ns)"
  have wf: "nal_wf n" "list_all nal_wf ns" using Cons.prems by simp_all
  then obtain b n' where n: "n = b # n'" by (cases n) auto
  have sc: "is_sc4 ?d (length pre)" "length pre + 4 < length ?d" "?d ! (length pre + 4) = hd n"
    using n by (simp_all add: is_sc4_def nth_append)
  show ?case
  proof (cases "is_vcl h n")
    case True
    then show ?thesis using sc by (subst first_vcl_from.simps) simp
  next
    case False
    let ?pre = "pre @ [0, 0, 0, 1]"
    have "first_vcl_from ?d h (length pre) = first_vcl_from ?d h (length ?pre + (length n - length n))"
      using False sc by (subst first_vcl_from.simps) (simp add: numeral_eq_Suc)
    also have "\<dots> = first_vcl_from ?d h (length ?pre + length n)"
      by (rule first_vcl_skip_nal [OF wf(1) _, of _ _ _ "annexb4 ns"]) simp_all
    also have "\<dots> = first_vcl_from ((?pre @ n) @ annexb4 ns) h (length (?pre @ n))" by simp
    also have "\<dots> = length (?pre @ n) + length (annexb4 (takeWhile (Not \<circ> is_vcl h) ns))"
      by (rule Cons.IH [OF wf(2)])
    finally show ?thesis using False by (simp add: comp_def)
  qed
qed

subsection \<open>Properties\<close>

text \<open>
  C5. The array code of the send queue implements the overflow policy the comments promise, on
  lists, return codes and counters included: a video push into a full queue keeps exactly the
  queued audio, in order, and reports the drop; an audio push into a full queue evicts exactly
  the oldest audio entry, or drops the new one when only video is queued; the send thread takes
  the oldest entry and the interleaved drain the oldest audio entry.
\<close>

theorem rsd_sendq_refines_policy:
  assumes "rsd_inv q"
  shows "apsnd rsd_view (rsd_sendq_push_video m d ts cap sei h q) = spec_push_video m d ts cap sei h (rsd_view q)
    \<and> apsnd rsd_view (rsd_sendq_push_audio m cdc a ts cap q) = spec_push_audio m cdc a ts cap (rsd_view q)
    \<and> map_option (apsnd rsd_view) (send_thread_pop q) = spec_pop (rsd_view q)
    \<and> map_option (apsnd rsd_view) (sendq_drain_audio q) = spec_drain (rsd_view q)"
  using push_video_refines [OF assms] push_audio_refines [OF assms] send_thread_pop_refines [OF assms]
    take_audio_refines [OF assms] by (simp add: sendq_drain_audio_def)

theorem rsd_sendq_refines_policy_witness:
  "rsd_inv rsd_sendq_init \<and>
   apsnd rsd_view (rsd_sendq_push_video True [0, 0, 0, 1, 0x65] 90000 5 [] False rsd_sendq_init) =
     spec_push_video True [0, 0, 0, 1, 0x65] 90000 5 [] False (rsd_view rsd_sendq_init)"
  using rsd_sendq_refines_policy [OF rsd_inv_init] rsd_inv_init by blast

text \<open>
  C12. For every interleaving of pushes, pops, audio drains and a shutdown on a fresh queue, what
  the client is sent of one kind (video or audio) is a subsequence of what the readers offered
  of that kind: nothing is reordered, duplicated or invented. The queue never holds more than
  its 32 slots and keeps its representation invariant.
\<close>

theorem rsd_sendq_delivery_order:
  "subseq (of_kind ftype k (snd (run_ops rsd_exec ps rsd_sendq_init)))
     (of_kind ftype k (concat (map rsd_offered ps))) \<and>
   count (fst (run_ops rsd_exec ps rsd_sendq_init)) \<le> RSD_SENDQ_SLOTS \<and>
   rsd_inv (fst (run_ops rsd_exec ps rsd_sendq_init))"
  using rsdq.run_delivered [OF rsd_inv_init rsd_items_init] rsdq.run_cap [OF rsd_inv_init]
    rsdq.run_invar [OF rsd_inv_init] by simp

text \<open>
  C13. No payload is leaked: after any interleaving, a slot outside the queue holds no payload (so
  a push never overwrites a live pointer), and after the teardown's destroy no slot holds one.
\<close>

theorem rsd_sendq_no_leak:
  "rsd_clean (fst (run_ops rsd_exec ps rsd_sendq_init)) \<and>
   list_all (\<lambda>e. data e = None)
     (entries (rsd_sendq_destroy (fst (run_ops rsd_exec ps rsd_sendq_init))))"
proof -
  let ?q = "fst (run_ops rsd_exec ps rsd_sendq_init)"
  have clean: "rsd_clean ?q"
    by (intro rsd_run_clean rsd_inv_init) (simp add: rsd_clean_def rsd_sendq_init_def zero_entry_def RSD_SENDQ_SLOTS_def)
  have shape: "rsd_shape ?q" using rsdq.run_invar [OF rsd_inv_init] by (simp add: rsd_inv_def)
  from destroy_empties [OF shape] destroy_clean [OF shape clean] empty_clean_all
  show ?thesis using clean by (simp add: list_all_length rsd_shape_def)
qed

text \<open>
  C14. The timecode SEI is spliced in front of the first slice of the frame, behind any parameter
  sets, and every byte of the frame is kept.
\<close>

theorem splice_sei_before_first_slice:
  assumes "list_all nal_wf nals" and "sei \<noteq> []"
  shows "splice_sei (annexb4 nals) sei h =
    annexb4 (takeWhile (Not \<circ> is_vcl h) nals) @ sei @ annexb4 (dropWhile (Not \<circ> is_vcl h) nals)"
proof -
  let ?a = "takeWhile (Not \<circ> is_vcl h) nals" and ?b = "dropWhile (Not \<circ> is_vcl h) nals"
  have "first_vcl_offset (annexb4 nals) h = length (annexb4 ?a)"
    using first_vcl_from_annexb4 [OF assms(1), of "[]"] by (simp add: first_vcl_offset_def)
  moreover have "annexb4 nals = annexb4 ?a @ annexb4 ?b"
    using annexb4_append [of ?a ?b] by simp
  ultimately show ?thesis using assms(2) by (simp add: splice_sei_def Let_def)
qed

theorem splice_sei_before_first_slice_witness:
  "list_all nal_wf [[0x67, 0x42], [0x68, 0xce], [0x65, 0x88]] \<and>
   splice_sei (annexb4 [[0x67, 0x42], [0x68, 0xce], [0x65, 0x88]]) [9, 9] False =
     annexb4 [[0x67, 0x42], [0x68, 0xce]] @ [9, 9] @ annexb4 [[0x65, 0x88]]"
  using splice_sei_before_first_slice [of "[[0x67, 0x42], [0x68, 0xce], [0x65, 0x88]]" "[9, 9]" False]
  by (simp add: nal_wf_def is_vcl_first_def Let_def)

end
