(* ===== verification/Gop_Stream.thy ===== *)
theory Gop_Stream
  imports Lossy_Queue
begin

text \<open>
  Video frames depend on their predecessors, so a queue that may drop frames has to resume at a
  keyframe. \<open>decodable\<close> states that a delivered stream has no orphan frame with respect to the
  stream the reader read; the locale \<open>keyframe_gate\<close> is the contract a queue with a keyframe gate
  keeps in every step, from which every run delivers a decodable stream.
  The RTSP client (\<^verbatim>\<open>rsd\<close>), the WebRTC queue (\<^verbatim>\<open>rwd\<close>) and the live555 queue (\<^verbatim>\<open>rsd-555\<close>) each
  interpret it.
\<close>

text \<open>
  \<open>hist\<close> is what the reader read, each frame with its keyframe flag. In \<open>vs\<close> every frame is a
  keyframe of the history or directly follows the frame it followed there.
\<close>

fun decodable :: "(bool \<times> 'f) list \<Rightarrow> 'f option \<Rightarrow> 'f list \<Rightarrow> bool" where
  "decodable hist prev [] = True"
| "decodable hist prev (v # vs) =
     (((True, v) \<in> set hist \<or> (case prev of None \<Rightarrow> False | Some u \<Rightarrow> sublist [u, v] (map snd hist)))
      \<and> decodable hist (Some v) vs)"

definition last_opt :: "'a option \<Rightarrow> 'a list \<Rightarrow> 'a option" where
  "last_opt prev vs = (if vs = [] then prev else Some (last vs))"

lemma decodable_append:
  "decodable hist prev (us @ vs) \<longleftrightarrow> decodable hist prev us \<and> decodable hist (last_opt prev us) vs"
  by (induction us arbitrary: prev) (auto simp: last_opt_def)

lemma sublist_append_right: "sublist xs ys \<Longrightarrow> sublist xs (ys @ zs)"
  unfolding sublist_def by (metis append_assoc)

lemma decodable_mono: "decodable hist prev vs \<Longrightarrow> decodable (hist @ fs) prev vs"
  by (induction vs arbitrary: prev) (auto simp: sublist_append_right split: option.splits)

lemma decodable_prefix: "decodable hist prev vs \<Longrightarrow> prefix us vs \<Longrightarrow> decodable hist prev us"
  by (auto simp: prefix_def decodable_append)

lemma decodable_restart:
  "decodable hist p vs \<Longrightarrow> vs = [] \<or> (True, hd vs) \<in> set hist \<Longrightarrow> decodable hist p' vs"
  by (cases vs) auto

lemma decodable_snoc:
  assumes "decodable hist None vs"
    and "fst f \<or> hist \<noteq> [] \<and> vs \<noteq> [] \<and> last vs = snd (last hist)"
  shows "decodable (hist @ [f]) None (vs @ [snd f])"
proof -
  have "sublist [snd (last hist), snd f] (map snd (hist @ [f]))" if "hist \<noteq> []"
    using that by (cases hist rule: rev_cases) (auto simp: sublist_def)
  moreover have "(True, snd f) \<in> set (hist @ [f])" if "fst f"
    using that by (cases f) simp
  ultimately show ?thesis
    using assms decodable_mono [OF assms(1), of "[f]"]
    by (auto simp: decodable_append last_opt_def)
qed

text \<open>
  One step of a gated queue: \<open>g\<close> says whether a frame that is not a keyframe may be accepted,
  \<open>qs\<close> is what is queued, \<open>off\<close> what the reader offers, \<open>out\<close> what is delivered.
\<close>

inductive gate_step ::
  "('f \<Rightarrow> bool) \<Rightarrow> bool \<Rightarrow> 'f list \<Rightarrow> (bool \<times> 'f) list \<Rightarrow> 'f list \<Rightarrow> bool \<Rightarrow> 'f list \<Rightarrow> bool"
  for keyf :: "'f \<Rightarrow> bool" where
  gate_idle: "out @ qs' = qs \<Longrightarrow> (g' \<Longrightarrow> g) \<Longrightarrow> gate_step keyf g qs [] out g' qs'"
| gate_lose: "prefix (out @ qs') qs \<Longrightarrow> gate_step keyf g qs off out False qs'"
| gate_accept: "out @ qs' = qs @ [snd f] \<Longrightarrow> fst f \<or> g \<Longrightarrow> gate_step keyf g qs [f] out g' qs'"
| gate_skip: "qs = dropped @ kept \<Longrightarrow> out @ qs' = kept @ [snd f] \<Longrightarrow> fst f \<or> g \<Longrightarrow>
    (kept = [] \<Longrightarrow> fst f) \<Longrightarrow> (kept \<noteq> [] \<Longrightarrow> keyf (hd kept)) \<Longrightarrow> gate_step keyf g qs [f] out g' qs'"

locale keyframe_gate =
  fixes exec :: "'op \<Rightarrow> 'q \<Rightarrow> 'q \<times> 'f list"
    and offered :: "'op \<Rightarrow> (bool \<times> 'f) list"
    and queued :: "'q \<Rightarrow> 'f list"
    and keyf :: "'f \<Rightarrow> bool"
    and gate :: "'q \<Rightarrow> bool"
    and invar :: "'q \<Rightarrow> bool"
    and allowed :: "'op \<Rightarrow> bool"
  assumes gate_invar: "invar q \<Longrightarrow> allowed p \<Longrightarrow> invar (fst (exec p q))"
    and gate_law: "invar q \<Longrightarrow> allowed p \<Longrightarrow>
      gate_step keyf (gate q) (queued q) (offered p) (snd (exec p q)) (gate (fst (exec p q)))
        (queued (fst (exec p q)))"
    and offered_key: "(k, f) \<in> set (offered p) \<Longrightarrow> keyf f \<Longrightarrow> k"
begin

definition stream_ok :: "(bool \<times> 'f) list \<Rightarrow> 'f list \<Rightarrow> 'q \<Rightarrow> bool" where
  "stream_ok hist dels q \<longleftrightarrow> invar q \<and> decodable hist None (dels @ queued q) \<and>
     (gate q \<longrightarrow> hist \<noteq> [] \<and> dels @ queued q \<noteq> [] \<and> last (dels @ queued q) = snd (last hist)) \<and>
     (\<forall>f\<in>set (queued q). keyf f \<longrightarrow> (True, f) \<in> set hist)"

lemma stream_ok_step:
  assumes ok: "stream_ok hist dels q" and p: "allowed p"
  shows "stream_ok (hist @ offered p) (dels @ snd (exec p q)) (fst (exec p q))"
proof -
  let ?q = "fst (exec p q)" and ?out = "snd (exec p q)"
  note O = ok [unfolded stream_ok_def]
  have inv: "invar ?q" using gate_invar O p by simp
  from gate_law [OF conjunct1 [OF O] p] show ?thesis
  proof cases
    case gate_idle
    then have "set (queued ?q) \<subseteq> set (queued q)" by (metis Un_upper2 set_append)
    with gate_idle inv O show ?thesis by (auto simp: stream_ok_def)
  next
    case gate_lose
    then have "set (queued ?q) \<subseteq> set (queued q)"
      by (metis Un_subset_iff set_append set_mono_prefix)
    moreover have "prefix (dels @ ?out @ queued ?q) (dels @ queued q)" using gate_lose by simp
    ultimately show ?thesis using gate_lose inv O
      by (auto simp: stream_ok_def intro!: decodable_mono elim!: decodable_prefix)
  next
    case (gate_accept f)
    then have "set (queued ?q) \<subseteq> set (queued q) \<union> {snd f}"
      by (metis Un_upper2 set_append list.set empty_set set_simps(2))
    moreover have "decodable (hist @ [f]) None ((dels @ queued q) @ [snd f])"
      using gate_accept O by (intro decodable_snoc) auto
    moreover have "keyf (snd f) \<Longrightarrow> fst f" using offered_key [of "fst f" "snd f" p] gate_accept by simp
    ultimately show ?thesis using gate_accept inv O by (cases f) (auto simp: stream_ok_def)
  next
    case (gate_skip dropped kept f)
    then have sub: "set (queued ?q) \<subseteq> set kept \<union> {snd f}"
      by (metis Un_upper2 set_append list.set empty_set set_simps(2))
    have key: "keyf (snd f) \<Longrightarrow> fst f" using offered_key [of "fst f" "snd f" p] gate_skip by simp
    have "decodable hist None (dels @ kept)"
      using O gate_skip decodable_restart [of hist _ kept]
      by (cases "kept = []") (auto simp: decodable_append)
    then have "decodable (hist @ [f]) None ((dels @ kept) @ [snd f])"
      using gate_skip O by (intro decodable_snoc) (cases "kept = []"; auto)+
    with sub key gate_skip inv O show ?thesis by (cases f) (auto simp: stream_ok_def)
  qed
qed

lemma run_stream_ok:
  "stream_ok hist dels q \<Longrightarrow> list_all allowed ps \<Longrightarrow>
   stream_ok (hist @ concat (map offered ps)) (dels @ snd (run_ops exec ps q)) (fst (run_ops exec ps q))"
proof (induction ps arbitrary: hist dels q)
  case (Cons p ps)
  from Cons.IH [OF stream_ok_step [OF Cons.prems(1), of p]] Cons.prems(2) show ?case
    by (simp add: split_def Let_def)
qed simp

lemma run_decodable:
  assumes "invar q" and "queued q = []" and "\<not> gate q" and "list_all allowed ps"
  shows "decodable (concat (map offered ps)) None (snd (run_ops exec ps q))"
proof -
  have "stream_ok [] [] q" using assms(1-3) by (simp add: stream_ok_def)
  from run_stream_ok [OF this assms(4)] show ?thesis by (simp add: stream_ok_def decodable_append)
qed

end

text \<open>
  A gated queue also keeps the contract of a lossy queue: what it delivers or holds back is in
  the order it was offered.
\<close>

lemma gate_step_subseq:
  "gate_step keyf g qs off out g' qs' \<Longrightarrow> subseq (out @ qs') (qs @ map snd off)"
proof (induction rule: gate_step.induct)
  case (gate_lose out qs' qs g off)
  then show ?case by (metis list_emb_prefix prefix_imp_subseq)
qed auto

locale bounded_gate = keyframe_gate exec offered queued keyf gate invar "\<lambda>_. True"
  for exec :: "'op \<Rightarrow> 'q \<Rightarrow> 'q \<times> 'f list"
    and offered :: "'op \<Rightarrow> (bool \<times> 'f) list"
    and queued :: "'q \<Rightarrow> 'f list"
    and keyf :: "'f \<Rightarrow> bool"
    and gate :: "'q \<Rightarrow> bool"
    and invar :: "'q \<Rightarrow> bool" +
  fixes cap :: nat
  assumes queued_cap: "invar q \<Longrightarrow> length (queued q) \<le> cap"

sublocale bounded_gate < fifo: lossy_queue exec "\<lambda>p. map snd (offered p)" queued "\<lambda>_. ()" invar cap
proof
  fix q k p assume inv: "invar q"
  then show "invar (fst (exec p q))" by (simp add: gate_invar)
  show "length (queued q) \<le> cap" using inv by (rule queued_cap)
  from gate_step_subseq [OF gate_law [OF inv]]
  show "subseq (of_kind (\<lambda>_. ()) k (snd (exec p q) @ queued (fst (exec p q))))
      (of_kind (\<lambda>_. ()) k (queued q @ map snd (offered p)))"
    by (intro subseq_of_kind) simp
qed

end
