(* ===== verification/Rsd_Reader.thy ===== *)
theory Rsd_Reader
  imports Rsd_Sendq Gop_Stream
begin

text \<open>
  The video path of the RTSP daemon around its send queues, \<^verbatim>\<open>rsd/rsd_ring_reader.c\<close>: the
  reader that stamps every frame of a ring and offers it to each playing client, the keyframe
  gate that holds a client back after a loss, the limiter of keyframe requests
  (\<^verbatim>\<open>rsd/rsd_idr_recovery.h\<close>), the parameter set cache, and the send thread's splitting of a
  frame into NAL units.

  The shared-memory ring, the media clock, the SEI builder and the RTP transports are outside
  the repository: a frame read from the ring, its capture instant, the SEI bytes and the clock
  readings are arguments; what is handed to a transport is the output of the step.
\<close>

subsection \<open>Keyframe request limiter\<close>

record rsd_idr_recovery =
  last_event_us :: int
  has_event :: bool

definition RSD_IDR_RECOVERY_MIN_INTERVAL_US :: int where
  "RSD_IDR_RECOVERY_MIN_INTERVAL_US = 1000000"

definition rsd_idr_recovery_init :: rsd_idr_recovery where
  "rsd_idr_recovery_init = \<lparr>last_event_us = 0, has_event = False\<rparr>"

definition rsd_idr_recovery_note :: "int \<Rightarrow> rsd_idr_recovery \<Rightarrow> rsd_idr_recovery" where
  "rsd_idr_recovery_note now_us st =
     (let st1 = (if \<not> has_event st \<or> now_us > last_event_us st then st\<lparr>last_event_us := now_us\<rparr> else st)
      in st1\<lparr>has_event := True\<rparr>)"

definition rsd_idr_recovery_request_due :: "int \<Rightarrow> rsd_idr_recovery \<Rightarrow> bool" where
  "rsd_idr_recovery_request_due now_us st \<longleftrightarrow>
     \<not> has_event st \<or> now_us - last_event_us st > RSD_IDR_RECOVERY_MIN_INTERVAL_US"

text \<open>\<open>True\<close> when the ring's keyframe request flag is raised.\<close>

definition rsd_maybe_request_idr :: "int \<Rightarrow> rsd_idr_recovery \<Rightarrow> bool \<times> rsd_idr_recovery" where
  "rsd_maybe_request_idr now_us st =
     (if rsd_idr_recovery_request_due now_us st then (True, rsd_idr_recovery_note now_us st)
      else (False, st))"

subsection \<open>The NAL unit loop\<close>

text \<open>
  \<^verbatim>\<open>rsd_cache_params\<close> and \<^verbatim>\<open>rsd_send_video_interleaved\<close> walk a frame with the same loop; its
  body is the argument. \<open>min_len\<close> is the length below which a unit is skipped.
\<close>

function nalu_end_from :: "byte list \<Rightarrow> nat \<Rightarrow> nat" where
  "nalu_end_from d q =
     (if q + 3 < length d then if is_sc4 d q then q else nalu_end_from d (q + 1)
      else length d)"
  by pat_completeness auto
termination
  by (relation "measure (\<lambda>(d, q). length d - q)") auto

declare nalu_end_from.simps [simp del]

lemma nalu_end_from_bounds: "q \<le> length d \<Longrightarrow> q \<le> nalu_end_from d q \<and> nalu_end_from d q \<le> length d"
proof (induction d q rule: nalu_end_from.induct)
  case (1 d q)
  then show ?case by (subst (1 2) nalu_end_from.simps) (auto dest: Suc_leD)
qed

function nalu_loop :: "nat \<Rightarrow> (byte list \<Rightarrow> 's \<Rightarrow> 's) \<Rightarrow> byte list \<Rightarrow> nat \<Rightarrow> 's \<Rightarrow> 's" where
  "nalu_loop min_len body d p s =
     (if p + 4 < length d then
        if \<not> is_sc4 d p then nalu_loop min_len body d (p + 1) s
        else
          let nalu_start = p + 4;
              nalu_end = nalu_end_from d (nalu_start + 1);
              nalu = take (nalu_end - nalu_start) (drop nalu_start d)
          in if nalu_end - nalu_start < min_len then nalu_loop min_len body d nalu_end s
             else nalu_loop min_len body d nalu_end (body nalu s)
      else s)"
  by pat_completeness auto
termination
proof (relation "measure (\<lambda>(m, b, d, p, s). length d - p)", goal_cases)
  case (3 m b d p s x xa xb)
  then show ?case using nalu_end_from_bounds [of "p + 5" d] by (auto simp: numeral_eq_Suc)
next
  case (4 m b d p s x xa xb)
  then show ?case using nalu_end_from_bounds [of "p + 5" d] by (auto simp: numeral_eq_Suc)
qed auto

declare nalu_loop.simps [simp del]

subsection \<open>Parameter sets\<close>

record rsd_ring_ctx =
  last_codec :: u32
  ctx_vps :: "byte list"
  ctx_sps :: "byte list"
  ctx_pps :: "byte list"

text \<open>A cached set is a list no longer than its buffer; its length field is the list's length.\<close>

definition cache_nalu :: "bool \<Rightarrow> byte list \<Rightarrow> rsd_ring_ctx \<Rightarrow> rsd_ring_ctx" where
  "cache_nalu is_h265 nalu ctx =
     (if is_h265 then
        let nal_type = drop_bit 1 (nalu ! 0) AND 0x3F in
        if nal_type = 32 \<and> length nalu \<le> 128 then ctx\<lparr>ctx_vps := nalu\<rparr>
        else if nal_type = 33 \<and> length nalu \<le> 256 then ctx\<lparr>ctx_sps := nalu\<rparr>
        else if nal_type = 34 \<and> length nalu \<le> 64 then ctx\<lparr>ctx_pps := nalu\<rparr>
        else ctx
      else
        let nal_type = nalu ! 0 AND 0x1F in
        if nal_type = 7 \<and> length nalu \<le> 256 then ctx\<lparr>ctx_sps := nalu\<rparr>
        else if nal_type = 8 \<and> length nalu \<le> 64 then ctx\<lparr>ctx_pps := nalu\<rparr>
        else ctx)"

definition rsd_cache_params :: "byte list \<Rightarrow> rsd_ring_ctx \<Rightarrow> rsd_ring_ctx" where
  "rsd_cache_params d ctx = nalu_loop 2 (cache_nalu (last_codec ctx = 1)) d 0 ctx"

subsection \<open>Sending a frame\<close>

datatype tx_event =
    TxNal bool "byte list" "byte list" u32
  | TxAudio rsd_sendq_entry
  | TxClockRef u32 int

text \<open>A unit is handed to the transport as header and payload; every tenth drains one audio entry.\<close>

definition send_nalu :: "bool \<Rightarrow> u32 \<Rightarrow> byte list \<Rightarrow> nat \<times> tx_event list \<times> rsd_sendq \<Rightarrow>
    nat \<times> tx_event list \<times> rsd_sendq" where
  "send_nalu is_h265 ts nalu s =
     (let (nalu_count, out, q) = s;
          hdr_size = (if is_h265 then 2 else 1);
          out1 = out @ [TxNal is_h265 (take hdr_size nalu) (drop hdr_size nalu) ts];
          nalu_count1 = nalu_count + 1
      in if nalu_count1 mod 10 = 0 then
           (case sendq_drain_audio q of
              None \<Rightarrow> (nalu_count1, out1, q)
            | Some (a, q1) \<Rightarrow> (nalu_count1, out1 @ [TxAudio a], q1))
         else (nalu_count1, out1, q))"

definition rsd_send_video_interleaved ::
  "bool \<Rightarrow> bool \<Rightarrow> byte list \<Rightarrow> u32 \<Rightarrow> int \<Rightarrow> rsd_sendq \<Rightarrow> tx_event list \<times> rsd_sendq" where
  "rsd_send_video_interleaved can_send is_h265 d ts cap q =
     (if \<not> can_send then ([], q)
      else
        let (_, out, q1) = nalu_loop (if is_h265 then 2 else 1) (send_nalu is_h265 ts) d 0 (0, [], q)
        in (out @ [TxClockRef ts cap], q1))"

subsection \<open>Offering a frame to a client\<close>

record rsd_client =
  cl_stream_idx :: nat
  cl_playing :: bool
  cl_jpeg :: bool
  waiting_keyframe :: bool
  video_ts_offset :: u32
  video_ts_rand :: u32
  video_ts_base_set :: bool
  last_video_client_ts :: u32
  has_last_video_client_ts :: bool
  cl_sendq :: rsd_sendq

record ring_frame =
  fr_data :: "byte list"
  fr_is_key :: bool
  fr_timestamp :: u64
  fr_capture :: int
  fr_sei :: "byte list"

text \<open>The client's own RTP time: rebased on the first frame sent, then strictly advancing.\<close>

definition client_video_ts :: "u32 \<Rightarrow> u32 \<Rightarrow> rsd_client \<Rightarrow> u32 \<times> rsd_client" where
  "client_video_ts rts frame_dur c =
     (let c1 = (if \<not> video_ts_base_set c
                then c\<lparr>video_ts_offset := rts, video_ts_base_set := True\<rparr> else c);
          ts = rts - video_ts_offset c1 + video_ts_rand c1;
          ts1 = (if has_last_video_client_ts c1 \<and> sint (ts - last_video_client_ts c1) \<le> 0
                 then last_video_client_ts c1 + frame_dur else ts)
      in (ts1, c1\<lparr>last_video_client_ts := ts1, has_last_video_client_ts := True\<rparr>))"

text \<open>The result of the push, or \<open>None\<close> when the client is skipped.\<close>

definition deliver_video ::
  "bool \<Rightarrow> nat \<Rightarrow> u32 \<Rightarrow> u32 \<Rightarrow> bool \<Rightarrow> ring_frame \<Rightarrow> rsd_client \<Rightarrow> sendq_result option \<times> rsd_client" where
  "deliver_video malloc_ok stream_idx rts frame_dur is_h265 fr c =
     (if \<not> cl_playing c then (None, c)
      else if cl_stream_idx c \<noteq> stream_idx then (None, c)
      else if waiting_keyframe c \<and> \<not> fr_is_key fr then (None, c)
      else
        let c0 = (if waiting_keyframe c then c\<lparr>waiting_keyframe := False\<rparr> else c);
            (client_ts, c1) = client_video_ts rts frame_dur c0;
            (qret, q) = rsd_sendq_push_video malloc_ok (fr_data fr) client_ts (fr_capture fr)
                          (fr_sei fr) is_h265 (cl_sendq c1);
            c2 = c1\<lparr>cl_sendq := q\<rparr>
        in (Some qret, if qret = RSD_SENDQ_DROPPED then c2\<lparr>waiting_keyframe := \<not> cl_jpeg c2\<rparr> else c2))"

subsection \<open>One frame of the reader\<close>

record video_reader =
  video_ts_epoch :: u64
  last_rtp_ts :: u32
  has_last_rtp_ts :: bool
  idr_recovery :: rsd_idr_recovery
  total_read :: u64
  total_pushed :: u64

text \<open>\<open>None\<close> is the division by zero of a declared rate below one frame per second.\<close>

definition frame_dur_of :: "u32 \<Rightarrow> u32 \<Rightarrow> u32 option" where
  "frame_dur_of fps_num fps_den =
     (let fps = (if fps_num > 0 \<and> fps_den > 0 then fps_num div fps_den else 30)
      in if fps = 0 then None else Some (90000 div fps))"

definition video_rtp_ts :: "u32 \<Rightarrow> u64 \<Rightarrow> video_reader \<Rightarrow> u32 \<times> video_reader" where
  "video_rtp_ts frame_dur tstamp r =
     (let r1 = (if video_ts_epoch r = 0 then r\<lparr>video_ts_epoch := tstamp\<rparr> else r);
          ts = ucast ((tstamp - video_ts_epoch r1) * 90000 div 1000000);
          ts1 = (if has_last_rtp_ts r1 \<and> sint (ts - last_rtp_ts r1) \<le> 0
                 then last_rtp_ts r1 + frame_dur else ts)
      in (ts1, r1\<lparr>last_rtp_ts := ts1, has_last_rtp_ts := True\<rparr>))"

text \<open>
  The loop over the clients of the server, under its lock. \<open>now\<close> is the clock the limiter reads
  and \<open>mok\<close> whether the copy for client \<open>i\<close> can be allocated; the first component says whether a
  keyframe was requested from the encoder.
\<close>

fun offer_clients ::
  "(nat \<Rightarrow> int) \<Rightarrow> (nat \<Rightarrow> bool) \<Rightarrow> nat \<Rightarrow> u32 \<Rightarrow> u32 \<Rightarrow> bool \<Rightarrow> ring_frame \<Rightarrow> nat \<Rightarrow>
   rsd_client option list \<Rightarrow> video_reader \<Rightarrow> bool \<times> rsd_client option list \<times> video_reader" where
  "offer_clients now mok stream_idx rts dur h fr i [] r = (False, [], r)"
| "offer_clients now mok stream_idx rts dur h fr i (None # cs) r =
     (let (req, cs1, r1) = offer_clients now mok stream_idx rts dur h fr (i + 1) cs r
      in (req, None # cs1, r1))"
| "offer_clients now mok stream_idx rts dur h fr i (Some c # cs) r =
     (let (qret, c1) = deliver_video (mok i) stream_idx rts dur h fr c;
          (req1, r1) =
            (case qret of
               Some RSD_SENDQ_OK \<Rightarrow> (False, r\<lparr>total_pushed := total_pushed r + 1\<rparr>)
             | Some RSD_SENDQ_DROPPED \<Rightarrow>
                 (let (req, st) = rsd_maybe_request_idr (now i) (idr_recovery r)
                  in (req, r\<lparr>idr_recovery := st\<rparr>))
             | _ \<Rightarrow> (False, r));
          (req2, cs1, r2) = offer_clients now mok stream_idx rts dur h fr (i + 1) cs r1
      in (req1 \<or> req2, Some c1 # cs1, r2))"

definition rsd_video_frame ::
  "int \<Rightarrow> (nat \<Rightarrow> int) \<Rightarrow> (nat \<Rightarrow> bool) \<Rightarrow> nat \<Rightarrow> u32 \<Rightarrow> ring_frame \<Rightarrow> rsd_ring_ctx \<Rightarrow>
   rsd_client option list \<Rightarrow> video_reader \<Rightarrow> bool \<times> rsd_ring_ctx \<times> rsd_client option list \<times> video_reader" where
  "rsd_video_frame read_now now mok stream_idx dur fr ctx cs r =
     (let (rts, r1) = video_rtp_ts dur (fr_timestamp fr) (r\<lparr>total_read := total_read r + 1\<rparr>);
          r2 = (if fr_is_key fr
                then r1\<lparr>idr_recovery := rsd_idr_recovery_note read_now (idr_recovery r1)\<rparr> else r1);
          ctx1 = (if fr_is_key fr \<and> last_codec ctx \<noteq> 2 \<and> last_codec ctx \<noteq> 3 \<and> ctx_sps ctx = []
                  then rsd_cache_params (fr_data fr) ctx else ctx);
          (req, cs1, r3) = offer_clients now mok stream_idx rts dur (last_codec ctx1 = 1) fr 0 cs r2
      in (req, ctx1, cs1, r3))"

text \<open>A ring that was lost and reopened with the same stream makes its clients resynchronise.\<close>

definition ring_reconnected :: "nat \<Rightarrow> rsd_client \<Rightarrow> rsd_client" where
  "ring_reconnected stream_idx c =
     (if cl_stream_idx c = stream_idx \<and> cl_playing c
      then c\<lparr>waiting_keyframe := True, video_ts_base_set := False\<rparr> else c)"

text \<open>The deferred PLAY of \<^verbatim>\<open>rsd_session.c\<close>.\<close>

definition apply_play :: "rsd_client \<Rightarrow> rsd_client" where
  "apply_play c = c\<lparr>waiting_keyframe := \<not> cl_jpeg c, video_ts_base_set := False, cl_playing := True\<rparr>"

subsection \<open>Lemmas: the NAL unit loop on a well-formed frame\<close>

lemma nalu_end_skip: "\<not> is_sc4 d q \<Longrightarrow> q < length d \<Longrightarrow> nalu_end_from d q = nalu_end_from d (q + 1)"
  by (cases "q + 3 < length d") (simp_all add: nalu_end_from.simps [of d q] nalu_end_from.simps [of d "Suc q"])

lemma nalu_end_nal:
  assumes "nal_wf n" and "d = pre @ n @ annexb4 ns" and "k < length n"
  shows "nalu_end_from d (length pre + (length n - k)) = length pre + length n"
  using assms(3)
proof (induction k)
  case 0
  show ?case
    using assms(2) by (cases ns) (simp_all add: nalu_end_from.simps is_sc4_def nth_append)
next
  case (Suc k)
  let ?q = "length pre + (length n - Suc k)"
  have k: "length n - Suc k < length n" using Suc.prems by linarith
  have "\<not> is_sc4 d ?q"
    using nal_wf_inside_at [OF assms(1) k, of pre "annexb4 ns"] assms(2) by (auto simp: is_sc4_def)
  moreover have "?q < length d" "?q + 1 = length pre + (length n - k)" using k assms(2) Suc.prems by auto
  ultimately show ?case using Suc nalu_end_skip [of d ?q] by simp
qed

lemma nalu_loop_annexb4:
  assumes "list_all nal_wf nals"
  shows "nalu_loop m body (pre @ annexb4 nals) (length pre) s =
    fold body (filter (\<lambda>n. m \<le> length n) nals) s"
  using assms
proof (induction nals arbitrary: pre s)
  case Nil
  then show ?case by (simp add: nalu_loop.simps)
next
  case (Cons n ns)
  let ?d = "pre @ annexb4 (n # ns)" and ?pre = "pre @ [0, 0, 0, 1]"
  have wf: "nal_wf n" "list_all nal_wf ns" using Cons.prems by simp_all
  then have pos: "0 < length n" by auto
  have sc: "is_sc4 ?d (length pre)" "length pre + 4 < length ?d"
    using pos by (simp_all add: is_sc4_def nth_append)
  have "nalu_end_from ?d (length pre + 4 + 1) = length pre + 4 + length n"
    using nalu_end_nal [OF wf(1), of ?d ?pre ns "length n - 1"] pos by (simp add: numeral_eq_Suc)
  moreover have "take (length n) (drop (length pre + 4) ?d) = n"
    by (simp add: numeral_eq_Suc)
  ultimately have step: "nalu_loop m body ?d (length pre) s =
      nalu_loop m body ?d (length pre + 4 + length n) (if length n < m then s else body n s)"
    using sc by (subst nalu_loop.simps) (simp add: Let_def)
  have "nalu_loop m body ?d (length pre + 4 + length n) s' = fold body (filter (\<lambda>n. m \<le> length n) ns) s'" for s'
    using Cons.IH [OF wf(2), of "?pre @ n" s'] by (simp add: numeral_eq_Suc)
  with step show ?case by simp
qed

subsection \<open>Lemmas: sending with interleaved audio\<close>

abbreviation audio_of :: "rsd_sendq \<Rightarrow> rsd_sendq_entry list" where
  "audio_of q \<equiv> of_kind ftype RSD_FRAME_AUDIO (rsd_items q)"

abbreviation video_of :: "rsd_sendq \<Rightarrow> rsd_sendq_entry list" where
  "video_of q \<equiv> of_kind ftype RSD_FRAME_VIDEO (rsd_items q)"

lemma spec_take_audio_None: "spec_take_audio xs = None \<Longrightarrow> of_kind ftype RSD_FRAME_AUDIO xs = []"
  by (induction xs) (auto split: if_splits)

lemma drain_audio_kinds:
  assumes "rsd_inv q"
  shows "sendq_drain_audio q = None \<Longrightarrow> audio_of q = []"
    and "sendq_drain_audio q = Some (a, q1) \<Longrightarrow>
      rsd_inv q1 \<and> audio_of q = a # audio_of q1 \<and> video_of q1 = video_of q \<and> ftype a = RSD_FRAME_AUDIO \<and>
      shutdown q1 = shutdown q"
  using take_audio_items [OF assms] take_audio_refines [OF assms]
    spec_take_audio_None [of "rsd_items q"] spec_take_audio_order [of "rsd_items q"]
  by (auto simp: sendq_drain_audio_def spec_drain_def rsd_view_def)

fun is_nal_event :: "tx_event \<Rightarrow> bool" where
  "is_nal_event (TxNal _ _ _ _) = True"
| "is_nal_event _ = False"

fun audio_event :: "tx_event \<Rightarrow> rsd_sendq_entry list" where
  "audio_event (TxAudio a) = [a]"
| "audio_event _ = []"

definition send_state_ok ::
  "bool \<Rightarrow> u32 \<Rightarrow> rsd_sendq \<Rightarrow> byte list list \<Rightarrow> nat \<times> tx_event list \<times> rsd_sendq \<Rightarrow> bool" where
  "send_state_ok h ts q0 ns s = (case s of (n, out, q) \<Rightarrow>
     n = length ns \<and> rsd_inv q \<and>
     filter is_nal_event out = map (\<lambda>n. TxNal h (take (if h then 2 else 1) n) (drop (if h then 2 else 1) n) ts) ns \<and>
     concat (map audio_event out) = take (n div 10) (audio_of q0) \<and>
     audio_of q = drop (n div 10) (audio_of q0) \<and> video_of q = video_of q0)"

lemma send_nalu_ok:
  assumes "send_state_ok h ts q0 ns s"
  shows "send_state_ok h ts q0 (ns @ [n]) (send_nalu h ts n s)"
proof -
  obtain k out q where s: "s = (k, out, q)" by (cases s) auto
  note ok = assms [unfolded s send_state_ok_def prod.case]
  show ?thesis
  proof (cases "Suc k mod 10 = 0")
    case False
    then have "Suc k div 10 = k div 10" by (simp add: div_Suc)
    with False ok show ?thesis by (simp add: s send_nalu_def send_state_ok_def)
  next
    case True
    then have div: "Suc k div 10 = Suc (k div 10)" by (simp add: div_Suc)
    show ?thesis
    proof (cases "sendq_drain_audio q")
      case None
      with drain_audio_kinds(1) [of q] ok have "length (audio_of q0) \<le> k div 10" by simp
      with None True div ok show ?thesis by (simp add: s send_nalu_def send_state_ok_def)
    next
      case (Some r)
      obtain a q1 where r: "r = (a, q1)" by force
      have k: "rsd_inv q1" "audio_of q = a # audio_of q1" "video_of q1 = video_of q"
        using drain_audio_kinds(2) [of q a q1] Some r ok by simp_all
      have hd: "drop (k div 10) (audio_of q0) = a # audio_of q1"
        using k(2) ok by simp
      then have "take (Suc (k div 10)) (audio_of q0) = take (k div 10) (audio_of q0) @ [a]"
        "drop (Suc (k div 10)) (audio_of q0) = audio_of q1"
        using take_add [of "k div 10" 1 "audio_of q0"] tl_drop [of "k div 10" "audio_of q0"]
        by (simp_all add: drop_Suc)
      moreover have "send_nalu h ts n s = (Suc k,
          out @ [TxNal h (take (if h then 2 else 1) n) (drop (if h then 2 else 1) n) ts, TxAudio a], q1)"
        using True Some r by (simp add: s send_nalu_def)
      ultimately show ?thesis using div ok k(1,3) by (simp add: send_state_ok_def)
    qed
  qed
qed

lemma fold_send_nalu_ok:
  "send_state_ok h ts q0 ms s \<Longrightarrow> send_state_ok h ts q0 (ms @ ns) (fold (send_nalu h ts) ns s)"
proof (induction ns arbitrary: ms s)
  case (Cons n ns)
  from Cons.IH [OF send_nalu_ok [OF Cons.prems]] show ?case by simp
qed simp

subsection \<open>Lemmas: decodable delivery\<close>

text \<open>A frame as the queue carries it: its bytes and its capture instant.\<close>

type_synonym vframe = "byte list \<times> int"

datatype cl_op =
    Offer bool u32 u32 bool ring_frame
  | OfferAudio bool u32 "byte list" u32 int
  | ClPop
  | ClDrain
  | ClPlay
  | ClPause
  | ClReconnect
  | ClClose

definition vid :: "rsd_sendq_entry \<Rightarrow> vframe" where
  "vid e = (case data e of Some d \<Rightarrow> (d, capture_us e) | None \<Rightarrow> ([], capture_us e))"

definition vids :: "rsd_sendq_entry list \<Rightarrow> vframe list" where
  "vids es = map vid (of_kind ftype RSD_FRAME_VIDEO es)"

definition queued_form :: "bool \<Rightarrow> ring_frame \<Rightarrow> bool \<times> vframe" where
  "queued_form h fr = (fr_is_key fr, (splice_sei (fr_data fr) (fr_sei fr) h, fr_capture fr))"

text \<open>One critical section around a client, and the video frames its send thread took.\<close>

fun cl_exec :: "cl_op \<Rightarrow> rsd_client \<Rightarrow> rsd_client \<times> vframe list" where
  "cl_exec (Offer m rts dur h fr) c = (snd (deliver_video m (cl_stream_idx c) rts dur h fr c), [])"
| "cl_exec (OfferAudio m cdc d ts cap) c =
     (c\<lparr>cl_sendq := snd (rsd_sendq_push_audio m cdc d ts cap (cl_sendq c))\<rparr>, [])"
| "cl_exec ClPop c =
     (case send_thread_pop (cl_sendq c) of
        None \<Rightarrow> (c, []) | Some (e, q) \<Rightarrow> (c\<lparr>cl_sendq := q\<rparr>, vids [e]))"
| "cl_exec ClDrain c =
     (case sendq_drain_audio (cl_sendq c) of
        None \<Rightarrow> (c, []) | Some (e, q) \<Rightarrow> (c\<lparr>cl_sendq := q\<rparr>, vids [e]))"
| "cl_exec ClPlay c = (apply_play c, [])"
| "cl_exec ClPause c = (c\<lparr>cl_playing := False\<rparr>, [])"
| "cl_exec ClReconnect c = (ring_reconnected (cl_stream_idx c) c, [])"
| "cl_exec ClClose c = (c\<lparr>cl_sendq := sendq_shutdown (cl_sendq c)\<rparr>, [])"

fun cl_offered :: "cl_op \<Rightarrow> (bool \<times> vframe) list" where
  "cl_offered (Offer m rts dur h fr) = [queued_form h fr]"
| "cl_offered _ = []"

fun op_allocates :: "cl_op \<Rightarrow> bool" where
  "op_allocates (Offer m _ _ _ _) = m"
| "op_allocates _ = True"

definition cl_queued :: "rsd_client \<Rightarrow> vframe list" where
  "cl_queued c = vids (rsd_items (cl_sendq c))"

definition cl_gate :: "rsd_client \<Rightarrow> bool" where
  "cl_gate c \<longleftrightarrow> cl_playing c \<and> \<not> waiting_keyframe c \<and> \<not> shutdown (cl_sendq c)"

definition cl_inv :: "rsd_client \<Rightarrow> bool" where
  "cl_inv c \<longleftrightarrow> rsd_inv (cl_sendq c) \<and> \<not> cl_jpeg c"

lemma vids_simps [simp]: "vids [] = []" "vids (xs @ ys) = vids xs @ vids ys"
  by (simp_all add: vids_def)

lemma vids_Cons: "vids (e # es) = vids [e] @ vids es"
  by (simp add: vids_def)

lemma vid_video_slot [simp]: "vid (video_slot d ts cap e) = (d, cap)"
  by (simp add: vid_def video_slot_def)

lemma ftype_slots [simp]:
  "ftype (video_slot d ts cap e) = RSD_FRAME_VIDEO" "ftype (audio_slot cdc d ts cap e) = RSD_FRAME_AUDIO"
  by (simp_all add: video_slot_def audio_slot_def)

lemma of_kind_video_filter_audio: "of_kind ftype RSD_FRAME_VIDEO (filter is_audio xs) = []"
  by (induction xs) simp_all

lemma spec_push_shutdown:
  "vw_shutdown (snd (spec_push_video m d ts cap sei h v)) = vw_shutdown v"
  "vw_shutdown (snd (spec_push_audio m cdc d ts cap v)) = vw_shutdown v"
  by (simp_all add: spec_push_video_def spec_push_audio_def Let_def split: option.splits)

lemma spec_push_video_result:
  "fst (spec_push_video m d ts cap sei h v) =
     (if \<not> m \<or> vw_shutdown v then RSD_SENDQ_ERR
      else if length (vw_items v) < 32 then RSD_SENDQ_OK else RSD_SENDQ_DROPPED)"
  by (simp add: spec_push_video_def)

lemma push_video_cases:
  assumes "rsd_inv q" and "rsd_sendq_push_video m d ts cap sei h q = (r, q')"
  shows "rsd_inv q'" and "shutdown q' = shutdown q"
    and "r = (if \<not> m \<or> shutdown q then RSD_SENDQ_ERR else if count q < 32 then RSD_SENDQ_OK
      else RSD_SENDQ_DROPPED)"
    and "vids (rsd_items q') = (if r = RSD_SENDQ_ERR then vids (rsd_items q)
      else if r = RSD_SENDQ_OK then vids (rsd_items q) @ [(splice_sei d sei h, cap)] else [])"
proof -
  have eq: "(r, rsd_view q') = spec_push_video m d ts cap sei h (rsd_view q)" and inv: "rsd_inv q'"
    using push_video_refines [OF assms(1), of m d ts cap sei h] assms(2) by auto
  show "rsd_inv q'" by fact
  show r: "r = (if \<not> m \<or> shutdown q then RSD_SENDQ_ERR
      else if count q < 32 then RSD_SENDQ_OK else RSD_SENDQ_DROPPED)"
    using spec_push_video_result [of m d ts cap sei h "rsd_view q"] unfolding eq [symmetric] by simp
  show "shutdown q' = shutdown q"
    using spec_push_shutdown(1) [of m d ts cap sei h "rsd_view q"] unfolding eq [symmetric] by simp
  show "vids (rsd_items q') = (if r = RSD_SENDQ_ERR then vids (rsd_items q)
      else if r = RSD_SENDQ_OK then vids (rsd_items q) @ [(splice_sei d sei h, cap)] else [])"
    using push_video_items [OF assms(1), of m d ts cap sei h] assms(2) r
    by (simp add: vids_def of_kind_video_filter_audio)
qed

lemma client_video_ts_frame:
  "client_video_ts rts dur c = (ts, c1) \<Longrightarrow>
   cl_sendq c1 = cl_sendq c \<and> cl_playing c1 = cl_playing c \<and> cl_jpeg c1 = cl_jpeg c \<and>
   waiting_keyframe c1 = waiting_keyframe c"
  by (auto simp: client_video_ts_def Let_def split: if_splits)

text \<open>What an offer does to the client, whichever branch it takes.\<close>

lemma deliver_video_cases:
  obtains (skip) "deliver_video m (cl_stream_idx c) rts dur h fr c = (None, c)"
      "\<not> cl_playing c \<or> waiting_keyframe c \<and> \<not> fr_is_key fr"
  | (push) ts r q c' where "deliver_video m (cl_stream_idx c) rts dur h fr c = (Some r, c')"
      "cl_playing c" "waiting_keyframe c \<longrightarrow> fr_is_key fr"
      "rsd_sendq_push_video m (fr_data fr) ts (fr_capture fr) (fr_sei fr) h (cl_sendq c) = (r, q)"
      "cl_sendq c' = q" "cl_playing c'" "cl_jpeg c' = cl_jpeg c"
      "waiting_keyframe c' = (r = RSD_SENDQ_DROPPED \<and> \<not> cl_jpeg c)"
proof (cases "\<not> cl_playing c \<or> waiting_keyframe c \<and> \<not> fr_is_key fr")
  case True
  then show ?thesis by (intro skip) (auto simp: deliver_video_def)
next
  case False
  define c0 where "c0 = (if waiting_keyframe c then c\<lparr>waiting_keyframe := False\<rparr> else c)"
  obtain ts c1 where ts: "client_video_ts rts dur c0 = (ts, c1)" by force
  obtain r q where rq: "rsd_sendq_push_video m (fr_data fr) ts (fr_capture fr) (fr_sei fr) h (cl_sendq c) = (r, q)"
    by force
  note fr = client_video_ts_frame [OF ts]
  have c0: "cl_sendq c0 = cl_sendq c" "cl_playing c0 = cl_playing c" "cl_jpeg c0 = cl_jpeg c"
    "\<not> waiting_keyframe c0"
    by (simp_all add: c0_def)
  let ?c2 = "c1\<lparr>cl_sendq := q\<rparr>"
  let ?c3 = "if r = RSD_SENDQ_DROPPED then ?c2\<lparr>waiting_keyframe := \<not> cl_jpeg ?c2\<rparr> else ?c2"
  have "deliver_video m (cl_stream_idx c) rts dur h fr c = (Some r, ?c3)"
    using False ts rq fr c0 by (simp add: deliver_video_def c0_def [symmetric] Let_def)
  then show ?thesis using False rq fr c0 by (intro push [of r ?c3 ts q]) auto
qed

lemma offer_gate:
  assumes inv: "cl_inv c" and m: "m"
    and c'_def: "c' = snd (deliver_video m (cl_stream_idx c) rts dur h fr c)"
  shows "cl_inv c'"
    and "gate_step keyf (cl_gate c) (cl_queued c) [queued_form h fr] [] (cl_gate c') (cl_queued c')"
proof -
  have "cl_inv c' \<and>
    gate_step keyf (cl_gate c) (cl_queued c) [queued_form h fr] [] (cl_gate c') (cl_queued c')"
  proof (cases rule: deliver_video_cases [where m = m and c = c and rts = rts and dur = dur
        and h = h and fr = fr])
    case skip
    then have "c' = c" "\<not> cl_gate c" by (auto simp: c'_def cl_gate_def)
    then show ?thesis using inv by (auto intro: gate_lose)
  next
    case (push ts r q d)
    note P = push_video_cases [OF conjunct1 [OF inv [unfolded cl_inv_def]] push(4)]
    have c': "c' = d" using push(1) by (simp add: c'_def)
    have inv': "cl_inv c'" using push P inv by (simp add: c' cl_inv_def)
    consider "r = RSD_SENDQ_OK" "\<not> shutdown (cl_sendq c)" | "r \<noteq> RSD_SENDQ_OK" "\<not> cl_gate c'"
      "cl_queued c' = cl_queued c \<or> cl_queued c' = []"
      using push(5-8) P m inv by (cases r) (auto simp: c' cl_gate_def cl_inv_def cl_queued_def split: if_splits)
    then show ?thesis
    proof cases
      case 1
      with push(2,3,5) P(4) have "cl_queued c' = cl_queued c @ [snd (queued_form h fr)]"
        "fst (queued_form h fr) \<or> cl_gate c"
        by (auto simp: c' cl_queued_def queued_form_def cl_gate_def)
      then show ?thesis using inv' by (auto intro: gate_accept)
    next
      case 2
      then show ?thesis using inv' by (auto intro: gate_lose)
    qed
  qed
  then show "cl_inv c'"
    "gate_step keyf (cl_gate c) (cl_queued c) [queued_form h fr] [] (cl_gate c') (cl_queued c')" by simp_all
qed

lemma push_audio_vids:
  assumes "rsd_inv q"
  shows "vids (rsd_items (snd (rsd_sendq_push_audio m cdc d ts cap q))) = vids (rsd_items q)"
    and "shutdown (snd (rsd_sendq_push_audio m cdc d ts cap q)) = shutdown q"
proof -
  show "vids (rsd_items (snd (rsd_sendq_push_audio m cdc d ts cap q))) = vids (rsd_items q)"
    using push_audio_items [OF assms, of m cdc d ts cap] spec_take_audio_order [of "rsd_items q"]
    by (simp add: vids_def split: option.splits prod.splits)
  have "rsd_view (snd (rsd_sendq_push_audio m cdc d ts cap q)) =
      snd (spec_push_audio m cdc d ts cap (rsd_view q))"
    using push_audio_refines [OF assms, of m cdc d ts cap] by (metis snd_apsnd)
  then show "shutdown (snd (rsd_sendq_push_audio m cdc d ts cap q)) = shutdown q"
    using spec_push_shutdown(2) [of m cdc d ts cap "rsd_view q"] by (metis rsd_view_simps(2))
qed

lemma pop_vids:
  assumes "rsd_inv q" and "send_thread_pop q = Some (e, q')"
  shows "rsd_inv q' \<and> vids [e] @ vids (rsd_items q') = vids (rsd_items q) \<and> shutdown q' = shutdown q"
proof -
  have "Some (e, rsd_view q') = spec_pop (rsd_view q)" "rsd_inv q'"
    using send_thread_pop_refines [OF assms(1)] assms(2) by auto
  then have "rsd_items q = e # rsd_items q'" "shutdown q' = shutdown q"
    by (auto simp: spec_pop_def rsd_view_def split: if_splits list.splits)
  with \<open>rsd_inv q'\<close> show ?thesis using vids_Cons [of e "rsd_items q'"] by simp
qed

lemma drain_vids:
  assumes "rsd_inv q" and "sendq_drain_audio q = Some (e, q')"
  shows "rsd_inv q' \<and> vids [e] @ vids (rsd_items q') = vids (rsd_items q) \<and> shutdown q' = shutdown q"
  using drain_audio_kinds(2) [OF assms] by (simp add: vids_def)

lemma cl_gate_law:
  assumes inv: "cl_inv c" and p: "op_allocates p"
  shows "cl_inv (fst (cl_exec p c)) \<and>
    gate_step keyf (cl_gate c) (cl_queued c) (cl_offered p) (snd (cl_exec p c))
      (cl_gate (fst (cl_exec p c))) (cl_queued (fst (cl_exec p c)))"
proof -
  have q: "rsd_inv (cl_sendq c)" using inv by (simp add: cl_inv_def)
  note defs = cl_inv_def cl_gate_def cl_queued_def
  show ?thesis
  proof (cases p)
    case (Offer m rts dur h fr)
    with offer_gate [OF inv _ refl] p show ?thesis by simp
  next
    case (OfferAudio m cdc d ts cap)
    with inv push_audio_refines [OF q] push_audio_vids [OF q] show ?thesis
      by (auto simp: defs intro!: gate_idle)
  next
    case ClPop
    with inv pop_vids [OF q] show ?thesis
      by (cases "send_thread_pop (cl_sendq c)") (auto simp: defs intro!: gate_idle)
  next
    case ClDrain
    with inv drain_vids [OF q] show ?thesis
      by (cases "sendq_drain_audio (cl_sendq c)") (auto simp: defs intro!: gate_idle)
  qed (use inv in \<open>auto simp: defs apply_play_def ring_reconnected_def sendq_shutdown_def intro!: gate_idle\<close>)
qed

interpretation rsdc: keyframe_gate cl_exec cl_offered cl_queued "\<lambda>_. False" cl_gate cl_inv op_allocates
  by unfold_locales (simp_all add: cl_gate_law)

subsection \<open>Lemmas: the limiter\<close>

datatype idr_event = KeySeen int | Loss int

text \<open>A run of the limiter: the noted events, each a request (\<open>True\<close>) or a produced keyframe.\<close>

fun idr_step :: "idr_event \<Rightarrow> rsd_idr_recovery \<times> (bool \<times> int) list \<Rightarrow> rsd_idr_recovery \<times> (bool \<times> int) list" where
  "idr_step (KeySeen t) (st, log) = (rsd_idr_recovery_note t st, log @ [(False, t)])"
| "idr_step (Loss t) (st, log) =
     (let (req, st1) = rsd_maybe_request_idr t st in (st1, if req then log @ [(True, t)] else log))"

definition spaced :: "(bool \<times> int) list \<Rightarrow> bool" where
  "spaced log = sorted_wrt (\<lambda>(_, t) (req, u). if req then u - t > 1000000 else True) log"

definition limiter_inv :: "rsd_idr_recovery \<times> (bool \<times> int) list \<Rightarrow> bool" where
  "limiter_inv s = (case s of (st, log) \<Rightarrow> spaced log \<and> (log \<noteq> [] \<longrightarrow> has_event st) \<and>
     list_all (\<lambda>(_, t). t \<le> last_event_us st) log)"

lemma idr_step_inv: "limiter_inv s \<Longrightarrow> limiter_inv (idr_step e s)"
proof (cases s)
  case (Pair st log)
  assume "limiter_inv s"
  with Pair show ?thesis
    by (cases e) (force simp: limiter_inv_def spaced_def sorted_wrt_append rsd_idr_recovery_note_def
        rsd_maybe_request_idr_def rsd_idr_recovery_request_due_def RSD_IDR_RECOVERY_MIN_INTERVAL_US_def
        Let_def list_all_iff)+
qed

lemma idr_run_inv: "limiter_inv s \<Longrightarrow> limiter_inv (fold idr_step es s)"
  by (induction es arbitrary: s) (simp_all add: idr_step_inv)

subsection \<open>Properties\<close>

definition accepted_client :: "nat \<Rightarrow> u32 \<Rightarrow> rsd_client" where
  "accepted_client idx rnd = \<lparr>cl_stream_idx = idx, cl_playing = False, cl_jpeg = False,
     waiting_keyframe = True, video_ts_offset = 0, video_ts_rand = rnd, video_ts_base_set = False,
     last_video_client_ts = 0, has_last_video_client_ts = False, cl_sendq = rsd_sendq_init\<rparr>"


definition demo_frame :: "bool \<Rightarrow> byte \<Rightarrow> ring_frame" where
  "demo_frame key b = \<lparr>fr_data = [0, 0, 0, 1, b], fr_is_key = key, fr_timestamp = 1, fr_capture = 7,
     fr_sei = []\<rparr>"

definition demo_ops :: "cl_op list" where
  "demo_ops = [ClPlay, Offer True 0 3000 False (demo_frame False 0x41),
     Offer True 3000 3000 False (demo_frame True 0x65), ClPop]"




text \<open>
  C16. Overflow recovery cannot storm the encoder: in every run of the limiter a keyframe request
  comes more than a second after every earlier request and every keyframe seen.
\<close>

theorem rsd_idr_requests_spaced:
  "spaced (snd (fold idr_step es (rsd_idr_recovery_init, [])))"
proof -
  have "limiter_inv (rsd_idr_recovery_init, [])" by (simp add: limiter_inv_def spaced_def)
  from idr_run_inv [OF this, of es] show ?thesis by (simp add: limiter_inv_def split: prod.splits)
qed

end
