(* ===== verification/Rwd_Sendq.thy ===== *)
theory Rwd_Sendq
  imports Gop_Stream
begin

text \<open>
  The per-client video queue of the WebRTC daemon, \<^verbatim>\<open>rwd/rwd_sendq.c\<close>, with the part of the video
  reader that offers a frame to a client and the send thread's use of the queue
  (\<^verbatim>\<open>rwd/rwd_media.c\<close>). Unlike the RTSP queue it carries the keyframe flag, is purged whole on
  overflow, and refuses inter frames by itself after a failed send.

  The queue interprets \<open>lossy_queue\<close> and the client interprets \<open>keyframe_gate\<close>; here no
  allocation has to succeed for the delivered stream to be decodable.
\<close>

subsection \<open>State\<close>

record rwd_sendq_entry =
  data :: "byte list option"
  len :: u32
  rtp_ts :: u32
  capture_us :: int
  enqueue_us :: int
  is_key :: bool

record rwd_sendq =
  entries :: "rwd_sendq_entry list"
  head :: nat
  tail :: nat
  count :: nat
  shutdown :: bool
  needs_keyframe :: bool
  drops :: u64
  max_depth :: nat
  enqueued :: u64
  dequeued :: u64
  sent :: u64
  send_failures :: u64
  bytes_sent :: u64
  last_frame_bytes :: u32
  max_frame_bytes :: u32
  last_queue_us :: int
  max_queue_us :: int
  last_send_us :: int
  max_send_us :: int
  last_capture_to_send_us :: int
  max_capture_to_send_us :: int

definition RWD_SENDQ_SLOTS :: nat where
  "RWD_SENDQ_SLOTS = 32"

definition rwd_sendq_init :: rwd_sendq where
  "rwd_sendq_init =
     \<lparr>entries = replicate RWD_SENDQ_SLOTS \<lparr>data = None, len = 0, rtp_ts = 0, capture_us = 0,
        enqueue_us = 0, is_key = False\<rparr>,
      head = 0, tail = 0, count = 0, shutdown = False, needs_keyframe = False, drops = 0,
      max_depth = 0, enqueued = 0, dequeued = 0, sent = 0, send_failures = 0, bytes_sent = 0,
      last_frame_bytes = 0, max_frame_bytes = 0, last_queue_us = 0, max_queue_us = 0,
      last_send_us = 0, max_send_us = 0, last_capture_to_send_us = 0, max_capture_to_send_us = 0\<rparr>"

subsection \<open>Operations\<close>

definition clear_tail :: "rwd_sendq \<Rightarrow> rwd_sendq" where
  "clear_tail q = q\<lparr>entries := (entries q)[tail q := (entries q ! tail q)\<lparr>data := None\<rparr>],
     tail := (tail q + 1) mod RWD_SENDQ_SLOTS, count := count q - 1\<rparr>"

function purge_locked :: "rwd_sendq \<Rightarrow> rwd_sendq" where
  "purge_locked q =
     (if count q > 0 then purge_locked ((clear_tail q)\<lparr>drops := drops q + 1\<rparr>) else q)"
  by pat_completeness auto
termination
  by (relation "measure count") (auto simp: clear_tail_def)

declare purge_locked.simps [simp del]

definition rwd_sendq_fail :: "rwd_sendq \<Rightarrow> rwd_sendq" where
  "rwd_sendq_fail q =
     (if \<not> shutdown q then
        let q1 = (purge_locked q)\<lparr>needs_keyframe := True\<rparr> in q1\<lparr>drops := drops q1 + 1\<rparr>
      else q)"

definition rwd_sendq_push ::
  "bool \<Rightarrow> byte list \<Rightarrow> u32 \<Rightarrow> int \<Rightarrow> int \<Rightarrow> bool \<Rightarrow> rwd_sendq \<Rightarrow> int \<times> rwd_sendq" where
  "rwd_sendq_push malloc_ok d ts cap enq key q =
     (if \<not> malloc_ok then (- 1, rwd_sendq_fail q)
      else if shutdown q then (- 1, q)
      else if needs_keyframe q \<and> \<not> key then (1, q)
      else
        let q0 = (if needs_keyframe q then q\<lparr>needs_keyframe := False\<rparr> else q) in
        if count q0 \<ge> RWD_SENDQ_SLOTS then
          let q1 = (purge_locked q0)\<lparr>needs_keyframe := True\<rparr> in (1, q1\<lparr>drops := drops q1 + 1\<rparr>)
        else
          let q1 = q0\<lparr>entries := (entries q0)[head q0 := \<lparr>data = Some d, len = of_nat (length d),
                        rtp_ts = ts, capture_us = cap, enqueue_us = enq, is_key = key\<rparr>],
                      head := (head q0 + 1) mod RWD_SENDQ_SLOTS,
                      count := count q0 + 1,
                      enqueued := enqueued q0 + 1\<rparr>
          in (0, if count q1 > max_depth q1 then q1\<lparr>max_depth := count q1\<rparr> else q1))"

text \<open>\<open>None\<close> while the popper has to wait or has to exit.\<close>

definition rwd_sendq_pop :: "rwd_sendq \<Rightarrow> (rwd_sendq_entry \<times> rwd_sendq) option" where
  "rwd_sendq_pop q =
     (if shutdown q \<or> count q = 0 then None
      else Some (entries q ! tail q, (clear_tail q)\<lparr>dequeued := dequeued q + 1\<rparr>))"

definition rwd_sendq_note_send ::
  "rwd_sendq_entry \<Rightarrow> int \<Rightarrow> int \<Rightarrow> bool \<Rightarrow> rwd_sendq \<Rightarrow> rwd_sendq" where
  "rwd_sendq_note_send e send_start_us send_end_us success q =
     (let queue_us = (if send_start_us > enqueue_us e then send_start_us - enqueue_us e else 0);
          send_us = (if send_end_us > send_start_us then send_end_us - send_start_us else 0);
          capture_to_send_us = (if send_end_us > capture_us e then send_end_us - capture_us e else 0);
          q1 = (if success then q\<lparr>sent := sent q + 1, bytes_sent := bytes_sent q + ucast (len e)\<rparr>
                else q\<lparr>send_failures := send_failures q + 1\<rparr>)
      in q1\<lparr>last_frame_bytes := len e,
            max_frame_bytes := (if len e > max_frame_bytes q1 then len e else max_frame_bytes q1),
            last_queue_us := queue_us,
            max_queue_us := (if queue_us > max_queue_us q1 then queue_us else max_queue_us q1),
            last_send_us := send_us,
            max_send_us := (if send_us > max_send_us q1 then send_us else max_send_us q1),
            last_capture_to_send_us := capture_to_send_us,
            max_capture_to_send_us := (if capture_to_send_us > max_capture_to_send_us q1
                                       then capture_to_send_us else max_capture_to_send_us q1)\<rparr>)"

definition rwd_sendq_shutdown :: "rwd_sendq \<Rightarrow> rwd_sendq" where
  "rwd_sendq_shutdown q = q\<lparr>shutdown := True\<rparr>"

definition rwd_sendq_destroy :: "rwd_sendq \<Rightarrow> rwd_sendq" where
  "rwd_sendq_destroy q = purge_locked q"

subsection \<open>The client\<close>

record rwd_client =
  sending :: bool
  send_thread_started :: bool
  waiting_keyframe :: bool
  video_ts_offset :: u32
  video_ts_base_set :: bool
  sendq :: rwd_sendq

text \<open>Passing the gate: the first keyframe sets the base of the client's RTP time.\<close>

definition rwd_open_gate :: "u32 \<Rightarrow> rwd_client \<Rightarrow> rwd_client" where
  "rwd_open_gate rts c =
     (if waiting_keyframe c then
        let initial = (\<not> video_ts_base_set c); c0 = c\<lparr>waiting_keyframe := False\<rparr> in
        if initial then c0\<lparr>video_ts_offset := rts, video_ts_base_set := True\<rparr> else c0
      else c)"

text \<open>A frame offered to a client; the second component says whether a keyframe is requested.\<close>

definition rwd_offer ::
  "bool \<Rightarrow> byte list \<Rightarrow> u32 \<Rightarrow> int \<Rightarrow> int \<Rightarrow> bool \<Rightarrow> rwd_client \<Rightarrow> rwd_client \<times> bool" where
  "rwd_offer malloc_ok d rts cap now key c =
     (if \<not> sending c then (c, False)
      else if waiting_keyframe c \<and> \<not> key then (c, False)
      else
        let c1 = rwd_open_gate rts c;
            client_ts = rts - video_ts_offset c1
        in if \<not> send_thread_started c1 then (c1, False)
           else
             let (ret, q) = rwd_sendq_push malloc_ok d client_ts cap now key (sendq c1);
                 c2 = c1\<lparr>sendq := q\<rparr>
             in if ret \<noteq> 0 then (c2\<lparr>waiting_keyframe := True\<rparr>, True) else (c2, False))"

text \<open>The reader lost frames of the ring: every client of it waits for a keyframe.\<close>

definition rwd_ring_gap :: "rwd_client \<Rightarrow> rwd_client" where
  "rwd_ring_gap c = (if sending c then c\<lparr>waiting_keyframe := True\<rparr> else c)"

text \<open>Media setup and teardown, as far as they concern the queue.\<close>

definition rwd_media_start :: "rwd_client \<Rightarrow> rwd_client" where
  "rwd_media_start c = c\<lparr>sendq := rwd_sendq_init, send_thread_started := True, sending := True,
     waiting_keyframe := True\<rparr>"

definition rwd_media_stop :: "rwd_client \<Rightarrow> rwd_client" where
  "rwd_media_stop c = c\<lparr>sending := False, sendq := rwd_sendq_shutdown (sendq c)\<rparr>"

subsection \<open>Representation\<close>

definition rwd_items :: "rwd_sendq \<Rightarrow> rwd_sendq_entry list" where
  "rwd_items q = ring (entries q) (tail q) (count q)"

definition rwd_inv :: "rwd_sendq \<Rightarrow> bool" where
  "rwd_inv q \<longleftrightarrow> length (entries q) = RWD_SENDQ_SLOTS \<and> tail q < RWD_SENDQ_SLOTS \<and>
     count q \<le> RWD_SENDQ_SLOTS \<and> head q = (tail q + count q) mod RWD_SENDQ_SLOTS \<and>
     count q \<le> max_depth q"

lemmas rwd_defs = rwd_items_def rwd_inv_def RWD_SENDQ_SLOTS_def

lemma length_rwd_items [simp]: "length (rwd_items q) = count q"
  by (simp add: rwd_items_def)

lemma rwd_items_frame [simp]:
  "rwd_items (q\<lparr>needs_keyframe := b\<rparr>) = rwd_items q" "rwd_items (q\<lparr>drops := n\<rparr>) = rwd_items q"
  "rwd_items (q\<lparr>dequeued := n\<rparr>) = rwd_items q" "rwd_items (q\<lparr>shutdown := b\<rparr>) = rwd_items q"
  "rwd_items (rwd_sendq_note_send e t u ok q) = rwd_items q"
  by (simp_all add: rwd_items_def rwd_sendq_note_send_def Let_def)

lemma rwd_inv_frame [simp]:
  "rwd_inv (q\<lparr>needs_keyframe := b\<rparr>) = rwd_inv q" "rwd_inv (q\<lparr>drops := n\<rparr>) = rwd_inv q"
  "rwd_inv (q\<lparr>dequeued := n\<rparr>) = rwd_inv q" "rwd_inv (q\<lparr>shutdown := b\<rparr>) = rwd_inv q"
  "rwd_inv (rwd_sendq_note_send e t u ok q) = rwd_inv q"
  by (simp_all add: rwd_inv_def rwd_sendq_note_send_def Let_def)

lemma note_send_flags [simp]:
  "shutdown (rwd_sendq_note_send e t u ok q) = shutdown q"
  "needs_keyframe (rwd_sendq_note_send e t u ok q) = needs_keyframe q"
  by (simp_all add: rwd_sendq_note_send_def Let_def)

lemma clear_tail_frame [simp]:
  "shutdown (clear_tail q) = shutdown q" "needs_keyframe (clear_tail q) = needs_keyframe q"
  "count (clear_tail q) = count q - 1" "drops (clear_tail q) = drops q"
  by (simp_all add: clear_tail_def)

lemma clear_tail_inv: "rwd_inv q \<Longrightarrow> 0 < count q \<Longrightarrow> rwd_inv (clear_tail q)"
  by (cases "count q") (auto simp: rwd_defs clear_tail_def mod_simps)

lemma clear_tail_items:
  assumes "rwd_inv q" and "0 < count q"
  shows "rwd_items q = entries q ! tail q # rwd_items (clear_tail q)"
  using assms ring_pop [of "count q" "tail q" "entries q"]
    ring_update_tail [of "tail q" "entries q" "count q - 1"]
  by (auto simp: rwd_defs clear_tail_def)

lemma purge_locked_spec:
  "rwd_inv q \<Longrightarrow> rwd_inv (purge_locked q) \<and> rwd_items (purge_locked q) = [] \<and>
   shutdown (purge_locked q) = shutdown q \<and> drops (purge_locked q) = drops q + of_nat (count q)"
proof (induction "count q" arbitrary: q)
  case 0
  then show ?case by (simp add: purge_locked.simps [of q] rwd_items_def)
next
  case (Suc n)
  let ?q = "(clear_tail q)\<lparr>drops := drops q + 1\<rparr>"
  have "0 < count q" using Suc by simp
  moreover have "rwd_inv ?q" "n = count ?q" using Suc clear_tail_inv [of q] by simp_all
  ultimately show ?case
    using Suc.hyps(1) [of ?q] Suc.hyps(2) by (simp add: purge_locked.simps [of q])
qed

lemma fail_spec:
  assumes "rwd_inv q"
  shows "rwd_inv (rwd_sendq_fail q)" and "shutdown (rwd_sendq_fail q) = shutdown q"
    and "shutdown q \<or> needs_keyframe (rwd_sendq_fail q)"
    and "rwd_items (rwd_sendq_fail q) = (if shutdown q then rwd_items q else [])"
  using purge_locked_spec [OF assms] assms by (auto simp: rwd_sendq_fail_def Let_def)

definition pushed_entry :: "byte list \<Rightarrow> u32 \<Rightarrow> int \<Rightarrow> int \<Rightarrow> bool \<Rightarrow> rwd_sendq_entry" where
  "pushed_entry d ts cap enq key = \<lparr>data = Some d, len = of_nat (length d), rtp_ts = ts,
     capture_us = cap, enqueue_us = enq, is_key = key\<rparr>"

definition append_slot :: "rwd_sendq_entry \<Rightarrow> rwd_sendq \<Rightarrow> rwd_sendq" where
  "append_slot e q0 =
     (let q1 = q0\<lparr>entries := (entries q0)[head q0 := e], head := (head q0 + 1) mod RWD_SENDQ_SLOTS,
        count := count q0 + 1, enqueued := enqueued q0 + 1\<rparr>
      in if count q1 > max_depth q1 then q1\<lparr>max_depth := count q1\<rparr> else q1)"

lemma append_slot_spec:
  assumes "rwd_inv q" and "count q < RWD_SENDQ_SLOTS"
  shows "rwd_inv (append_slot e q)" and "rwd_items (append_slot e q) = rwd_items q @ [e]"
    and "shutdown (append_slot e q) = shutdown q" and "needs_keyframe (append_slot e q) = needs_keyframe q"
proof -
  show "rwd_inv (append_slot e q)"
    using assms by (auto simp: rwd_defs append_slot_def Let_def mod_simps)
  show "rwd_items (append_slot e q) = rwd_items q @ [e]"
    using assms ring_push [of "count q" "entries q" "tail q"]
    by (simp add: rwd_defs append_slot_def Let_def)
qed (simp_all add: append_slot_def Let_def)

text \<open>The four outcomes of a push.\<close>

lemma push_cases:
  assumes "rwd_inv q"
  obtains (nomem) "\<not> m" "rwd_sendq_push m d ts cap enq key q = (- 1, rwd_sendq_fail q)"
  | (refused) r where "rwd_sendq_push m d ts cap enq key q = (r, q)" "r \<noteq> 0"
      "shutdown q \<or> needs_keyframe q \<and> \<not> key"
  | (overflow) q' where "rwd_sendq_push m d ts cap enq key q = (1, q')" "rwd_inv q'"
      "rwd_items q' = []" "needs_keyframe q'"
  | (ok) q' where "rwd_sendq_push m d ts cap enq key q = (0, q')" "rwd_inv q'"
      "rwd_items q' = rwd_items q @ [pushed_entry d ts cap enq key]" "\<not> shutdown q" "\<not> shutdown q'"
      "\<not> needs_keyframe q'" "key \<or> \<not> needs_keyframe q"
proof -
  consider "\<not> m" | "m" "shutdown q \<or> needs_keyframe q \<and> \<not> key"
    | "m" "\<not> shutdown q" "\<not> (needs_keyframe q \<and> \<not> key)" by blast
  then show thesis
  proof cases
    case 1
    then show thesis by (intro nomem) (simp_all add: rwd_sendq_push_def)
  next
    case 2
    then show thesis
      by (intro refused [of "if shutdown q then - 1 else 1"]) (auto simp: rwd_sendq_push_def)
  next
    case 3
    define q0 where "q0 = (if needs_keyframe q then q\<lparr>needs_keyframe := False\<rparr> else q)"
    have q0: "rwd_inv q0" "count q0 = count q" "rwd_items q0 = rwd_items q" "shutdown q0 = shutdown q"
      "\<not> needs_keyframe q0"
      using assms by (simp_all add: q0_def)
    have eq: "rwd_sendq_push m d ts cap enq key q =
      (if count q0 \<ge> RWD_SENDQ_SLOTS then
         (1, (purge_locked q0)\<lparr>needs_keyframe := True, drops := drops (purge_locked q0) + 1\<rparr>)
       else (0, append_slot (pushed_entry d ts cap enq key) q0))"
      using 3 by (auto simp: rwd_sendq_push_def q0_def append_slot_def pushed_entry_def Let_def)
    show thesis
    proof (cases "count q0 \<ge> RWD_SENDQ_SLOTS")
      case True
      let ?q = "(purge_locked q0)\<lparr>needs_keyframe := True, drops := drops (purge_locked q0) + 1\<rparr>"
      have "rwd_sendq_push m d ts cap enq key q = (1, ?q)" using eq True by simp
      then show thesis using purge_locked_spec [OF q0(1)] by (intro overflow [of ?q]) auto
    next
      case False
      then have "rwd_sendq_push m d ts cap enq key q = (0, append_slot (pushed_entry d ts cap enq key) q0)"
        using eq by simp
      then show thesis using append_slot_spec [OF q0(1)] q0 3 False
        by (intro ok [of "append_slot (pushed_entry d ts cap enq key) q0"]) auto
    qed
  qed
qed

subsection \<open>Every interleaving of the reader and the send thread\<close>

type_synonym wframe = "byte list option \<times> int \<times> bool"

datatype rwd_op =
    WOffer bool "byte list" u32 int int bool
  | WPop
  | WFail
  | WNote rwd_sendq_entry int int bool
  | WGap
  | WStop

definition wframe_of :: "rwd_sendq_entry \<Rightarrow> wframe" where
  "wframe_of e = (data e, capture_us e, is_key e)"

fun rwd_exec :: "rwd_op \<Rightarrow> rwd_client \<Rightarrow> rwd_client \<times> wframe list" where
  "rwd_exec (WOffer m d rts cap now key) c = (fst (rwd_offer m d rts cap now key c), [])"
| "rwd_exec WPop c =
     (case rwd_sendq_pop (sendq c) of
        None \<Rightarrow> (c, []) | Some (e, q) \<Rightarrow> (c\<lparr>sendq := q\<rparr>, [wframe_of e]))"
| "rwd_exec WFail c = (c\<lparr>sendq := rwd_sendq_fail (sendq c)\<rparr>, [])"
| "rwd_exec (WNote e t u ok) c = (c\<lparr>sendq := rwd_sendq_note_send e t u ok (sendq c)\<rparr>, [])"
| "rwd_exec WGap c = (rwd_ring_gap c, [])"
| "rwd_exec WStop c = (rwd_media_stop c, [])"

fun rwd_offered :: "rwd_op \<Rightarrow> (bool \<times> wframe) list" where
  "rwd_offered (WOffer m d rts cap now key) = [(key, (Some d, cap, key))]"
| "rwd_offered _ = []"

definition rwd_queued :: "rwd_client \<Rightarrow> wframe list" where
  "rwd_queued c = map wframe_of (rwd_items (sendq c))"

definition rwd_gate :: "rwd_client \<Rightarrow> bool" where
  "rwd_gate c \<longleftrightarrow> sending c \<and> \<not> waiting_keyframe c \<and> \<not> needs_keyframe (sendq c) \<and> \<not> shutdown (sendq c)"

definition rwd_client_inv :: "rwd_client \<Rightarrow> bool" where
  "rwd_client_inv c \<longleftrightarrow> rwd_inv (sendq c) \<and> send_thread_started c"

abbreviation wkey :: "wframe \<Rightarrow> bool" where
  "wkey f \<equiv> snd (snd f)"

lemma offer_law:
  assumes inv: "rwd_client_inv c"
  shows "rwd_client_inv (fst (rwd_offer m d rts cap now key c)) \<and>
    gate_step wkey (rwd_gate c) (rwd_queued c) [(key, (Some d, cap, key))] []
      (rwd_gate (fst (rwd_offer m d rts cap now key c))) (rwd_queued (fst (rwd_offer m d rts cap now key c)))"
proof (cases "\<not> sending c \<or> waiting_keyframe c \<and> \<not> key")
  case True
  then have "fst (rwd_offer m d rts cap now key c) = c" "\<not> rwd_gate c"
    by (auto simp: rwd_offer_def rwd_gate_def)
  with inv show ?thesis by (simp add: gate_lose)
next
  case False
  define c1 where "c1 = rwd_open_gate rts c"
  have c1: "sendq c1 = sendq c" "sending c1" "send_thread_started c1" "\<not> waiting_keyframe c1"
    using inv False by (auto simp: c1_def rwd_open_gate_def rwd_client_inv_def Let_def)
  have q: "rwd_inv (sendq c)" using inv by (simp add: rwd_client_inv_def)
  obtain r q' where push: "rwd_sendq_push m d (rts - video_ts_offset c1) cap now key (sendq c) = (r, q')" by force
  define c' where "c' = fst (rwd_offer m d rts cap now key c)"
  have eq: "c' = (if r \<noteq> 0 then c1\<lparr>sendq := q', waiting_keyframe := True\<rparr> else c1\<lparr>sendq := q'\<rparr>)"
    using False c1 push by (auto simp: c'_def rwd_offer_def c1_def [symmetric] Let_def)
  note defs = eq rwd_client_inv_def rwd_gate_def rwd_queued_def c1
  from q have "rwd_client_inv c' \<and> gate_step wkey (rwd_gate c) (rwd_queued c) [(key, (Some d, cap, key))] []
      (rwd_gate c') (rwd_queued c')"
  proof (cases rule: push_cases [where m = m and d = d and ts = "rts - video_ts_offset c1" and cap = cap
        and enq = now and key = key])
    case nomem
    with push fail_spec [OF q] q show ?thesis by (auto simp: defs intro!: gate_lose)
  next
    case (refused r)
    with push q show ?thesis by (auto simp: defs intro!: gate_lose)
  next
    case (overflow q')
    with push q show ?thesis by (auto simp: defs intro!: gate_lose)
  next
    case (ok q')
    with push q False show ?thesis
      by (auto simp: defs pushed_entry_def wframe_of_def intro!: gate_accept)
  qed
  then show ?thesis by (simp add: c'_def)
qed

lemma rwd_gate_law:
  assumes inv: "rwd_client_inv c"
  shows "rwd_client_inv (fst (rwd_exec p c)) \<and>
    gate_step wkey (rwd_gate c) (rwd_queued c) (rwd_offered p) (snd (rwd_exec p c))
      (rwd_gate (fst (rwd_exec p c))) (rwd_queued (fst (rwd_exec p c)))"
proof -
  have q: "rwd_inv (sendq c)" using inv by (simp add: rwd_client_inv_def)
  note defs = rwd_client_inv_def rwd_gate_def rwd_queued_def
  show ?thesis
  proof (cases p)
    case (WOffer m d rts cap now key)
    with offer_law [OF inv] show ?thesis by simp
  next
    case WPop
    with inv q clear_tail_inv [OF q] clear_tail_items [OF q] show ?thesis
      by (auto simp: defs rwd_sendq_pop_def intro!: gate_idle)
  next
    case WFail
    with inv fail_spec [OF q] show ?thesis
      by (cases "shutdown (sendq c)") (auto simp: defs intro!: gate_lose gate_idle)
  qed (use inv in \<open>auto simp: defs rwd_ring_gap_def rwd_media_stop_def rwd_sendq_shutdown_def intro!: gate_idle\<close>)
qed

lemma rwd_offered_key: "(k, f) \<in> set (rwd_offered p) \<Longrightarrow> wkey f \<Longrightarrow> k"
  by (cases p) auto

interpretation rwdc: bounded_gate rwd_exec rwd_offered rwd_queued wkey rwd_gate rwd_client_inv RWD_SENDQ_SLOTS
proof
  fix c assume "rwd_client_inv c"
  then show "length (rwd_queued c) \<le> RWD_SENDQ_SLOTS"
    by (simp add: rwd_queued_def rwd_client_inv_def rwd_inv_def)
qed (simp_all add: rwd_gate_law, fact rwd_offered_key)

lemma rwd_inv_init: "rwd_inv rwd_sendq_init"
  by (simp add: rwd_defs rwd_sendq_init_def)

lemma started_ok:
  "rwd_client_inv (rwd_media_start c)" "rwd_queued (rwd_media_start c) = []" "\<not> rwd_gate (rwd_media_start c)"
  using rwd_inv_init
  by (simp_all add: rwd_client_inv_def rwd_queued_def rwd_gate_def rwd_media_start_def rwd_items_def rwd_sendq_init_def)

subsection \<open>Properties\<close>

lemma of_kind_unit [simp]: "of_kind (\<lambda>_. ()) k xs = xs"
  by (induction xs) simp_all


end
