(* ===== verification/Rsd555_Queue.thy ===== *)
theory Rsd555_Queue
  imports Gop_Stream "HOL-Library.Multiset"
begin

text \<open>
  The live555 RTSP server's frame queues, \<^verbatim>\<open>rsd-555/rsd555_queue.c\<close>, with the reader's fan-out
  (\<^verbatim>\<open>rsd555_reader.c\<close>) and the sources that consume the queues (\<^verbatim>\<open>rsd555_source.cpp\<close>). A frame
  is allocated once and shared by every client queue through a reference count, so the model
  has an explicit store: a map from addresses to frames, with a flag that is raised by any
  access to an address that is not allocated.

  \<open>owns h M\<close> says that the store holds exactly the frames the multiset \<open>M\<close> of references
  mentions, each with its number of references as its count. Every operation is shown to keep
  it, so no frame is used after it is freed and none is leaked.

  The linked list of a queue (\<^verbatim>\<open>head\<close>, \<^verbatim>\<open>tail\<close>, \<^verbatim>\<open>next\<close>) is the list of the addresses its nodes
  point to, oldest first; \<^verbatim>\<open>count\<close> stays a field of its own.
\<close>

subsection \<open>Shared frames\<close>

record shared_frame =
  refcnt :: int
  sf_data :: "byte list"
  sf_timestamp_us :: int
  sf_nal_type :: u16
  sf_is_key :: bool

record heap =
  store :: "nat \<Rightarrow> shared_frame option"
  brk :: nat
  fault :: bool

definition rsd555_shared_frame_new ::
  "bool \<Rightarrow> byte list \<Rightarrow> int \<Rightarrow> u16 \<Rightarrow> bool \<Rightarrow> heap \<Rightarrow> nat option \<times> heap" where
  "rsd555_shared_frame_new malloc_ok d ts nal key h =
     (if \<not> malloc_ok then (None, h)
      else (Some (brk h),
        h\<lparr>store := (store h)(brk h \<mapsto> \<lparr>refcnt = 1, sf_data = d, sf_timestamp_us = ts,
                                      sf_nal_type = nal, sf_is_key = key\<rparr>),
          brk := brk h + 1\<rparr>))"

definition rsd555_shared_frame_ref :: "nat \<Rightarrow> heap \<Rightarrow> heap" where
  "rsd555_shared_frame_ref a h =
     (case store h a of
        None \<Rightarrow> h\<lparr>fault := True\<rparr>
      | Some f \<Rightarrow> h\<lparr>store := (store h)(a \<mapsto> f\<lparr>refcnt := refcnt f + 1\<rparr>)\<rparr>)"

definition rsd555_shared_frame_unref :: "nat \<Rightarrow> heap \<Rightarrow> heap" where
  "rsd555_shared_frame_unref a h =
     (case store h a of
        None \<Rightarrow> h\<lparr>fault := True\<rparr>
      | Some f \<Rightarrow>
          if refcnt f - 1 = 0 then h\<lparr>store := (store h)(a := None)\<rparr>
          else h\<lparr>store := (store h)(a \<mapsto> f\<lparr>refcnt := refcnt f - 1\<rparr>)\<rparr>)"

subsection \<open>The queue\<close>

record frame_queue =
  frames :: "nat list"
  count :: nat
  max_count :: nat
  key_gated :: bool
  waiting_key :: bool

definition rsd555_queue_init :: "nat \<Rightarrow> bool \<Rightarrow> frame_queue" where
  "rsd555_queue_init max_frames gated =
     \<lparr>frames = [], count = 0, max_count = max_frames, key_gated = gated, waiting_key = gated\<rparr>"

fun unref_all :: "nat list \<Rightarrow> heap \<Rightarrow> heap" where
  "unref_all [] h = h"
| "unref_all (a # fs) h = unref_all fs (rsd555_shared_frame_unref a h)"

definition rsd555_queue_destroy :: "frame_queue \<Rightarrow> heap \<Rightarrow> heap" where
  "rsd555_queue_destroy q h = unref_all (frames q) h"

text \<open>The two loops of a push: drop the oldest while full, then purge up to a keyframe.\<close>

fun drop_oldest :: "nat \<Rightarrow> nat \<Rightarrow> nat list \<Rightarrow> heap \<Rightarrow> nat \<times> nat list \<times> heap \<times> bool" where
  "drop_oldest mx c [] h = (c, [], h, False)"
| "drop_oldest mx c (a # fs) h =
     (if c \<ge> mx then
        let (c1, fs1, h1, _) = drop_oldest mx (c - 1) fs (rsd555_shared_frame_unref a h)
        in (c1, fs1, h1, True)
      else (c, a # fs, h, False))"

fun purge_to_key :: "nat \<Rightarrow> nat list \<Rightarrow> heap \<Rightarrow> nat \<times> nat list \<times> heap" where
  "purge_to_key c [] h = (c, [], h)"
| "purge_to_key c (a # fs) h =
     (case store h a of
        None \<Rightarrow> (c, a # fs, h\<lparr>fault := True\<rparr>)
      | Some f \<Rightarrow>
          if \<not> sf_is_key f then purge_to_key (c - 1) fs (rsd555_shared_frame_unref a h)
          else (c, a # fs, h))"

definition frame_is_key :: "heap \<Rightarrow> nat \<Rightarrow> bool" where
  "frame_is_key h a = (case store h a of None \<Rightarrow> False | Some f \<Rightarrow> sf_is_key f)"

definition rsd555_queue_push_ref :: "bool \<Rightarrow> nat \<Rightarrow> frame_queue \<times> heap \<Rightarrow> int \<times> frame_queue \<times> heap" where
  "rsd555_queue_push_ref malloc_ok sf qh =
     (let (q, h) = qh; key = frame_is_key h sf in
      if waiting_key q \<and> \<not> key then (0, q, h)
      else
        let q0 = q\<lparr>waiting_key := False\<rparr> in
        if \<not> malloc_ok then (- 1, q0, h)
        else
          let h1 = rsd555_shared_frame_ref sf h;
              (c2, fs2, h2, dropped) = drop_oldest (max_count q0) (count q0) (frames q0) h1;
              (c3, fs3, h3) = (if dropped \<and> key_gated q0 then purge_to_key c2 fs2 h2 else (c2, fs2, h2))
          in if dropped \<and> key_gated q0 \<and> fs3 = [] \<and> \<not> key then
               (0, q0\<lparr>frames := fs3, count := c3, waiting_key := True\<rparr>, rsd555_shared_frame_unref sf h3)
             else (0, q0\<lparr>frames := fs3 @ [sf], count := c3 + 1\<rparr>, h3))"

definition rsd555_queue_pop :: "frame_queue \<Rightarrow> nat option \<times> frame_queue" where
  "rsd555_queue_pop q =
     (case frames q of
        [] \<Rightarrow> (None, q)
      | a # fs \<Rightarrow> (Some a, q\<lparr>frames := fs, count := count q - 1\<rparr>))"

definition rsd555_frame_free :: "nat option \<Rightarrow> heap \<Rightarrow> heap" where
  "rsd555_frame_free f h = (case f of None \<Rightarrow> h | Some a \<Rightarrow> rsd555_shared_frame_unref a h)"

subsection \<open>Reader, sources and their interleavings\<close>

record source =
  fQueue :: frame_queue
  fPending :: "nat option"

record r5_sys =
  hp :: heap
  srcs :: "source option list"
  sources :: "nat list"
  snap :: "nat list"
  held :: "nat option"

definition RSD555_MAX_SOURCES :: nat where
  "RSD555_MAX_SOURCES = 8"

datatype r5_op =
    R5Read bool "byte list" int u16 bool
  | R5Push bool
  | R5Done
  | R5Create bool nat bool
  | R5Pop nat
  | R5Release nat
  | R5Destroy nat

definition remove_source :: "nat \<Rightarrow> nat list \<Rightarrow> nat list" where
  "remove_source i ss =
     (case List.find (\<lambda>k. ss ! k = i) [0..<length ss] of
        None \<Rightarrow> ss
      | Some k \<Rightarrow> butlast (ss[k := last ss]))"

text \<open>
  The atomic steps of the reader: it allocates a frame and takes its snapshot of the registered
  queues, pushes to the next queue of the snapshot, and drops its own reference. Pushing to a
  destroyed queue is a fault.
\<close>

definition reader_read :: "bool \<Rightarrow> byte list \<Rightarrow> int \<Rightarrow> u16 \<Rightarrow> bool \<Rightarrow> r5_sys \<Rightarrow> r5_sys" where
  "reader_read m d ts nal key s =
     (if held s = None \<and> sources s \<noteq> [] then
        (case rsd555_shared_frame_new m d ts nal key (hp s) of
           (None, h) \<Rightarrow> s
         | (Some a, h) \<Rightarrow> s\<lparr>hp := h, held := Some a, snap := sources s\<rparr>)
      else s)"

definition fan_out_push :: "bool \<Rightarrow> r5_sys \<Rightarrow> r5_sys" where
  "fan_out_push m s =
     (case (held s, snap s) of
        (Some a, i # rest) \<Rightarrow>
          (case srcs s ! i of
             None \<Rightarrow> s\<lparr>hp := (hp s)\<lparr>fault := True\<rparr>, snap := rest\<rparr>
           | Some src \<Rightarrow>
               (case rsd555_queue_push_ref m a (fQueue src, hp s) of
                  (_, q, h) \<Rightarrow> s\<lparr>hp := h, srcs := (srcs s)[i := Some (src\<lparr>fQueue := q\<rparr>)], snap := rest\<rparr>))
      | _ \<Rightarrow> s)"

definition reader_done :: "r5_sys \<Rightarrow> r5_sys" where
  "reader_done s =
     (case (held s, snap s) of
        (Some a, []) \<Rightarrow> s\<lparr>hp := rsd555_shared_frame_unref a (hp s), held := None\<rparr>
      | _ \<Rightarrow> s)"

text \<open>
  The life of a source. A source is created when the reader's table has room and the server
  admits another client; otherwise its queue is destroyed again while it is still empty.
\<close>

definition source_create :: "bool \<Rightarrow> nat \<Rightarrow> bool \<Rightarrow> r5_sys \<Rightarrow> r5_sys" where
  "source_create admitted mx gated s =
     (if length (sources s) < RSD555_MAX_SOURCES \<and> admitted then
        s\<lparr>srcs := srcs s @ [Some \<lparr>fQueue = rsd555_queue_init mx gated, fPending = None\<rparr>],
          sources := sources s @ [length (srcs s)]\<rparr>
      else s)"

definition source_pop :: "nat \<Rightarrow> r5_sys \<Rightarrow> r5_sys" where
  "source_pop i s =
     (if i < length (srcs s) then
        (case srcs s ! i of
           Some src \<Rightarrow>
             if fPending src = None then
               (case rsd555_queue_pop (fQueue src) of
                  (f, q) \<Rightarrow> s\<lparr>srcs := (srcs s)[i := Some (src\<lparr>fQueue := q, fPending := f\<rparr>)]\<rparr>)
             else s
         | None \<Rightarrow> s)
      else s)"

definition source_release :: "nat \<Rightarrow> r5_sys \<Rightarrow> r5_sys" where
  "source_release i s =
     (if i < length (srcs s) then
        (case srcs s ! i of
           Some src \<Rightarrow> s\<lparr>hp := rsd555_frame_free (fPending src) (hp s),
                         srcs := (srcs s)[i := Some (src\<lparr>fPending := None\<rparr>)]\<rparr>
         | None \<Rightarrow> s)
      else s)"

definition source_destroy :: "nat \<Rightarrow> r5_sys \<Rightarrow> r5_sys" where
  "source_destroy i s =
     (if i < length (srcs s) then
        (case srcs s ! i of
           Some src \<Rightarrow>
             s\<lparr>sources := remove_source i (sources s),
               hp := rsd555_frame_free (fPending src) (rsd555_queue_destroy (fQueue src) (hp s)),
               srcs := (srcs s)[i := None]\<rparr>
         | None \<Rightarrow> s)
      else s)"

fun r5_step :: "r5_op \<Rightarrow> r5_sys \<Rightarrow> r5_sys" where
  "r5_step (R5Read m d ts nal key) s = reader_read m d ts nal key s"
| "r5_step (R5Push m) s = fan_out_push m s"
| "r5_step R5Done s = reader_done s"
| "r5_step (R5Create admitted mx gated) s = source_create admitted mx gated s"
| "r5_step (R5Pop i) s = source_pop i s"
| "r5_step (R5Release i) s = source_release i s"
| "r5_step (R5Destroy i) s = source_destroy i s"

lemmas r5_step_defs = reader_read_def fan_out_push_def reader_done_def source_create_def source_pop_def
  source_release_def source_destroy_def

definition r5_init :: r5_sys where
  "r5_init = \<lparr>hp = \<lparr>store = Map.empty, brk = 0, fault = False\<rparr>, srcs = [], sources = [], snap = [],
     held = None\<rparr>"

subsection \<open>Reference counting\<close>

definition ref_counts :: "nat multiset \<Rightarrow> nat \<Rightarrow> int option" where
  "ref_counts M a = (if a \<in># M then Some (int (Multiset.count M a)) else None)"

definition owns :: "heap \<Rightarrow> nat multiset \<Rightarrow> bool" where
  "owns h M \<longleftrightarrow> \<not> fault h \<and> (\<forall>a. brk h \<le> a \<longrightarrow> store h a = None) \<and>
     (\<forall>a. map_option refcnt (store h a) = ref_counts M a)"

text \<open>What a reference shows of a frame; the count is not part of it.\<close>

type_synonym content = "bool \<times> byte list \<times> int"

definition content :: "heap \<Rightarrow> nat \<Rightarrow> content" where
  "content h a = (case store h a of None \<Rightarrow> (False, [], 0)
     | Some f \<Rightarrow> (sf_is_key f, sf_data f, sf_timestamp_us f))"

lemma frame_is_key_content: "frame_is_key h a = fst (content h a)"
  by (simp add: frame_is_key_def content_def split: option.splits)

lemma ref_counts_add:
  "ref_counts (add_mset a M) b = (if b = a then Some (int (Multiset.count M a) + 1) else ref_counts M b)"
  by (simp add: ref_counts_def)

lemma ref_counts_in: "a \<in># M \<Longrightarrow> ref_counts M a = Some (int (Multiset.count M a))"
  by (simp add: ref_counts_def)

lemma owns_at: "owns h M \<Longrightarrow> map_option refcnt (store h a) = ref_counts M a"
  by (simp add: owns_def)

lemma owns_Some: "owns h M \<Longrightarrow> a \<in># M \<Longrightarrow> \<exists>f. store h a = Some f \<and> refcnt f = int (Multiset.count M a)"
  using owns_at [of h M a] by (cases "store h a") (auto simp: ref_counts_def split: if_splits)

lemma owns_empty: "owns h {#} \<Longrightarrow> store h = Map.empty"
  by (auto simp: owns_def fun_eq_iff ref_counts_def)

lemma owns_new:
  assumes "owns h M"
  shows "owns (snd (rsd555_shared_frame_new True d ts nal key h)) (add_mset (brk h) M)"
    and "fst (rsd555_shared_frame_new True d ts nal key h) = Some (brk h)"
    and "content (snd (rsd555_shared_frame_new True d ts nal key h)) (brk h) = (key, d, ts)"
    and "a \<in># M \<Longrightarrow> content (snd (rsd555_shared_frame_new True d ts nal key h)) a = content h a"
proof -
  have none: "store h (brk h) = None" using assms by (simp add: owns_def)
  then have fresh: "brk h \<notin># M"
    using owns_at [OF assms, of "brk h"] by (simp add: ref_counts_def split: if_splits)
  show "owns (snd (rsd555_shared_frame_new True d ts nal key h)) (add_mset (brk h) M)"
    using assms fresh by (auto simp: owns_def rsd555_shared_frame_new_def ref_counts_add not_in_iff)
  show "a \<in># M \<Longrightarrow> content (snd (rsd555_shared_frame_new True d ts nal key h)) a = content h a"
    using fresh by (auto simp: content_def rsd555_shared_frame_new_def)
qed (simp_all add: rsd555_shared_frame_new_def content_def)

lemma owns_ref:
  assumes "owns h M" and "a \<in># M"
  shows "owns (rsd555_shared_frame_ref a h) (add_mset a M)"
    and "content (rsd555_shared_frame_ref a h) b = content h b"
proof -
  obtain f where f: "store h a = Some f" "refcnt f = int (Multiset.count M a)"
    using owns_Some [OF assms] by blast
  have "\<not> brk h \<le> a" using assms(1) f by (auto simp: owns_def)
  with assms f show "owns (rsd555_shared_frame_ref a h) (add_mset a M)"
    by (auto simp: owns_def rsd555_shared_frame_ref_def ref_counts_add)
  show "content (rsd555_shared_frame_ref a h) b = content h b"
    using f by (simp add: content_def rsd555_shared_frame_ref_def)
qed

lemma owns_unref:
  assumes "owns h (add_mset a M)"
  shows "owns (rsd555_shared_frame_unref a h) M"
    and "b \<in># M \<Longrightarrow> content (rsd555_shared_frame_unref a h) b = content h b"
proof -
  obtain f where f: "store h a = Some f" "refcnt f = int (Multiset.count M a) + 1"
    using owns_Some [OF assms, of a] by auto
  have brk: "\<not> brk h \<le> a" using assms f by (auto simp: owns_def)
  have other: "map_option refcnt (store h b) = ref_counts M b" if "b \<noteq> a" for b
    using owns_at [OF assms, of b] that by (simp add: ref_counts_add)
  show "owns (rsd555_shared_frame_unref a h) M"
    using assms f brk other by (auto simp: owns_def rsd555_shared_frame_unref_def ref_counts_def [of M a])
  show "b \<in># M \<Longrightarrow> content (rsd555_shared_frame_unref a h) b = content h b"
    using f by (auto simp: content_def rsd555_shared_frame_unref_def simp flip: count_greater_zero_iff)
qed

lemma owns_unref_all:
  "owns h (mset fs + M) \<Longrightarrow> owns (unref_all fs h) M"
  by (induction fs arbitrary: h) (auto intro: owns_unref)

lemma drop_oldest_ok:
  assumes "owns h (mset fs + M)" and "c = length fs" and "drop_oldest mx c fs h = (c', fs', h', dr)"
  shows "owns h' (mset fs' + M) \<and> c' = length fs' \<and> suffix fs' fs \<and> dr = (fs' \<noteq> fs) \<and>
    (\<forall>b \<in># mset fs' + M. content h' b = content h b) \<and> (fs' = [] \<or> length fs' < mx)"
  using assms
proof (induction fs arbitrary: c h dr)
  case (Cons a fs)
  show ?case
  proof (cases "mx \<le> c")
    case True
    let ?h = "rsd555_shared_frame_unref a h"
    obtain dr1 where run: "drop_oldest mx (c - 1) fs ?h = (c', fs', h', dr1)" and dr: "dr"
      using Cons.prems(3) True by (auto simp: split_def Let_def prod_eq_iff)
    have own: "owns h (add_mset a (mset fs + M))" using Cons.prems(1) by simp
    from Cons.IH [OF owns_unref(1) [OF own] _ run] Cons.prems(2)
    have IH: "owns h' (mset fs' + M)" "c' = length fs'" "suffix fs' fs"
      "\<forall>b \<in># mset fs' + M. content h' b = content ?h b" "fs' = [] \<or> length fs' < mx"
      by auto
    have "set fs' \<subseteq> set fs" using IH(3) by (rule set_mono_suffix)
    then have "\<forall>b \<in># mset fs' + M. content h' b = content h b"
      using IH(4) owns_unref(2) [OF own] by auto
    moreover have "fs' \<noteq> a # fs" using IH(3) by (auto dest: suffix_length_le)
    ultimately show ?thesis using IH dr by (auto simp: suffix_Cons)
  qed (use Cons.prems in auto)
qed auto

lemma purge_to_key_ok:
  assumes "owns h (mset fs + M)" and "c = length fs" and "purge_to_key c fs h = (c', fs', h')"
  shows "owns h' (mset fs' + M) \<and> c' = length fs' \<and> suffix fs' fs \<and>
    (\<forall>b \<in># mset fs' + M. content h' b = content h b) \<and> (fs' = [] \<or> fst (content h (hd fs')))"
  using assms
proof (induction fs arbitrary: c h)
  case (Cons a fs)
  have own: "owns h (add_mset a (mset fs + M))" using Cons.prems(1) by simp
  obtain f where f: "store h a = Some f" using owns_Some [OF own, of a] by auto
  show ?case
  proof (cases "sf_is_key f")
    case True
    with f Cons.prems show ?thesis by (auto simp: content_def)
  next
    case False
    let ?h = "rsd555_shared_frame_unref a h"
    have run: "purge_to_key (c - 1) fs ?h = (c', fs', h')" using Cons.prems(3) f False by simp
    from Cons.IH [OF owns_unref(1) [OF own] _ run] Cons.prems(2)
    have IH: "owns h' (mset fs' + M)" "c' = length fs'" "suffix fs' fs"
      "\<forall>b \<in># mset fs' + M. content h' b = content ?h b" "fs' = [] \<or> fst (content ?h (hd fs'))"
      by auto
    have "set fs' \<subseteq> set fs" using IH(3) by (rule set_mono_suffix)
    then have "\<forall>b \<in># mset fs' + M. content ?h b = content h b"
      using owns_unref(2) [OF own] by auto
    with IH show ?thesis by (cases fs') (auto simp: suffix_Cons)
  qed
qed auto

text \<open>What a push does to the queue, given that the caller holds a reference to the frame.\<close>

lemma push_ref_cases:
  assumes own: "owns h (mset (frames q) + add_mset sf M)" and cnt: "count q = length (frames q)"
    and run: "rsd555_queue_push_ref m sf (q, h) = (r, q', h')"
  defines "C \<equiv> content h"
  obtains (skip) "q' = q" "h' = h" "waiting_key q" "\<not> fst (C sf)"
  | (nomem) "\<not> m" "q' = q\<lparr>waiting_key := False\<rparr>" "h' = h"
  | (refuse) "owns h' (mset (frames q') + add_mset sf M)" "frames q' = []" "count q' = 0"
      "waiting_key q'" "key_gated q" "\<not> fst (C sf)" "\<forall>b \<in># add_mset sf M. content h' b = C b"
      "max_count q' = max_count q" "key_gated q'"
  | (queued) kept where "owns h' (mset (frames q') + add_mset sf M)" "frames q' = kept @ [sf]"
      "count q' = length (frames q')" "suffix kept (frames q)" "\<not> waiting_key q'"
      "waiting_key q \<longrightarrow> fst (C sf)"
      "kept = frames q \<or> \<not> key_gated q \<or> (kept = [] \<and> fst (C sf)) \<or> (kept \<noteq> [] \<and> fst (C (hd kept)))"
      "\<forall>b \<in># mset (frames q') + add_mset sf M. content h' b = C b"
      "length kept \<le> max_count q - 1 \<or> kept = []" "max_count q' = max_count q" "key_gated q' = key_gated q"
proof -
  let ?key = "fst (C sf)" and ?M = "add_mset sf (add_mset sf M)"
  have key: "frame_is_key h sf = ?key" by (simp add: C_def frame_is_key_content)
  consider "waiting_key q" "\<not> ?key" | "\<not> (waiting_key q \<and> \<not> ?key)" "\<not> m"
    | "waiting_key q \<longrightarrow> ?key" "m" by blast
  then show thesis
  proof cases
    case 1
    with run key show thesis by (intro skip) (auto simp: rsd555_queue_push_ref_def)
  next
    case 2
    with run key show thesis by (intro nomem) (auto simp: rsd555_queue_push_ref_def)
  next
    case 3
    let ?h1 = "rsd555_shared_frame_ref sf h"
    have own1: "owns ?h1 (mset (frames q) + ?M)"
      using owns_ref(1) [OF own, of sf] by (simp add: add_mset_commute)
    obtain c2 fs2 h2 dr where d: "drop_oldest (max_count q) (count q) (frames q) ?h1 = (c2, fs2, h2, dr)"
      by (metis prod_cases4)
    note D = drop_oldest_ok [OF own1 cnt d]
    obtain c3 fs3 h3 where p: "(if dr \<and> key_gated q then purge_to_key c2 fs2 h2 else (c2, fs2, h2)) = (c3, fs3, h3)"
      by (metis prod_cases3)
    have P: "owns h3 (mset fs3 + ?M) \<and> c3 = length fs3 \<and> suffix fs3 fs2 \<and>
        (\<forall>b \<in># mset fs3 + ?M. content h3 b = content h2 b) \<and>
        (dr \<and> key_gated q \<longrightarrow> fs3 = [] \<or> fst (content h2 (hd fs3))) \<and> (\<not> (dr \<and> key_gated q) \<longrightarrow> fs3 = fs2)"
      using D p purge_to_key_ok [of h2 fs2 ?M c2 c3 fs3 h3] by (cases "dr \<and> key_gated q") auto
    have sub: "set fs3 \<subseteq> set fs2" using P by (auto dest: set_mono_suffix)
    have C3: "\<forall>b \<in># mset fs3 + ?M. content h3 b = C b"
      using P D sub owns_ref(2) [OF own, of sf] by (auto simp: C_def)
    have Ck: "fs3 \<noteq> [] \<Longrightarrow> content h2 (hd fs3) = C (hd fs3)"
      using D sub owns_ref(2) [OF own, of sf] by (cases fs3) (auto simp: C_def)
    have len: "length fs3 \<le> max_count q - 1 \<or> fs3 = []"
      using D P suffix_length_le [of fs3 fs2] by auto
    have suf: "suffix fs3 (frames q)" using D P by (auto intro: suffix_order.trans)
    have "rsd555_queue_push_ref m sf (q, h) = (if dr \<and> key_gated q \<and> fs3 = [] \<and> \<not> ?key
        then (0, q\<lparr>waiting_key := True, frames := fs3, count := c3\<rparr>, rsd555_shared_frame_unref sf h3)
        else (0, q\<lparr>waiting_key := False, frames := fs3 @ [sf], count := c3 + 1\<rparr>, h3))"
      using 3 d p key by (auto simp: rsd555_queue_push_ref_def Let_def)
    note res = this [unfolded run]
    show thesis
    proof (cases "dr \<and> key_gated q \<and> fs3 = [] \<and> \<not> ?key")
      case True
      then have "owns h3 (add_mset sf (mset fs3 + add_mset sf M))" using P by simp
      note U = owns_unref [OF this]
      show thesis using res True U P C3 by (intro refuse) auto
    next
      case False
      then have q': "q' = q\<lparr>waiting_key := False, frames := fs3 @ [sf], count := c3 + 1\<rparr>" "h' = h3"
        using res by auto
      have M: "mset (frames q') + add_mset sf M = mset fs3 + ?M" by (simp add: q')
      show thesis
      proof (rule queued [of fs3])
        show "owns h' (mset (frames q') + add_mset sf M)" unfolding M q'(2) using P by blast
        show "\<forall>b \<in># mset (frames q') + add_mset sf M. content h' b = C b"
          unfolding M q'(2) by (rule C3)
        show "fs3 = frames q \<or> \<not> key_gated q \<or> fs3 = [] \<and> ?key \<or> fs3 \<noteq> [] \<and> fst (C (hd fs3))"
          using P D Ck False by (cases "fs3 = []") auto
      qed (use q' 3 P suf len in auto)
    qed
  qed
qed

subsection \<open>The system keeps its references\<close>

fun src_refs :: "source option \<Rightarrow> nat list" where
  "src_refs None = []"
| "src_refs (Some src) = frames (fQueue src) @ (case fPending src of None \<Rightarrow> [] | Some a \<Rightarrow> [a])"

fun held_refs :: "nat option \<Rightarrow> nat multiset" where
  "held_refs None = {#}"
| "held_refs (Some a) = {#a#}"

definition refs :: "r5_sys \<Rightarrow> nat multiset" where
  "refs s = mset (concat (map src_refs (srcs s))) + held_refs (held s)"

definition live :: "source option list \<Rightarrow> nat \<Rightarrow> bool" where
  "live ss i \<longleftrightarrow> i < length ss \<and> ss ! i \<noteq> None"

fun src_ok :: "source option \<Rightarrow> bool" where
  "src_ok None = True"
| "src_ok (Some src) = (count (fQueue src) = length (frames (fQueue src)))"

definition r5_inv :: "r5_sys \<Rightarrow> bool" where
  "r5_inv s \<longleftrightarrow> owns (hp s) (refs s) \<and> list_all src_ok (srcs s) \<and> distinct (sources s) \<and>
     list_all (live (srcs s)) (sources s) \<and> list_all (live (srcs s)) (snap s)"

lemma refs_update:
  assumes "i < length ss"
  shows "mset (concat (map src_refs (ss[i := x]))) + mset (src_refs (ss ! i)) =
    mset (concat (map src_refs ss)) + mset (src_refs x)"
proof -
  have "ss = take i ss @ ss ! i # drop (Suc i) ss" using assms by (simp add: id_take_nth_drop)
  then have "mset (concat (map src_refs ss)) =
      mset (concat (map src_refs (take i ss @ ss ! i # drop (Suc i) ss)))" by simp
  then show ?thesis using assms by (simp add: upd_conv_take_nth_drop)
qed

text \<open>The references of everything but source \<open>i\<close>.\<close>

definition other_refs :: "nat \<Rightarrow> r5_sys \<Rightarrow> nat multiset" where
  "other_refs i s = mset (concat (map src_refs ((srcs s)[i := None]))) + held_refs (held s)"

lemma refs_split:
  assumes "i < length (srcs s)"
  shows "refs s = mset (src_refs (srcs s ! i)) + other_refs i s"
    and "refs (s\<lparr>srcs := (srcs s)[i := x], hp := h\<rparr>) = mset (src_refs x) + other_refs i s"
  using refs_update [OF assms, of None] refs_update [of i "(srcs s)[i := x]" None] assms
  by (simp_all add: refs_def other_refs_def add.commute add.left_commute)

lemma mset_remove_source:
  assumes "k < length ss"
  shows "mset ss = add_mset (ss ! k) (mset (butlast (ss[k := last ss])))"
proof -
  have ne: "ss \<noteq> []" using assms by auto
  let ?xs = "ss[k := last ss]"
  have "?xs \<noteq> []" "last ?xs = last ss"
    using assms ne by (auto simp: last_list_update)
  then have "mset ?xs = add_mset (last ss) (mset (butlast ?xs))"
    by (metis append_butlast_last_id mset_append add.commute mset_single_iff_right add_mset_add_single)
  moreover have "mset ?xs = add_mset (last ss) (mset ss - {#ss ! k#})"
    using assms by (simp add: mset_update)
  ultimately have "mset (butlast ?xs) = mset ss - {#ss ! k#}" by simp
  then show ?thesis using assms by simp
qed

lemma remove_source_set:
  assumes "distinct ss"
  shows "distinct (remove_source i ss)" and "set (remove_source i ss) = set ss - {i}"
proof -
  have "distinct (remove_source i ss) \<and> set (remove_source i ss) = set ss - {i}"
  proof (cases "List.find (\<lambda>k. ss ! k = i) [0..<length ss]")
    case None
    then have "i \<notin> set ss" by (auto simp: find_None_iff in_set_conv_nth)
    with None assms show ?thesis by (simp add: remove_source_def)
  next
    case (Some k)
    then have k: "k < length ss" "ss ! k = i" by (auto simp: find_Some_iff)
    let ?r = "butlast (ss[k := last ss])"
    have m: "mset ss = mset (i # ?r)" using mset_remove_source [OF k(1)] k(2) by simp
    have "distinct (i # ?r)" using assms mset_eq_imp_distinct_iff [OF m] by blast
    moreover have "set ss = set (i # ?r)" using m by (metis set_mset_mset)
    ultimately show ?thesis using Some by (auto simp: remove_source_def)
  qed
  then show "distinct (remove_source i ss)" "set (remove_source i ss) = set ss - {i}" by simp_all
qed

text \<open>A source is not destroyed while the reader still has its queue in the snapshot.\<close>

fun r5_guard :: "r5_op \<Rightarrow> r5_sys \<Rightarrow> bool" where
  "r5_guard (R5Destroy i) s = (i \<notin> set (snap s))"
| "r5_guard _ s = True"

fun race_free :: "r5_op list \<Rightarrow> r5_sys \<Rightarrow> bool" where
  "race_free [] s = True"
| "race_free (p # ps) s = (r5_guard p s \<and> race_free ps (r5_step p s))"

lemma live_update: "live ss j \<Longrightarrow> live (ss[i := Some x]) j"
  by (cases "j = i") (auto simp: live_def)

lemma list_all_live_update: "list_all (live ss) js \<Longrightarrow> list_all (live (ss[i := Some x])) js"
  by (simp add: list_all_iff live_update)

lemma src_ok_update: "list_all src_ok ss \<Longrightarrow> src_ok x \<Longrightarrow> list_all src_ok (ss[i := x])"
  by (auto simp: list_all_iff dest!: set_update_subset_insert [THEN subsetD])

lemma r5_inv_update:
  assumes "r5_inv s" and "i < length (srcs s)" and "owns h (mset (src_refs (Some x)) + other_refs i s)"
    and "src_ok (Some x)"
  shows "r5_inv (s\<lparr>srcs := (srcs s)[i := Some x], hp := h\<rparr>)"
  using assms by (simp add: r5_inv_def refs_split(2) src_ok_update list_all_live_update del: src_refs.simps)

lemma read_inv:
  assumes inv: "r5_inv s"
  shows "r5_inv (r5_step (R5Read m d ts nal key) s)"
proof (cases "held s = None \<and> sources s \<noteq> [] \<and> m")
  case True
  obtain a h where new: "rsd555_shared_frame_new True d ts nal key (hp s) = (Some a, h)"
    by (simp add: rsd555_shared_frame_new_def)
  have "owns (hp s) (refs s)" using inv by (simp add: r5_inv_def)
  from owns_new(1,2) [OF this, of d ts nal key] new have "owns h (add_mset a (refs s))" by simp
  with True new inv show ?thesis
    by (simp add: reader_read_def r5_inv_def refs_def list_all_iff live_def)
next
  case False
  then show ?thesis using inv by (auto simp: reader_read_def rsd555_shared_frame_new_def)
qed

lemma push_inv:
  assumes inv: "r5_inv s"
  shows "r5_inv (r5_step (R5Push m) s)"
proof (cases "\<exists>a i rest. held s = Some a \<and> snap s = i # rest")
  case True
  then obtain a i rest where hs: "held s = Some a" "snap s = i # rest" by blast
  then obtain src where i: "i < length (srcs s)" and src: "srcs s ! i = Some src"
    using inv by (auto simp: r5_inv_def live_def)
  let ?q = "fQueue src"
  obtain r q' h' where run: "rsd555_queue_push_ref m a (?q, hp s) = (r, q', h')" by (metis prod_cases3)
  define P where "P = mset (case fPending src of None \<Rightarrow> [] | Some b \<Rightarrow> [b])"
  define Q where "Q = mset (concat (map src_refs ((srcs s)[i := None])))"
  have other: "other_refs i s = add_mset a Q" by (simp add: other_refs_def Q_def hs)
  have own: "owns (hp s) (mset (frames ?q) + add_mset a (P + Q))"
    using inv refs_split(1) [OF i] src by (simp add: r5_inv_def other P_def add.assoc)
  have "src_ok (Some src)" using inv i src by (metis r5_inv_def list_all_length)
  then have cnt: "count ?q = length (frames ?q)" by simp
  have "owns h' (mset (frames q') + add_mset a (P + Q)) \<and> count q' = length (frames q')"
    by (rule push_ref_cases [OF own cnt run]) (use own cnt in auto)
  then have "r5_inv (s\<lparr>srcs := (srcs s)[i := Some (src\<lparr>fQueue := q'\<rparr>)], hp := h'\<rparr>)"
    by (intro r5_inv_update inv i) (simp_all add: other P_def add.assoc)
  then show ?thesis using hs src run by (simp add: fan_out_push_def r5_inv_def refs_def live_def)
next
  case False
  then show ?thesis using inv by (auto simp: fan_out_push_def split: option.splits list.splits)
qed

lemma done_inv: "r5_inv s \<Longrightarrow> r5_inv (r5_step R5Done s)"
  using owns_unref(1) [of "hp s" _ "mset (concat (map src_refs (srcs s)))"]
  by (auto simp: reader_done_def r5_inv_def refs_def live_def split: option.splits list.splits)

lemma create_inv: "r5_inv s \<Longrightarrow> r5_inv (r5_step (R5Create ad mx g) s)"
  by (auto simp: source_create_def r5_inv_def refs_def rsd555_queue_init_def list_all_iff live_def nth_append)

lemma pop_inv:
  assumes inv: "r5_inv s"
  shows "r5_inv (r5_step (R5Pop i) s)"
proof (cases "i < length (srcs s) \<and> (\<exists>src a fs. srcs s ! i = Some src \<and> fPending src = None \<and> frames (fQueue src) = a # fs)")
  case True
  then obtain src a fs where i: "i < length (srcs s)" and src: "srcs s ! i = Some src"
    and p: "fPending src = None" "frames (fQueue src) = a # fs" by blast
  let ?x = "src\<lparr>fQueue := (fQueue src)\<lparr>frames := fs, count := count (fQueue src) - 1\<rparr>, fPending := Some a\<rparr>"
  have "src_ok (Some src)" using inv i src by (metis r5_inv_def list_all_length)
  then have "src_ok (Some ?x)" using p by simp
  moreover have "owns (hp s) (mset (src_refs (Some ?x)) + other_refs i s)"
    using inv refs_split(1) [OF i] src p by (simp add: r5_inv_def)
  ultimately have "r5_inv (s\<lparr>srcs := (srcs s)[i := Some ?x], hp := hp s\<rparr>)"
    by (intro r5_inv_update inv i)
  then show ?thesis using i src p by (simp add: source_pop_def rsd555_queue_pop_def)
next
  case False
  have "s\<lparr>srcs := (srcs s)[i := Some src]\<rparr> = s" if "i < length (srcs s)" "srcs s ! i = Some src" for src
    using that by (metis list_update_id r5_sys.surjective r5_sys.update_convs(2))
  moreover have "src\<lparr>fPending := None\<rparr> = src" if "fPending src = None" for src :: source
    using that by simp
  ultimately show ?thesis
    using False inv by (auto simp: source_pop_def rsd555_queue_pop_def split: option.splits list.splits)
qed

lemma free_pending_ok:
  "owns h (mset (case f of None \<Rightarrow> [] | Some a \<Rightarrow> [a]) + M) \<Longrightarrow> owns (rsd555_frame_free f h) M"
  by (cases f) (simp_all add: rsd555_frame_free_def owns_unref(1))

lemma release_inv:
  assumes inv: "r5_inv s"
  shows "r5_inv (r5_step (R5Release i) s)"
proof (cases "i < length (srcs s) \<and> srcs s ! i \<noteq> None")
  case True
  then obtain src where i: "i < length (srcs s)" and src: "srcs s ! i = Some src" by blast
  let ?P = "mset (case fPending src of None \<Rightarrow> [] | Some a \<Rightarrow> [a])" and ?x = "src\<lparr>fPending := None\<rparr>"
  have "owns (hp s) (?P + (mset (frames (fQueue src)) + other_refs i s))"
    using inv refs_split(1) [OF i] src by (simp add: r5_inv_def add.assoc add.left_commute)
  then have "owns (rsd555_frame_free (fPending src) (hp s)) (mset (src_refs (Some ?x)) + other_refs i s)"
    by (simp add: free_pending_ok)
  moreover have "src_ok (Some src)" using inv i src by (metis r5_inv_def list_all_length)
  ultimately have "r5_inv (s\<lparr>srcs := (srcs s)[i := Some ?x], hp := rsd555_frame_free (fPending src) (hp s)\<rparr>)"
    by (intro r5_inv_update inv i) simp_all
  then show ?thesis using i src by (simp add: source_release_def r5_inv_def refs_def)
next
  case False
  then show ?thesis using inv by (auto simp: source_release_def)
qed

lemma destroy_inv:
  assumes inv: "r5_inv s" and guard: "i \<notin> set (snap s)"
  shows "r5_inv (r5_step (R5Destroy i) s)"
proof (cases "i < length (srcs s) \<and> srcs s ! i \<noteq> None")
  case True
  then obtain src where i: "i < length (srcs s)" and src: "srcs s ! i = Some src" by blast
  let ?P = "mset (case fPending src of None \<Rightarrow> [] | Some a \<Rightarrow> [a])"
  let ?h = "rsd555_frame_free (fPending src) (rsd555_queue_destroy (fQueue src) (hp s))"
  have "owns (hp s) (mset (frames (fQueue src)) + (?P + other_refs i s))"
    using inv refs_split(1) [OF i] src by (simp add: r5_inv_def add.assoc)
  then have "owns ?h (mset (src_refs None) + other_refs i s)"
    by (simp add: rsd555_queue_destroy_def owns_unref_all free_pending_ok)
  then have own: "owns ?h (refs (s\<lparr>srcs := (srcs s)[i := None], hp := ?h\<rparr>))"
    using refs_split(2) [OF i, where x = None and h = ?h] by simp
  have live: "live ((srcs s)[i := None]) j" if "live (srcs s) j" "j \<noteq> i" for j
    using that by (simp add: live_def)
  have D: "distinct (sources s)" using inv by (simp add: r5_inv_def)
  have "list_all src_ok ((srcs s)[i := None])" "list_all (live ((srcs s)[i := None])) (remove_source i (sources s))"
    using inv remove_source_set [OF D, of i] live
    by (auto simp: r5_inv_def list_all_iff dest!: set_update_subset_insert [THEN subsetD])
  moreover have "live ((srcs s)[i := None]) j" if "j \<in> set (snap s)" for j
    using that guard inv by (intro live) (auto simp: r5_inv_def list_all_iff)
  ultimately show ?thesis
    using own i src remove_source_set [OF D, of i] by (simp add: source_destroy_def r5_inv_def refs_def list_all_iff)
next
  case False
  then show ?thesis using inv by (auto simp: source_destroy_def)
qed

lemma r5_step_inv: "r5_inv s \<Longrightarrow> r5_guard p s \<Longrightarrow> r5_inv (r5_step p s)"
  by (cases p) (simp_all only: read_inv push_inv done_inv create_inv pop_inv release_inv destroy_inv r5_guard.simps
      not_False_eq_True)

lemma r5_run_inv: "r5_inv s \<Longrightarrow> race_free ps s \<Longrightarrow> r5_inv (fold r5_step ps s)"
  by (induction ps arbitrary: s) (simp_all del: r5_step.simps add: r5_step_inv)

lemma r5_inv_init: "r5_inv r5_init"
  by (simp add: r5_inv_def r5_init_def refs_def owns_def ref_counts_def)

subsection \<open>One gated queue\<close>

text \<open>
  The video queue of one source: the reader's body for a frame (allocate, push, drop its own
  reference) and the source's pop followed by the release. The two flags of an offer are the
  allocations of the frame and of the queue node.
\<close>

datatype g5_op = G5Offer bool bool "byte list" int u16 bool | G5Pop

fun g5_exec :: "g5_op \<Rightarrow> frame_queue \<times> heap \<Rightarrow> (frame_queue \<times> heap) \<times> content list" where
  "g5_exec (G5Offer m1 m2 d ts nal key) (q, h) =
     (case rsd555_shared_frame_new m1 d ts nal key h of
        (None, h1) \<Rightarrow> ((q, h1), [])
      | (Some a, h1) \<Rightarrow>
          (case rsd555_queue_push_ref m2 a (q, h1) of
             (_, q2, h2) \<Rightarrow> ((q2, rsd555_shared_frame_unref a h2), [])))"
| "g5_exec G5Pop (q, h) =
     (case rsd555_queue_pop q of
        (None, q1) \<Rightarrow> ((q1, h), [])
      | (Some a, q1) \<Rightarrow> ((q1, rsd555_frame_free (Some a) h), [content h a]))"

fun g5_offered :: "g5_op \<Rightarrow> (bool \<times> content) list" where
  "g5_offered (G5Offer m1 m2 d ts nal key) = [(key, (key, d, ts))]"
| "g5_offered G5Pop = []"

fun g5_allocates :: "g5_op \<Rightarrow> bool" where
  "g5_allocates (G5Offer m1 m2 d ts nal key) = (m1 \<and> m2)"
| "g5_allocates G5Pop = True"

definition RSD555_VIDEO_FRAMES :: nat where
  "RSD555_VIDEO_FRAMES = 16"

fun g5_queued :: "frame_queue \<times> heap \<Rightarrow> content list" where
  "g5_queued (q, h) = map (content h) (frames q)"

fun g5_gate :: "frame_queue \<times> heap \<Rightarrow> bool" where
  "g5_gate (q, h) = (\<not> waiting_key q)"

fun g5_inv :: "frame_queue \<times> heap \<Rightarrow> bool" where
  "g5_inv (q, h) = (owns h (mset (frames q)) \<and> count q = length (frames q) \<and> key_gated q \<and>
     max_count q = RSD555_VIDEO_FRAMES \<and> length (frames q) \<le> RSD555_VIDEO_FRAMES)"

lemma g5_nomem:
  assumes "g5_inv (q, h)" and "\<not> g5_allocates p"
  shows "g5_inv (fst (g5_exec p (q, h))) \<and> snd (g5_exec p (q, h)) = [] \<and>
    g5_queued (fst (g5_exec p (q, h))) = g5_queued (q, h)"
proof (cases p)
  case (G5Offer m1 m2 d ts nal key)
  show ?thesis
  proof (cases m1)
    case True
    have own: "owns h (mset (frames q))" using assms by simp
    obtain h1 where new: "rsd555_shared_frame_new True d ts nal key h = (Some (brk h), h1)"
      by (simp add: rsd555_shared_frame_new_def)
    note N = owns_new [OF own, where d = d and ts = ts and nal = nal and key = key, unfolded new snd_conv]
    have "rsd555_queue_push_ref m2 (brk h) (q, h1) = (0, q, h1) \<or>
        rsd555_queue_push_ref m2 (brk h) (q, h1) = (- 1, q\<lparr>waiting_key := False\<rparr>, h1)"
      using assms(2) G5Offer True by (auto simp: rsd555_queue_push_ref_def Let_def)
    moreover note owns_unref [OF N(1)]
    ultimately show ?thesis using assms(1) G5Offer True new N(4) by auto
  next
    case False
    then show ?thesis using assms(1) G5Offer by (simp add: rsd555_shared_frame_new_def)
  qed
qed (use assms in simp)

lemma g5_offer_law:
  assumes inv: "g5_inv (q, h)" and st: "fst (g5_exec (G5Offer True True d ts nal key) (q, h)) = s"
  shows "g5_inv s \<and> gate_step fst (g5_gate (q, h)) (g5_queued (q, h)) [(key, (key, d, ts))] []
    (g5_gate s) (g5_queued s)"
proof -
  have own: "owns h (mset (frames q))" and cnt: "count q = length (frames q)" using inv by simp_all
  obtain h1 where new: "rsd555_shared_frame_new True d ts nal key h = (Some (brk h), h1)"
    by (simp add: rsd555_shared_frame_new_def)
  note N = owns_new [OF own, where d = d and ts = ts and nal = nal and key = key, unfolded new snd_conv]
  let ?a = "brk h"
  obtain r q2 h2 where push: "rsd555_queue_push_ref True ?a (q, h1) = (r, q2, h2)" by (metis prod_cases3)
  have own1: "owns h1 (mset (frames q) + add_mset ?a {#})" using N(1) by simp
  have s: "s = (q2, rsd555_shared_frame_unref ?a h2)" using st new push by simp
  have C1: "map (content h1) fs = map (content h) fs" if "set fs \<subseteq> set (frames q)" for fs
    using that N(4) by auto
  have U: "owns (rsd555_shared_frame_unref ?a h2) (mset (frames q2))"
      "map (content (rsd555_shared_frame_unref ?a h2)) (frames q2) = map (content h2) (frames q2)"
    if "owns h2 (mset (frames q2) + add_mset ?a {#})"
    using owns_unref [of h2 ?a "mset (frames q2)"] that by simp_all
  show ?thesis
  proof (rule push_ref_cases [OF own1 cnt push])
    assume "q2 = q" "h2 = h1" "waiting_key q"
    with U own1 C1 [of "frames q"] inv have "g5_inv s" "g5_queued s = g5_queued (q, h)" "\<not> g5_gate s"
      by (auto simp: s)
    then show ?thesis by (auto intro: gate_lose)
  next
    assume "owns h2 (mset (frames q2) + add_mset ?a {#})" "frames q2 = []" "count q2 = 0" "waiting_key q2"
      "max_count q2 = max_count q" "key_gated q2"
    with U inv show ?thesis by (auto simp: s intro!: gate_lose)
  next
    fix kept
    assume o2: "owns h2 (mset (frames q2) + add_mset ?a {#})" and f2: "frames q2 = kept @ [?a]"
      and c2: "count q2 = length (frames q2)" and suf: "suffix kept (frames q)" and w: "\<not> waiting_key q2"
      and wk: "waiting_key q \<longrightarrow> fst (content h1 ?a)"
      and k: "kept = frames q \<or> \<not> key_gated q \<or> (kept = [] \<and> fst (content h1 ?a)) \<or>
        (kept \<noteq> [] \<and> fst (content h1 (hd kept)))"
      and same: "\<forall>b \<in># mset (frames q2) + add_mset ?a {#}. content h2 b = content h1 b"
      and len: "length kept \<le> max_count q - 1 \<or> kept = []"
      and mx: "max_count q2 = max_count q" "key_gated q2 = key_gated q"
    have sub: "set kept \<subseteq> set (frames q)" using suf by (rule set_mono_suffix)
    have Q: "g5_queued s = map (content h) kept @ [(key, d, ts)]"
      using U(2) [OF o2] same C1 [OF sub] N(3) by (simp add: s f2)
    have inv': "g5_inv s"
      using U(1) [OF o2] c2 f2 mx len inv by (auto simp: s RSD555_VIDEO_FRAMES_def)
    obtain dropped where fr: "frames q = dropped @ kept" using suf by (auto simp: suffix_def)
    have hdk: "kept \<noteq> [] \<Longrightarrow> content h1 (hd kept) = content h (hd kept)"
      using sub N(4) by (cases kept) auto
    consider "kept = frames q" | "kept = []" "key" | "kept \<noteq> []" "fst (content h (hd kept))"
      using k inv N(3) hdk by auto
    then show ?thesis
    proof cases
      case 1
      then show ?thesis using Q inv' w wk N(3) by (auto simp: s intro!: gate_accept)
    next
      case 2
      then show ?thesis using Q inv' w wk N(3) fr
        by (auto simp: s intro!: gate_skip [where dropped = "map (content h) dropped" and kept = "[]"])
    next
      case 3
      then show ?thesis using Q inv' w wk N(3) fr
        by (auto simp: s hd_map intro!: gate_skip [where dropped = "map (content h) dropped" and kept = "map (content h) kept"])
    qed
  qed simp
qed

lemma g5_pop_law:
  assumes "g5_inv (q, h)"
  shows "g5_inv (fst (g5_exec G5Pop (q, h))) \<and>
    gate_step fst (g5_gate (q, h)) (g5_queued (q, h)) [] (snd (g5_exec G5Pop (q, h)))
      (g5_gate (fst (g5_exec G5Pop (q, h)))) (g5_queued (fst (g5_exec G5Pop (q, h))))"
proof (cases "frames q")
  case Nil
  with assms show ?thesis by (auto simp: rsd555_queue_pop_def intro!: gate_idle)
next
  case (Cons a fs)
  with assms have "owns h (add_mset a (mset fs))" by simp
  note U = owns_unref [OF this]
  have "map (content (rsd555_shared_frame_unref a h)) fs = map (content h) fs" using U(2) by simp
  with Cons assms U(1) show ?thesis
    by (auto simp: rsd555_queue_pop_def rsd555_frame_free_def simp del: map_eq_conv intro!: gate_idle)
qed

lemma g5_law:
  assumes "g5_inv s" and "g5_allocates p"
  shows "g5_inv (fst (g5_exec p s)) \<and>
    gate_step fst (g5_gate s) (g5_queued s) (g5_offered p) (snd (g5_exec p s))
      (g5_gate (fst (g5_exec p s))) (g5_queued (fst (g5_exec p s)))"
proof -
  obtain q h where s: "s = (q, h)" by force
  show ?thesis
  proof (cases p)
    case (G5Offer m1 m2 d ts nal key)
    have "snd (g5_exec p s) = []" using s G5Offer by (auto split: prod.splits option.splits)
    with g5_offer_law [OF assms(1) [unfolded s] refl] assms(2) s G5Offer show ?thesis
      by (simp del: g5_exec.simps g5_gate.simps g5_queued.simps g5_inv.simps)
  next
    case G5Pop
    then show ?thesis using g5_pop_law assms(1) s by simp
  qed
qed

lemma g5_offered_key: "(k, f) \<in> set (g5_offered p) \<Longrightarrow> fst f \<Longrightarrow> k"
  by (cases p) auto

interpretation g5: keyframe_gate g5_exec g5_offered g5_queued fst g5_gate g5_inv g5_allocates
  by unfold_locales (simp_all add: g5_law, fact g5_offered_key)

interpretation g5q: lossy_queue g5_exec "\<lambda>p. map snd (g5_offered p)" g5_queued "\<lambda>_. ()" g5_inv RSD555_VIDEO_FRAMES
proof
  fix s :: "frame_queue \<times> heap" and k p assume inv: "g5_inv s"
  obtain q h where s: "s = (q, h)" by force
  show "g5_inv (fst (g5_exec p s))"
    using g5_law [OF inv] g5_nomem [of q h p] inv s by (cases "g5_allocates p") auto
  show "length (g5_queued s) \<le> RSD555_VIDEO_FRAMES" using inv s by simp
  have "subseq (snd (g5_exec p s) @ g5_queued (fst (g5_exec p s))) (g5_queued s @ map snd (g5_offered p))"
  proof (cases "g5_allocates p")
    case True
    then show ?thesis using gate_step_subseq [OF conjunct2 [OF g5_law [OF inv True]]] by simp
  next
    case False
    with g5_nomem [of q h p] inv s have "snd (g5_exec p s) @ g5_queued (fst (g5_exec p s)) = g5_queued s" by simp
    then show ?thesis by (simp only:) (simp add: list_emb_prefix)
  qed
  then show "subseq (of_kind (\<lambda>_. ()) k (snd (g5_exec p s) @ g5_queued (fst (g5_exec p s))))
      (of_kind (\<lambda>_. ()) k (g5_queued s @ map snd (g5_offered p)))"
    by (rule subseq_of_kind)
qed

subsection \<open>Properties\<close>

text \<open>
  C3. As long as no source is destroyed between the reader's snapshot of the registered queues
  and its push to that queue, no interleaving of reads, pushes, pops, releases, creations and
  destructions accesses a freed frame or a destroyed queue, and every allocated frame has as
  reference count exactly the number of references the reader, the queues and the sources hold;
  so a frame nobody refers to is freed.
\<close>

theorem rsd555_no_use_after_free:
  assumes "race_free ps r5_init"
  shows "\<not> fault (hp (fold r5_step ps r5_init)) \<and>
    map_option refcnt (store (hp (fold r5_step ps r5_init)) a) = ref_counts (refs (fold r5_step ps r5_init)) a"
  using r5_run_inv [OF r5_inv_init assms] by (simp add: r5_inv_def owns_def)

definition r5_demo :: "r5_op list" where
  "r5_demo = [R5Create True 16 True, R5Read True [0, 0, 0, 1, 0x65] 7 5 True, R5Push True, R5Done, R5Pop 0, R5Destroy 0]"

theorem rsd555_no_use_after_free_witness:
  "race_free r5_demo r5_init \<and> \<not> fault (hp (fold r5_step r5_demo r5_init))"
proof -
  have "race_free r5_demo r5_init"
    by (simp add: r5_step_defs r5_demo_def r5_init_def RSD555_MAX_SOURCES_def rsd555_shared_frame_new_def
        rsd555_queue_push_ref_def rsd555_queue_init_def frame_is_key_def rsd555_shared_frame_ref_def
        rsd555_shared_frame_unref_def rsd555_queue_pop_def Let_def)
  from this rsd555_no_use_after_free [OF this] show ?thesis by blast
qed




end
