(* ===== verification/Mp4_Format.thy ===== *)
theory Mp4_Format
  imports Annexb_Format
begin

text \<open>
  The file format the recorder writes and the file server and the verifier read, stated
  once and independently of the code: boxes of the ISO base media format, length-prefixed
  samples, and the decoder configuration records that carry parameter sets.
\<close>

subsection \<open>Boxes\<close>

definition fourcc :: "string \<Rightarrow> byte list" where
  "fourcc cc = map of_char cc"

lemma length_fourcc [simp]: "length (fourcc cc) = length cc"
  by (simp add: fourcc_def)

lemma of_char_byte_inject: "(of_char c :: byte) = of_char d \<longleftrightarrow> c = d"
proof -
  have "(of_char c :: byte) = word_of_nat (of_char c)" for c
    by (simp only: of_nat_of_char)
  moreover have "unat (word_of_nat (of_char c) :: byte) = of_char c" for c
    using nat_of_char_less_256 [of c] by (rule unat_of_nat_u8)
  ultimately show ?thesis by (metis of_char_eq_iff)
qed

lemma fourcc_inject [simp]: "fourcc a = fourcc b \<longleftrightarrow> a = b"
  unfolding fourcc_def by (rule inj_map_eq_map) (simp add: inj_def of_char_byte_inject)

definition box :: "string \<Rightarrow> byte list \<Rightarrow> byte list" where
  "box cc payload = be32 (word_of_nat (8 + length payload)) @ fourcc cc @ payload"

definition fullbox :: "string \<Rightarrow> byte \<Rightarrow> u32 \<Rightarrow> byte list \<Rightarrow> byte list" where
  "fullbox cc version flags payload =
     box cc (be32 (push_bit 24 (ucast version) OR (flags AND 0x00FFFFFF)) @ payload)"

lemma length_box [simp]: "length (box cc payload) = 4 + length cc + length payload"
  by (simp add: box_def)

lemma length_fullbox [simp]: "length (fullbox cc v f payload) = 8 + length cc + length payload"
  by (simp add: fullbox_def)

subsection \<open>Length-prefixed samples\<close>

definition avcc :: "byte list list \<Rightarrow> byte list" where
  "avcc nals = concat (map (\<lambda>n. be32 (word_of_nat (length n)) @ n) nals)"

lemma avcc_simps [simp]:
  "avcc [] = []" "avcc (n # ns) = be32 (word_of_nat (length n)) @ n @ avcc ns"
  by (simp_all add: avcc_def)

lemma length_avcc_annexb4: "length (avcc ns) = length (annexb4 ns)"
  by (induction ns) simp_all

subsection \<open>Decoder configuration records\<close>

text \<open>A parameter set behind its 16-bit length.\<close>

definition set_entry :: "byte list \<Rightarrow> byte list" where
  "set_entry n = be16 (word_of_nat (length n)) @ n"

definition set_entries :: "byte list list \<Rightarrow> byte list" where
  "set_entries ns = concat (map set_entry ns)"

lemma set_entries_simps [simp]:
  "set_entries [] = []" "set_entries (n # ns) = be16 (word_of_nat (length n)) @ n @ set_entries ns"
  by (simp_all add: set_entries_def set_entry_def)

text \<open>\<open>avcC\<close>: profile, compatibility, level, 4-byte lengths, then SPS and PPS.\<close>

definition avcc_record :: "byte \<Rightarrow> byte \<Rightarrow> byte \<Rightarrow> byte list list \<Rightarrow> byte list list \<Rightarrow> byte list" where
  "avcc_record profile compatibility level spss ppss =
     [1, profile, compatibility, level, 0xFF, 0xE0 OR word_of_nat (length spss)] @ set_entries spss @
     [word_of_nat (length ppss)] @ set_entries ppss"

text \<open>\<open>hvcC\<close>: a 21-byte header, 4-byte lengths, then arrays of parameter sets by NAL unit type.\<close>

definition hvcc_array :: "byte \<times> byte list list \<Rightarrow> byte list" where
  "hvcc_array a = fst a # be16 (word_of_nat (length (snd a))) @ set_entries (snd a)"

definition hvcc_record :: "byte list \<Rightarrow> (byte \<times> byte list list) list \<Rightarrow> byte list" where
  "hvcc_record hdr arrays =
     hdr @ [0x0F, word_of_nat (length arrays)] @ concat (map hvcc_array arrays)"

subsection \<open>Walking boxes\<close>

text \<open>The sequence of complete boxes at the front of a byte string, as type and payload.\<close>

function boxes :: "byte list \<Rightarrow> (byte list \<times> byte list) list" where
  "boxes d =
     (if length d < 8 then []
      else
        let size = unat (rd32 d) in
        if size < 8 \<or> length d < size then []
        else (take 4 (drop 4 d), take (size - 8) (drop 8 d)) # boxes (drop size d))"
  by pat_completeness auto
termination
  by (relation "measure length") auto

declare boxes.simps [simp del]

lemma boxes_Nil [simp]: "boxes [] = []"
  by (subst boxes.simps) simp

lemma boxes_box [simp]:
  assumes "length cc = 4" and "8 + length p < 2 ^ 32"
  shows "boxes (box cc p @ rest) = (fourcc cc, p) # boxes rest"
proof -
  have "unat (rd32 (box cc p @ rest)) = 8 + length p"
    using assms(2) unat_of_nat_u32 [of "8 + length p"] by (simp add: box_def)
  moreover have "take 4 (drop 4 (box cc p @ rest)) = fourcc cc" "take (length p) (drop 8 (box cc p @ rest)) = p"
    "drop (8 + length p) (box cc p @ rest) = rest"
    using assms(1) by (simp_all add: box_def)
  ultimately show ?thesis
    using assms(1) by (subst boxes.simps) (simp add: Let_def)
qed

lemma boxes_box_Nil [simp]:
  "length cc = 4 \<Longrightarrow> 8 + length p < 2 ^ 32 \<Longrightarrow> boxes (box cc p) = [(fourcc cc, p)]"
  using boxes_box [of cc p "[]"] by simp

lemma boxes_fullbox [simp]:
  assumes "length cc = 4" and "12 + length p < 2 ^ 32"
  shows "boxes (fullbox cc v f p @ rest) =
    (fourcc cc, be32 (push_bit 24 (ucast v) OR (f AND 0x00FFFFFF)) @ p) # boxes rest"
  using assms by (simp add: fullbox_def)

definition children :: "string \<Rightarrow> byte list \<Rightarrow> byte list list" where
  "children cc d = map snd (filter (\<lambda>b. fst b = fourcc cc) (boxes d))"

subsection \<open>Trees of boxes\<close>

text \<open>
  The nesting of boxes, with the container types of the format opened up to a given depth.
  Bytes that the boxes at some level do not account for appear as a box without a type.
\<close>

datatype box_tree = Box "byte list" "box_tree list"

definition container_names :: "string list" where
  "container_names = [''moov'', ''trak'', ''mdia'', ''minf'', ''dinf'', ''stbl'', ''mvex'', ''moof'', ''traf'', ''mfra'']"

definition containers :: "byte list list" where
  "containers = map fourcc container_names"

lemma in_containers [simp]: "fourcc cc \<in> set containers \<longleftrightarrow> cc \<in> set container_names"
  by (auto simp: containers_def)

fun tree_of :: "nat \<Rightarrow> byte list \<Rightarrow> box_tree list" where
  "tree_of 0 d = []"
| "tree_of (Suc k) d =
     (let bs = boxes d;
          used = sum_list (map (\<lambda>b. 8 + length (snd b)) bs)
      in map (\<lambda>(c, p). Box c (if c \<in> set containers then tree_of k p else [])) bs @
         (if used < length d then [Box [] []] else []))"

text \<open>A byte string that is exactly a sequence of boxes.\<close>

definition tiled :: "byte list \<Rightarrow> bool" where
  "tiled d \<longleftrightarrow> length d = sum_list (map (\<lambda>b. 8 + length (snd b)) (boxes d))"

definition box_fits :: "byte list \<Rightarrow> bool" where
  "box_fits p \<longleftrightarrow> 8 + length p < 2 ^ 32"

lemma tiled_Nil [simp]: "tiled []"
  by (simp add: tiled_def)

lemma tiled_box [simp]:
  "length cc = 4 \<Longrightarrow> box_fits p \<Longrightarrow> tiled (box cc p @ rest) = tiled rest"
  by (simp add: tiled_def box_fits_def)

lemma tree_of_Nil [simp]: "tree_of k [] = []"
  by (cases k) simp_all

lemma tree_of_box:
  assumes "length cc = 4" and "box_fits p"
  shows "tree_of (Suc k) (box cc p @ rest) =
    Box (fourcc cc) (if fourcc cc \<in> set containers then tree_of k p else []) # tree_of (Suc k) rest"
  using assms by (simp add: Let_def box_fits_def)

subsection \<open>Reading a fragment\<close>

text \<open>
  What a player gets out of a fragment: for each track its decode time and its samples, with
  the bytes the track run's data offset and sizes point to. Offsets count from the start of
  the fragment's \<open>moof\<close> box.
\<close>

record track_run =
  tr_track :: u32
  tr_base :: u64
  tr_entries :: "(u32 \<times> u32 \<times> u32 \<times> u32) list"
  tr_samples :: "byte list list"

text \<open>An optional field of a track run entry.\<close>

definition run_field :: "u32 \<Rightarrow> u32 \<Rightarrow> byte list \<Rightarrow> u32 \<times> byte list" where
  "run_field flags fbit d = (if flags AND fbit \<noteq> 0 then (rd32 d, drop 4 d) else (0, d))"

fun run_entries :: "nat \<Rightarrow> u32 \<Rightarrow> byte list \<Rightarrow> (u32 \<times> u32 \<times> u32 \<times> u32) list" where
  "run_entries 0 flags d = []"
| "run_entries (Suc n) flags d =
     (let (duration, d1) = run_field flags 0x100 d;
          (size, d2) = run_field flags 0x200 d1;
          (sflags, d3) = run_field flags 0x400 d2;
          (cts, d4) = run_field flags 0x800 d3
      in (duration, size, sflags, cts) # run_entries n flags d4)"

fun cut :: "nat list \<Rightarrow> byte list \<Rightarrow> byte list list" where
  "cut [] d = []"
| "cut (n # ns) d = take n d # cut ns (drop n d)"

definition read_traf :: "byte list \<Rightarrow> byte list \<Rightarrow> track_run" where
  "read_traf frag traf =
     (let tfhd = hd (children ''tfhd'' traf);
          tfdt = hd (children ''tfdt'' traf);
          trun = hd (children ''trun'' traf);
          flags = rd32 trun AND 0x00FFFFFF;
          entries = run_entries (unat (rd32 (drop 4 trun))) flags (drop 12 trun)
      in \<lparr>tr_track = rd32 (drop 4 tfhd), tr_base = rd64 (drop 4 tfdt), tr_entries = entries,
          tr_samples = cut (map (\<lambda>(_, size, _). unat size) entries) (drop (unat (rd32 (drop 8 trun))) frag)\<rparr>)"

definition read_fragment :: "byte list \<Rightarrow> track_run list" where
  "read_fragment frag = map (read_traf frag) (children ''traf'' (hd (children ''moof'' frag)))"

lemma cut_concat: "cut (map length ds) (concat ds @ rest) = ds"
  by (induction ds) simp_all

lemma children_Nil [simp]: "children cc [] = []"
  by (simp add: children_def)

lemma children_box [simp]:
  assumes "length cc' = 4" and "8 + length p < 2 ^ 32"
  shows "children cc (box cc' p @ rest) = (if cc' = cc then p # children cc rest else children cc rest)"
  using assms by (simp add: children_def)

lemma children_box_Nil [simp]:
  "length cc' = 4 \<Longrightarrow> 8 + length p < 2 ^ 32 \<Longrightarrow> children cc (box cc' p) = (if cc' = cc then [p] else [])"
  using children_box [of cc' p cc "[]"] by simp

end
