(* ===== verification/Rfs_Mp4.thy ===== *)
theory Rfs_Mp4
  imports Mp4_Format
begin

text \<open>
  The file server's MP4 reader, \<^verbatim>\<open>rfs/rfs_mp4.c\<close>: the memory-mapped input it gives to libmov,
  the callbacks that collect tracks and samples, the decoder configuration parsers, and the
  conversion of a sample to Annex B. libmov is not part of the repository: the tracks it
  reports and the samples it reads are arguments of \<open>rfs_mp4_open\<close>. The model is the build
  without \<^verbatim>\<open>RAPTOR_MP3\<close>.

  A copy that would leave its buffer is the value \<open>Oob\<close>, so that the 32-bit sums the code
  compares with buffer sizes are checked against what they are meant to guard.
\<close>

datatype 'a c_result = Ret 'a | Oob

subsection \<open>Input from the mapped file\<close>

record mmap_io =
  io_data :: "byte list"
  io_pos :: int

definition mmap_read :: "nat \<Rightarrow> mmap_io \<Rightarrow> (byte list option \<times> mmap_io) c_result" where
  "mmap_read bytes io =
     (if io_pos io < 0 \<or> int (length (io_data io)) < (io_pos io + int bytes) mod 2 ^ 64 then Ret (None, io)
      else if length (io_data io) < nat (io_pos io) + bytes then Oob
      else Ret (Some (take bytes (drop (nat (io_pos io)) (io_data io))), io\<lparr>io_pos := io_pos io + int bytes\<rparr>))"

definition mmap_write :: "byte list \<Rightarrow> mmap_io \<Rightarrow> int \<times> mmap_io" where
  "mmap_write buf io = (-1, io)"

definition mmap_seek :: "int \<Rightarrow> mmap_io \<Rightarrow> mmap_io" where
  "mmap_seek offset io =
     (if 0 \<le> offset then io\<lparr>io_pos := offset\<rparr>
      else io\<lparr>io_pos := int (length (io_data io)) + offset\<rparr>)"

definition mmap_tell :: "mmap_io \<Rightarrow> int" where
  "mmap_tell io = io_pos io"

subsection \<open>Decoder configuration\<close>

text \<open>The loop over counted parameter sets; the state is the input index and the output.\<close>

fun cfg_sets :: "nat \<Rightarrow> byte list \<Rightarrow> nat \<Rightarrow> nat \<times> byte list \<Rightarrow> (nat \<times> byte list) option" where
  "cfg_sets 0 extra out_cap s = Some s"
| "cfg_sets (Suc i) extra out_cap (idx, out) =
     (if idx + 2 \<le> length extra then
        let len = unat (rd16 (drop idx extra));
            idx1 = idx + 2
        in if length extra < idx1 + len \<or> out_cap < length out + 4 + len then None
           else cfg_sets i extra out_cap (idx1 + len, out @ [0, 0, 0, 1] @ take len (drop idx1 extra))
      else Some (idx, out))"

text \<open>Length size, profile and level are set as soon as the record is long enough.\<close>

record stream_cfg =
  nal_length_size :: nat
  profile :: byte
  level :: byte

definition parse_avcc_config :: "byte list \<Rightarrow> nat \<Rightarrow> stream_cfg \<Rightarrow> byte list option \<times> stream_cfg" where
  "parse_avcc_config extra out_cap c =
     (if length extra < 7 then (None, c)
      else
        let c1 = c\<lparr>nal_length_size := unat (extra ! 4 AND 3) + 1, profile := extra ! 1, level := extra ! 3\<rparr>;
            sps_count = unat (extra ! 5 AND 0x1F)
        in case cfg_sets sps_count extra out_cap (6, []) of
             None \<Rightarrow> (None, c1)
           | Some (idx, out) \<Rightarrow>
               if length extra \<le> idx then (Some out, c1)
               else (case cfg_sets (unat (extra ! idx)) extra out_cap (idx + 1, out) of
                       None \<Rightarrow> (None, c1)
                     | Some (_, out1) \<Rightarrow> (Some out1, c1)))"

fun hvcc_arrays :: "nat \<Rightarrow> byte list \<Rightarrow> nat \<Rightarrow> nat \<times> byte list \<Rightarrow> byte list option" where
  "hvcc_arrays 0 extra out_cap (idx, out) = Some out"
| "hvcc_arrays (Suc a) extra out_cap (idx, out) =
     (if idx + 3 \<le> length extra then
        let idx1 = idx + 1;
            count = unat (rd16 (drop idx1 extra))
        in case cfg_sets count extra out_cap (idx1 + 2, out) of
             None \<Rightarrow> None
           | Some s \<Rightarrow> hvcc_arrays a extra out_cap s
      else Some out)"

definition parse_hvcc_config :: "byte list \<Rightarrow> nat \<Rightarrow> stream_cfg \<Rightarrow> byte list option \<times> stream_cfg" where
  "parse_hvcc_config extra out_cap c =
     (if length extra < 23 then (None, c)
      else (hvcc_arrays (unat (extra ! 22)) extra out_cap (23, []),
            c\<lparr>nal_length_size := unat (extra ! 21 AND 3) + 1, profile := extra ! 1 AND 0x1F,
              level := extra ! 12\<rparr>))"

subsection \<open>Tracks and samples\<close>

datatype mov_object = MOV_H264 | MOV_H265 | MOV_AAC | MOV_OPUS | MOV_G711a | MOV_G711u | MOV_other byte

datatype rss_codec = RSS_CODEC_H264 | RSS_CODEC_H265

datatype rss_nal = RSS_NAL_H264_IDR | RSS_NAL_H264_SLICE | RSS_NAL_H265_IDR | RSS_NAL_H265_SLICE | NAL_none

record rfs_mp4_frame =
  file_offset :: nat
  frame_length :: nat
  pts_us :: int
  nal_type :: rss_nal
  is_key :: bool

definition RFS_MP4_MAX_FRAMES :: nat where "RFS_MP4_MAX_FRAMES = 65536"
definition RFS_MP4_MAX_AUDIO_FRAMES :: nat where "RFS_MP4_MAX_AUDIO_FRAMES = 65536 * 4"
definition RFS_MP4_MAX_FILE_SIZE :: nat where "RFS_MP4_MAX_FILE_SIZE = 256 * 1024 * 1024"

record rfs_mp4_ctx =
  video_frames :: "rfs_mp4_frame list"
  video_codec :: rss_codec
  v_width :: u32
  v_height :: u32
  stream :: stream_cfg
  fps :: int
  codec_config :: "byte list"
  audio_frames :: "rfs_mp4_frame list"
  audio_codec_id :: int
  audio_object :: mov_object
  audio_sample_rate :: int
  audio_channels :: int
  audio_extra :: "byte list"
  file_data :: "byte list"

record rfs_demux =
  dm_ctx :: rfs_mp4_ctx
  video_track :: u32
  audio_track :: u32
  has_video :: bool
  has_audio :: bool

text \<open>Both configuration buffers are on the stack; the heap copy may fail.\<close>

definition on_video :: "bool \<Rightarrow> u32 \<Rightarrow> mov_object \<Rightarrow> int \<Rightarrow> int \<Rightarrow> byte list \<Rightarrow> rfs_demux \<Rightarrow> rfs_demux" where
  "on_video malloc_ok track object width height extra d =
     (if has_video d then d
      else
        let ctx = (dm_ctx d)\<lparr>v_width := word_of_int width, v_height := word_of_int height\<rparr>;
            store = (\<lambda>r c. let c1 = c\<lparr>stream := snd r\<rparr> in
              case fst r of Some config \<Rightarrow> if malloc_ok then c1\<lparr>codec_config := config\<rparr> else c1 | None \<Rightarrow> c1);
            ctx1 = (case object of
                MOV_H264 \<Rightarrow> store (parse_avcc_config extra 1024 (stream ctx)) (ctx\<lparr>video_codec := RSS_CODEC_H264\<rparr>)
              | MOV_H265 \<Rightarrow> store (parse_hvcc_config extra 2048 (stream ctx)) (ctx\<lparr>video_codec := RSS_CODEC_H265\<rparr>)
              | _ \<Rightarrow> ctx)
        in d\<lparr>has_video := True, video_track := track, dm_ctx := ctx1\<rparr>)"

definition audio_codec_of :: "mov_object \<Rightarrow> int option" where
  "audio_codec_of object = (case object of
       MOV_AAC \<Rightarrow> Some 97 | MOV_OPUS \<Rightarrow> Some 111 | MOV_G711a \<Rightarrow> Some 8 | MOV_G711u \<Rightarrow> Some 0 | _ \<Rightarrow> None)"

definition on_audio :: "bool \<Rightarrow> u32 \<Rightarrow> mov_object \<Rightarrow> int \<Rightarrow> int \<Rightarrow> byte list \<Rightarrow> rfs_demux \<Rightarrow> rfs_demux" where
  "on_audio malloc_ok track object channel_count sample_rate extra d =
     (if has_audio d then d
      else case audio_codec_of object of
        None \<Rightarrow> d
      | Some codec_id \<Rightarrow>
          let ctx = (dm_ctx d)\<lparr>audio_object := object, audio_codec_id := codec_id,
                audio_sample_rate := sample_rate, audio_channels := channel_count\<rparr>;
              ctx1 = (if extra \<noteq> [] \<and> malloc_ok then ctx\<lparr>audio_extra := extra\<rparr> else ctx)
          in d\<lparr>has_audio := True, audio_track := track, dm_ctx := ctx1\<rparr>)"

text \<open>
  One sample: its track, its length, the cursor of the input after libmov read it, its
  presentation time in milliseconds and whether it is a keyframe.
\<close>

record mov_sample =
  ms_track :: u32
  ms_bytes :: nat
  ms_pos :: int
  ms_pts :: int
  ms_key :: bool

definition on_read :: "mov_sample \<Rightarrow> rfs_demux \<Rightarrow> rfs_demux" where
  "on_read smp d =
     (let ctx = dm_ctx d;
          bytes = ms_bytes smp;
          offset = nat (ms_pos smp - int bytes)
      in if ms_pos smp < int bytes then d
         else if length (file_data ctx) < offset + bytes then d
         else if has_video d \<and> ms_track smp = video_track d then
           if RFS_MP4_MAX_FRAMES \<le> length (video_frames ctx) then d
           else
             let f = \<lparr>file_offset = offset, frame_length = bytes, pts_us = ms_pts smp * 1000,
                   nal_type = (if video_codec ctx = RSS_CODEC_H265
                               then if ms_key smp then RSS_NAL_H265_IDR else RSS_NAL_H265_SLICE
                               else if ms_key smp then RSS_NAL_H264_IDR else RSS_NAL_H264_SLICE),
                   is_key = ms_key smp\<rparr>
             in d\<lparr>dm_ctx := ctx\<lparr>video_frames := video_frames ctx @ [f]\<rparr>\<rparr>
         else if has_audio d \<and> ms_track smp = audio_track d then
           if RFS_MP4_MAX_AUDIO_FRAMES \<le> length (audio_frames ctx) then d
           else
             let f = \<lparr>file_offset = offset, frame_length = bytes, pts_us = ms_pts smp * 1000,
                   nal_type = NAL_none, is_key = False\<rparr>
             in d\<lparr>dm_ctx := ctx\<lparr>audio_frames := audio_frames ctx @ [f]\<rparr>\<rparr>
         else d)"

text \<open>The read loop ends with the samples, or as soon as both indexes are full.\<close>

fun read_samples :: "mov_sample list \<Rightarrow> rfs_demux \<Rightarrow> rfs_demux" where
  "read_samples [] d = d"
| "read_samples (s # ss) d =
     (let d1 = on_read s d in
      if RFS_MP4_MAX_FRAMES \<le> length (video_frames (dm_ctx d1)) \<and>
         RFS_MP4_MAX_AUDIO_FRAMES \<le> length (audio_frames (dm_ctx d1)) then d1
      else read_samples ss d1)"

definition detect_fps :: "rfs_mp4_frame list \<Rightarrow> int" where
  "detect_fps vs =
     (if 2 \<le> length vs then
        let total_dur = pts_us (vs ! (length vs - 1)) - pts_us (vs ! 0);
            f = (if 0 < total_dur
                 then sint (word_of_int (cdiv (int (length vs - 1) * 1000000 + cdiv total_dur 2) total_dur) :: u32)
                 else 0)
        in if f \<le> 0 then 30 else f
      else 30)"

datatype mov_track =
    VideoTrack bool u32 mov_object int int "byte list"
  | AudioTrack bool u32 mov_object int int "byte list"

fun on_track :: "mov_track \<Rightarrow> rfs_demux \<Rightarrow> rfs_demux" where
  "on_track (VideoTrack ok t obj w h extra) d = on_video ok t obj w h extra d"
| "on_track (AudioTrack ok t obj ch rate extra) d = on_audio ok t obj ch rate extra d"

definition rfs_mp4_zero :: rfs_mp4_ctx where
  "rfs_mp4_zero = \<lparr>video_frames = [], video_codec = RSS_CODEC_H264, v_width = 0, v_height = 0,
     stream = \<lparr>nal_length_size = 0, profile = 0, level = 0\<rparr>, fps = 0, codec_config = [],
     audio_frames = [], audio_codec_id = 0, audio_object = MOV_other 0, audio_sample_rate = 0,
     audio_channels = 0, audio_extra = [], file_data = []\<rparr>"

definition rfs_mp4_close :: "rfs_mp4_ctx \<Rightarrow> rfs_mp4_ctx" where
  "rfs_mp4_close ctx = rfs_mp4_zero"

text \<open>
  Opening: \<open>file\<close> is \<^const>\<open>None\<close> when it cannot be opened or mapped, \<open>mov_ok\<close> says that libmov
  accepted it and \<open>alloc_ok\<close> that the index and sample buffers could be allocated.
\<close>

definition rfs_mp4_open :: "byte list option \<Rightarrow> bool \<Rightarrow> bool \<Rightarrow> mov_track list \<Rightarrow> mov_sample list \<Rightarrow>
    int \<times> rfs_mp4_ctx" where
  "rfs_mp4_open file mov_ok alloc_ok tracks samples =
     (case file of
        None \<Rightarrow> (-1, rfs_mp4_zero)
      | Some bs \<Rightarrow>
          if bs = [] \<or> RFS_MP4_MAX_FILE_SIZE < length bs then (-1, rfs_mp4_zero)
          else
            let ctx = rfs_mp4_zero\<lparr>file_data := bs\<rparr>
            in if \<not> mov_ok \<or> \<not> alloc_ok then (-1, rfs_mp4_close ctx)
               else
                 let d = fold on_track tracks \<lparr>dm_ctx = ctx, video_track = 0, audio_track = 0,
                           has_video = False, has_audio = False\<rparr>
                 in if \<not> has_video d \<and> \<not> has_audio d then (-1, rfs_mp4_close (dm_ctx d))
                    else
                      let c = dm_ctx (read_samples samples d)
                      in (0, c\<lparr>fps := detect_fps (video_frames c)\<rparr>))"

subsection \<open>A sample as Annex B\<close>

text \<open>The big-endian length field, of the size the configuration record gave.\<close>

definition rd_len :: "byte list \<Rightarrow> u32" where
  "rd_len bs = foldl (\<lambda>n b. push_bit 8 n OR ucast b) 0 bs"

function to_annexb_loop :: "nat \<Rightarrow> byte list \<Rightarrow> nat \<Rightarrow> nat \<Rightarrow> byte list \<Rightarrow> byte list option c_result" where
  "to_annexb_loop lsize src out_cap spos out =
     (if spos + lsize \<le> length src then
        let nal_len = unat (rd_len (take lsize (drop spos src)));
            sp = spos + lsize
        in if length src < wrap32 (sp + nal_len) then Ret (Some out)
           else if out_cap < wrap32 (length out + 4 + nal_len) then Ret None
           else if length src < sp + nal_len \<or> out_cap < length out + 4 + nal_len then Oob
           else to_annexb_loop lsize src out_cap (sp + nal_len)
                  (out @ [0, 0, 0, 1] @ take nal_len (drop sp src))
      else Ret (Some out))"
  by pat_completeness auto
termination
  by (relation "measure (\<lambda>(l, s, cap, p, out). cap - length out)") auto

declare to_annexb_loop.simps [simp del]

text \<open>The return value and the contents of \<^verbatim>\<open>out\<close>.\<close>

definition rfs_mp4_to_annexb :: "rfs_mp4_ctx \<Rightarrow> rfs_mp4_frame \<Rightarrow> nat \<Rightarrow> (int \<times> byte list) c_result" where
  "rfs_mp4_to_annexb ctx frame out_cap =
     (if length (file_data ctx) < file_offset frame + frame_length frame then Ret (-1, [])
      else
        let src = take (frame_length frame) (drop (file_offset frame) (file_data ctx))
        in if is_key frame \<and> codec_config ctx \<noteq> [] \<and> out_cap < length (codec_config ctx) then Ret (-1, [])
           else
             let out = (if is_key frame then codec_config ctx else [])
             in case to_annexb_loop (nal_length_size (stream ctx)) src out_cap 0 out of
                  Oob \<Rightarrow> Oob
                | Ret None \<Rightarrow> Ret (-1, [])
                | Ret (Some res) \<Rightarrow> Ret (sint (word_of_nat (length res) :: u32), res))"


subsection \<open>Recognising a container by its name\<close>

definition strrchr_dot :: "string \<Rightarrow> string option" where
  "strrchr_dot path =
     (if CHR ''.'' \<in> set path then Some (CHR ''.'' # rev (takeWhile (\<lambda>c. c \<noteq> CHR ''.'') (rev path))) else None)"

definition to_lower :: "char \<Rightarrow> char" where
  "to_lower c = (let n = (of_char c :: nat) in if 65 \<le> n \<and> n \<le> 90 then char_of (n + 32) else c)"

definition strcaseeq :: "string \<Rightarrow> string \<Rightarrow> bool" where
  "strcaseeq a b \<longleftrightarrow> map to_lower a = map to_lower b"

definition rfs_mp4_is_container :: "string \<Rightarrow> bool" where
  "rfs_mp4_is_container path =
     (case strrchr_dot path of
        None \<Rightarrow> False
      | Some dot \<Rightarrow> strcaseeq dot ''.mp4'' \<or> strcaseeq dot ''.mov'' \<or> strcaseeq dot ''.m4v'' \<or> strcaseeq dot ''.m4a'')"

subsection \<open>Reading back decoder configurations\<close>

lemma take_drop_mid: "take (length n) (drop (length pre) (pre @ n @ rest)) = n"
  by simp

lemma cfg_sets_entries:
  assumes "list_all (\<lambda>n. length n < 2 ^ 16) ns" and "length out \<le> cap"
  shows "cfg_sets (length ns) (pre @ set_entries ns @ rest) cap (length pre, out) =
    (if length out + length (annexb4 ns) \<le> cap
     then Some (length pre + length (set_entries ns), out @ annexb4 ns) else None)"
  using assms
proof (induction ns arbitrary: pre out)
  case (Cons n ns)
  let ?e = "pre @ set_entries (n # ns) @ rest"
  let ?pre = "pre @ be16 (word_of_nat (length n))"
  have len: "unat (rd16 (drop (length pre) ?e)) = length n"
    using Cons.prems by (simp add: unat_of_nat_u16)
  have e: "?e = ?pre @ n @ set_entries ns @ rest" by simp
  have idx: "length pre + 2 = length ?pre" by simp
  have fits: "\<not> length ?e < length pre + 2 + length n" by simp
  have nal: "take (length n) (drop (length pre + 2) ?e) = n"
    unfolding e idx by (rule take_drop_mid)
  show ?case
  proof (cases "length out + 4 + length n \<le> cap")
    case True
    have "cfg_sets (length (n # ns)) ?e cap (length pre, out) =
        cfg_sets (length ns) ?e cap (length (?pre @ n), out @ [0, 0, 0, 1] @ n)"
      using True len fits nal by (simp add: Let_def del: set_entries_simps)
    moreover have "?e = (?pre @ n) @ set_entries ns @ rest" by simp
    ultimately show ?thesis
      using Cons.IH [of "out @ [0, 0, 0, 1] @ n" "?pre @ n"] Cons.prems True by (simp add: add.assoc)
  next
    case False
    then show ?thesis
      using len fits by (simp add: Let_def del: set_entries_simps)
  qed
qed simp

lemma count5: "k < 32 \<Longrightarrow> unat ((0xE0 OR word_of_nat k) AND 0x1F :: byte) = k"
proof -
  assume k: "k < 32"
  have m: "(0x1F :: byte) = mask 5" by (simp add: mask_eq_exp_minus_1)
  have "(0xE0 OR word_of_nat k) AND 0x1F = (0xE0 AND 0x1F) OR (take_bit 5 (word_of_nat k) :: byte)"
    unfolding m take_bit_eq_mask by (simp only: bit.conj_disj_distrib2)
  also have "\<dots> = word_of_nat k"
    using k by (simp add: take_bit_of_nat take_bit_nat_eq_self)
  finally show ?thesis using k by (simp add: unat_of_nat_u8)
qed

text \<open>
  C22. Reading back an \<open>avcC\<close> record gives the Annex B form of all its parameter sets in
  order, with the record's profile, level and 4-byte sample lengths; a buffer that is too
  small is refused and nothing is written past it.
\<close>

theorem avcc_config_roundtrip:
  fixes spss ppss :: "byte list list"
  assumes "list_all (\<lambda>n. length n < 2 ^ 16) (spss @ ppss)"
    and "length spss < 32" and "length ppss < 256"
  shows "parse_avcc_config (avcc_record p q l spss ppss) cap c =
    (if length (annexb4 (spss @ ppss)) \<le> cap then Some (annexb4 (spss @ ppss)) else None,
     c\<lparr>nal_length_size := 4, profile := p, level := l\<rparr>)"
proof -
  define hdr where "hdr = [1, p, q, l, 0xFF, 0xE0 OR word_of_nat (length spss) :: byte]"
  define e where "e = avcc_record p q l spss ppss"
  define pre where "pre = hdr @ set_entries spss @ [word_of_nat (length ppss)]"
  have e1: "e = hdr @ set_entries spss @ (word_of_nat (length ppss) # set_entries ppss)"
    and e2: "e = pre @ set_entries ppss @ []"
    by (simp_all add: e_def avcc_record_def hdr_def pre_def)
  have hdr: "length hdr = 6" by (simp add: hdr_def)
  have len: "\<not> length e < 7" by (simp add: e1 hdr)
  have nth: "e ! Suc 0 = p" "e ! 3 = l" "e ! 4 = 0xFF" "e ! 5 = 0xE0 OR word_of_nat (length spss)"
    by (simp_all add: e1 hdr_def)
  have idx: "length pre = 6 + length (set_entries spss) + 1" by (simp add: pre_def hdr)
  have cnt: "e ! (6 + length (set_entries spss)) = word_of_nat (length ppss)"
    by (simp add: e1 hdr nth_append)
  have in_e: "\<not> length e \<le> 6 + length (set_entries spss)"
    by (simp add: e1 hdr)
  have s1: "cfg_sets (length spss) e cap (6, []) =
      (if length (annexb4 spss) \<le> cap then Some (6 + length (set_entries spss), annexb4 spss) else None)"
    using cfg_sets_entries [of spss "[]" cap hdr] assms(1) by (simp add: e1 hdr)
  have s2: "cfg_sets (length ppss) e cap (6 + length (set_entries spss) + 1, annexb4 spss) =
      (if length (annexb4 spss) + length (annexb4 ppss) \<le> cap
       then Some (length pre + length (set_entries ppss), annexb4 spss @ annexb4 ppss) else None)"
    if "length (annexb4 spss) \<le> cap"
    using cfg_sets_entries [of ppss "annexb4 spss" cap pre "[]"] assms(1) that
    by (simp only: e2 idx list_all_append)
  have "unat (e ! 5 AND 0x1F) = length spss"
    unfolding nth using assms(2) by (rule count5)
  moreover have "unat (e ! 4 AND 3) + 1 = 4" by (simp add: nth)
  moreover have "unat (e ! (6 + length (set_entries spss))) = length ppss"
    using assms(3) by (simp add: cnt unat_of_nat_u8)
  ultimately show ?thesis
    unfolding e_def [symmetric] parse_avcc_config_def
    using len in_e s1 s2 by (simp add: Let_def nth)
qed

theorem avcc_config_roundtrip_witness:
  "fst (parse_avcc_config (avcc_record 100 0 40 [[0x67, 100, 0, 40]] [[0x68, 3]]) 1024
      \<lparr>nal_length_size = 0, profile = 0, level = 0\<rparr>) = Some [0, 0, 0, 1, 0x67, 100, 0, 40, 0, 0, 0, 1, 0x68, 3]"
  using avcc_config_roundtrip [of "[[0x67, 100, 0, 40]]" "[[0x68, 3]]" 100 0 40 1024] by simp

lemma hvcc_arrays_entries:
  assumes "list_all (\<lambda>a. length (snd a) < 2 ^ 16 \<and> list_all (\<lambda>n. length n < 2 ^ 16) (snd a)) as"
    and "length out \<le> cap"
  shows "hvcc_arrays (length as) (pre @ concat (map hvcc_array as)) cap (length pre, out) =
    (if length out + length (annexb4 (concat (map snd as))) \<le> cap
     then Some (out @ annexb4 (concat (map snd as))) else None)"
  using assms
proof (induction as arbitrary: pre out)
  case (Cons a as)
  obtain t ns where a: "a = (t, ns)" by (cases a)
  define rest where "rest = concat (map hvcc_array as)"
  define e where "e = pre @ concat (map hvcc_array (a # as))"
  define p1 where "p1 = pre @ t # be16 (word_of_nat (length ns))"
  have e1: "e = p1 @ set_entries ns @ rest" and e2: "e = (p1 @ set_entries ns) @ rest"
    and e3: "e = (pre @ [t]) @ be16 (word_of_nat (length ns)) @ set_entries ns @ rest"
    by (simp_all add: e_def p1_def rest_def a hvcc_array_def)
  have p1: "length p1 = length pre + 1 + 2" by (simp add: p1_def)
  have cnt: "unat (rd16 (drop (length pre + 1) e)) = length ns"
    using Cons.prems by (simp add: e3 a unat_of_nat_u16)
  have lt: "length pre + 3 \<le> length e" by (simp add: e1 p1)
  have sets: "cfg_sets (length ns) e cap (length pre + 1 + 2, out) =
      (if length out + length (annexb4 ns) \<le> cap
       then Some (length (p1 @ set_entries ns), out @ annexb4 ns) else None)"
    using cfg_sets_entries [of ns out cap p1 rest] Cons.prems by (simp add: e1 p1 a)
  have IH: "hvcc_arrays (length as) e cap (length (p1 @ set_entries ns), out @ annexb4 ns) =
      (if length (out @ annexb4 ns) + length (annexb4 (concat (map snd as))) \<le> cap
       then Some ((out @ annexb4 ns) @ annexb4 (concat (map snd as))) else None)"
    if "length out + length (annexb4 ns) \<le> cap"
    using Cons.IH [of "out @ annexb4 ns" "p1 @ set_entries ns"] Cons.prems that
    by (simp only: e2 rest_def list.pred_inject length_append)
  show ?case
    unfolding e_def [symmetric] using lt cnt sets IH by (simp add: Let_def a)
qed simp

text \<open>
  C23. Reading back an \<open>hvcC\<close> record gives the Annex B form of the parameter sets of all its
  arrays in order, with 4-byte sample lengths.
\<close>

theorem hvcc_config_roundtrip:
  fixes arrays :: "(byte \<times> byte list list) list"
  assumes "list_all (\<lambda>a. length (snd a) < 2 ^ 16 \<and> list_all (\<lambda>n. length n < 2 ^ 16) (snd a)) arrays"
    and "length arrays < 256" and "length hdr = 21"
  defines "sets \<equiv> annexb4 (concat (map snd arrays))"
  shows "parse_hvcc_config (hvcc_record hdr arrays) cap c =
    (if length sets \<le> cap then Some sets else None,
     c\<lparr>nal_length_size := 4, profile := hdr ! 1 AND 0x1F, level := hdr ! 12\<rparr>)"
proof -
  define pre where "pre = hdr @ [0x0F, word_of_nat (length arrays)]"
  have e: "hvcc_record hdr arrays = pre @ concat (map hvcc_array arrays)"
    by (simp add: pre_def hvcc_record_def)
  have pre: "length pre = 23" using assms(3) by (simp add: pre_def)
  have nth: "(pre @ xs) ! Suc 0 = hdr ! Suc 0" "(pre @ xs) ! 12 = hdr ! 12" "(pre @ xs) ! 21 = 0x0F"
    "(pre @ xs) ! 22 = word_of_nat (length arrays)" for xs
    using assms(3) by (simp_all add: pre_def nth_append)
  show ?thesis
    unfolding parse_hvcc_config_def e
    using hvcc_arrays_entries [OF assms(1), of "[]" cap pre] assms(2)
    by (simp add: pre nth sets_def unat_of_nat_u8)
qed

theorem hvcc_config_roundtrip_witness:
  "fst (parse_hvcc_config (hvcc_record (replicate 21 1) [(32, [[0x40, 1]]), (33, [[0x42, 1, 1]])]) 2048
      \<lparr>nal_length_size = 0, profile = 0, level = 0\<rparr>) = Some [0, 0, 0, 1, 0x40, 1, 0, 0, 0, 1, 0x42, 1, 1]"
  using hvcc_config_roundtrip [of "[(32, [[0x40, 1]]), (33, [[0x42, 1, 1]])]" "replicate 21 1" 2048] by simp

subsection \<open>Reading back samples\<close>

lemma rd_len_be32: "rd_len (be32 v) = v"
proof -
  have "rd_len (be32 v) = rd32 (be32 v)"
    by (simp add: rd_len_def rd32_def be32_def push_bit_or or.assoc)
  then show ?thesis by simp
qed

lemma to_annexb_loop_avcc:
  assumes "length (avcc ns) + length pre < 2 ^ 31" and "cap < 2 ^ 31" and "length out \<le> cap"
  shows "to_annexb_loop 4 (pre @ avcc ns) cap (length pre) out =
    Ret (if length out + length (annexb4 ns) \<le> cap then Some (out @ annexb4 ns) else None)"
  using assms
proof (induction ns arbitrary: pre out)
  case Nil
  then show ?case by (subst to_annexb_loop.simps) simp
next
  case (Cons n ns)
  let ?s = "pre @ avcc (n # ns)" and ?p = "pre @ be32 (word_of_nat (length n))"
  have len: "unat (rd_len (take 4 (drop (length pre) ?s))) = length n"
    using Cons.prems by (simp add: rd_len_be32 unat_of_nat_u32)
  have s: "?s = ?p @ n @ avcc ns" and s2: "?s = (?p @ n) @ avcc ns" by simp_all
  have p: "length pre + 4 = length ?p" by simp
  have nal: "take (length n) (drop (length pre + 4) ?s) = n"
    unfolding s p by (rule take_drop_mid)
  have w: "wrap32 (length pre + 4 + length n) = length pre + 4 + length n"
    "wrap32 (length out + 4 + length n) = length out + 4 + length n"
    using Cons.prems by simp_all
  have l: "length pre + 4 \<le> length ?s" "\<not> length ?s < length pre + 4 + length n" by simp_all
  show ?case
  proof (cases "length out + 4 + length n \<le> cap")
    case True
    have "to_annexb_loop 4 ?s cap (length pre) out =
        to_annexb_loop 4 ?s cap (length (?p @ n)) (out @ [0, 0, 0, 1] @ n)"
      using True len nal w l
      by (subst to_annexb_loop.simps) (simp add: Let_def add.assoc del: avcc_simps)
    then show ?thesis
      using Cons.IH [of "?p @ n" "out @ [0, 0, 0, 1] @ n"] Cons.prems True
      unfolding s2 by (simp add: add.assoc)
  next
    case False
    then have "to_annexb_loop 4 ?s cap (length pre) out = Ret None"
      using len w l by (subst to_annexb_loop.simps) (simp add: Let_def del: avcc_simps)
    then show ?thesis using False by simp
  qed
qed

text \<open>
  C21. A sample of length-prefixed units is published as the same units behind start codes,
  with the parameter sets of the track in front of a keyframe; the call returns the length
  of the result, or \<open>-1\<close> when it does not fit.
\<close>

theorem mp4_to_annexb_units:
  fixes ns :: "byte list list" and out_cap :: nat
  assumes "file_offset f + frame_length f \<le> length (file_data ctx)"
    and "take (frame_length f) (drop (file_offset f) (file_data ctx)) = avcc ns"
    and "nal_length_size (stream ctx) = 4"
    and "frame_length f < 2 ^ 31" and "out_cap < 2 ^ 31"
  defines "out \<equiv> (if is_key f then codec_config ctx else []) @ annexb4 ns"
  shows "rfs_mp4_to_annexb ctx f out_cap =
    Ret (if length out \<le> out_cap then (int (length out), out) else (-1, []))"
proof -
  have "length (avcc ns) = frame_length f"
    using assms(1) by (simp flip: assms(2))
  then have loop: "to_annexb_loop 4 (avcc ns) out_cap 0 o' =
      Ret (if length (o' @ annexb4 ns) \<le> out_cap then Some (o' @ annexb4 ns) else None)"
    if "length o' \<le> out_cap" for o'
    using to_annexb_loop_avcc [of ns "[]" out_cap o'] assms(4,5) that by simp
  show ?thesis
  proof (cases "is_key f \<and> out_cap < length (codec_config ctx)")
    case True
    then have "codec_config ctx \<noteq> []" by auto
    with True show ?thesis
      using assms(1) by (simp add: rfs_mp4_to_annexb_def Let_def out_def)
  next
    case False
    have "to_annexb_loop 4 (avcc ns) out_cap 0 (if is_key f then codec_config ctx else []) =
        Ret (if length out \<le> out_cap then Some out else None)"
      unfolding out_def using False by (intro loop) auto
    moreover have "length out \<le> out_cap \<Longrightarrow> sint (word_of_nat (length out) :: u32) = int (length out)"
      using assms(5) by (intro sint_of_nat_u32) simp
    ultimately show ?thesis
      using assms(1,3) False
      by (auto simp: rfs_mp4_to_annexb_def Let_def assms(2) )
  qed
qed

definition frame_in_file :: "rfs_mp4_ctx \<Rightarrow> rfs_mp4_frame \<Rightarrow> bool" where
  "frame_in_file ctx f \<longleftrightarrow> file_offset f + frame_length f \<le> length (file_data ctx)"

definition demo_ctx :: "byte list \<Rightarrow> rfs_mp4_ctx" where
  "demo_ctx bs = rfs_mp4_zero\<lparr>file_data := bs, codec_config := [0, 0, 0, 1, 0x67],
     stream := \<lparr>nal_length_size = 4, profile = 100, level = 40\<rparr>\<rparr>"

definition demo_frame :: "nat \<Rightarrow> nat \<Rightarrow> rfs_mp4_frame" where
  "demo_frame off len = \<lparr>file_offset = off, frame_length = len, pts_us = 0,
     nal_type = RSS_NAL_H264_IDR, is_key = True\<rparr>"

lemmas demo_defs = demo_ctx_def demo_frame_def rfs_mp4_zero_def

theorem mp4_to_annexb_units_witness:
  "rfs_mp4_to_annexb (demo_ctx [9, 0, 0, 0, 2, 0x65, 7]) (demo_frame 1 6) 100 =
    Ret (11, [0, 0, 0, 1, 0x67, 0, 0, 0, 1, 0x65, 7])"
proof -
  have "take 6 (drop 1 [9, 0, 0, 0, 2, 0x65, 7]) = avcc [[0x65, 7]]"
    by (simp add: be32_def)
  then show ?thesis
    using mp4_to_annexb_units [of "demo_frame 1 6" "demo_ctx [9, 0, 0, 0, 2, 0x65, 7]" "[[0x65, 7]]" 100]
    by (simp add: demo_defs)
qed

text \<open>
  C25. The length check of the conversion is made in 32-bit arithmetic: a sample whose length
  field is close to \<open>2\<^sup>3\<^sup>2\<close> passes both checks, though the frame lies inside the file, and the
  copy leaves both buffers.
\<close>

theorem mp4_to_annexb_length_wraps:
  "frame_in_file (demo_ctx [0xFF, 0xFF, 0xFF, 0xFC]) (demo_frame 0 4) \<and>
   rfs_mp4_to_annexb (demo_ctx [0xFF, 0xFF, 0xFF, 0xFC]) (demo_frame 0 4) 100 = Oob"
proof -
  have "rd_len [0xFF, 0xFF, 0xFF, 0xFC] = 0xFFFFFFFC"
    by (simp add: rd_len_def)
  then have "to_annexb_loop 4 [0xFF, 0xFF, 0xFF, 0xFC] 100 0 [0, 0, 0, 1, 0x67] = Oob"
    by (subst to_annexb_loop.simps) (simp add: Let_def wrap32_def)
  then show ?thesis
    by (simp add: rfs_mp4_to_annexb_def demo_defs frame_in_file_def)
qed

subsection \<open>Opening a file\<close>

definition index_wf :: "rfs_mp4_ctx \<Rightarrow> bool" where
  "index_wf ctx \<longleftrightarrow>
     list_all (frame_in_file ctx) (video_frames ctx) \<and> length (video_frames ctx) \<le> RFS_MP4_MAX_FRAMES \<and>
     list_all (frame_in_file ctx) (audio_frames ctx) \<and> length (audio_frames ctx) \<le> RFS_MP4_MAX_AUDIO_FRAMES"

lemma on_video_index [simp]:
  "video_frames (dm_ctx (on_video ok t obj w h extra d)) = video_frames (dm_ctx d)"
  "audio_frames (dm_ctx (on_video ok t obj w h extra d)) = audio_frames (dm_ctx d)"
  "file_data (dm_ctx (on_video ok t obj w h extra d)) = file_data (dm_ctx d)"
  by (auto simp: on_video_def Let_def split: mov_object.splits option.splits)

lemma on_audio_index [simp]:
  "video_frames (dm_ctx (on_audio ok t obj ch r extra d)) = video_frames (dm_ctx d)"
  "audio_frames (dm_ctx (on_audio ok t obj ch r extra d)) = audio_frames (dm_ctx d)"
  "file_data (dm_ctx (on_audio ok t obj ch r extra d)) = file_data (dm_ctx d)"
  by (auto simp: on_audio_def Let_def split: option.splits)

lemma on_tracks_index:
  "video_frames (dm_ctx (fold on_track ts d)) = video_frames (dm_ctx d) \<and>
   audio_frames (dm_ctx (fold on_track ts d)) = audio_frames (dm_ctx d) \<and>
   file_data (dm_ctx (fold on_track ts d)) = file_data (dm_ctx d)"
proof (induction ts arbitrary: d)
  case (Cons t ts)
  then show ?case by (cases t) simp_all
qed simp

lemma on_read_index:
  assumes "index_wf (dm_ctx d)"
  shows "index_wf (dm_ctx (on_read smp d)) \<and> file_data (dm_ctx (on_read smp d)) = file_data (dm_ctx d)"
  using assms by (auto simp: on_read_def Let_def index_wf_def frame_in_file_def [abs_def])

lemma read_samples_index:
  "index_wf (dm_ctx d) \<Longrightarrow> index_wf (dm_ctx (read_samples ss d)) \<and>
     file_data (dm_ctx (read_samples ss d)) = file_data (dm_ctx d)"
  by (induction ss arbitrary: d) (auto simp: Let_def on_read_index)

fun supported :: "mov_track \<Rightarrow> bool" where
  "supported (VideoTrack ok t obj w h extra) = True"
| "supported (AudioTrack ok t obj ch rate extra) = (audio_codec_of obj \<noteq> None)"

lemma on_track_has:
  "has_video (on_track t d) \<or> has_audio (on_track t d) \<longleftrightarrow> has_video d \<or> has_audio d \<or> supported t"
  by (cases t) (auto simp: on_video_def on_audio_def Let_def split: option.splits)

lemma on_tracks_has:
  "has_video (fold on_track ts d) \<or> has_audio (fold on_track ts d) \<longleftrightarrow>
     has_video d \<or> has_audio d \<or> list_ex supported ts"
  by (induction ts arbitrary: d) (use on_track_has in auto)

lemma index_wf_fps [simp]: "index_wf (ctx\<lparr>fps := r\<rparr>) = index_wf ctx"
  by (simp add: index_wf_def frame_in_file_def [abs_def])

lemma index_wf_zero [simp]: "index_wf rfs_mp4_zero"
  by (simp add: index_wf_def rfs_mp4_zero_def)


text \<open>
  Reads through the mapped input never leave it while the requested length is below \<open>2\<^sup>6\<^sup>3\<close>;
  a cursor is a signed 64-bit value.
\<close>

lemma mmap_read_in_bounds:
  assumes "bytes < 2 ^ 63" and "io_pos io < 2 ^ 63"
  shows "mmap_read bytes io =
    Ret (if 0 \<le> io_pos io \<and> io_pos io + int bytes \<le> int (length (io_data io))
         then (Some (take bytes (drop (nat (io_pos io)) (io_data io))), io\<lparr>io_pos := io_pos io + int bytes\<rparr>)
         else (None, io))"
proof (cases "0 \<le> io_pos io")
  case True
  then have "(io_pos io + int bytes) mod 2 ^ 64 = io_pos io + int bytes"
    using assms by (intro mod_pos_pos_trivial) auto
  then show ?thesis using True by (simp add: mmap_read_def nat_less_iff le_nat_iff) linarith
next
  case False
  then show ?thesis by (simp add: mmap_read_def)
qed

end
