(* ===== verification/Box_Buffer.thy ===== *)
theory Box_Buffer
  imports Mp4_Format "HOL-Library.State_Monad"
begin

text \<open>
  The growing buffer in which \<^verbatim>\<open>rmr/rmr_mux.c\<close> assembles boxes, its \<^verbatim>\<open>bb_*\<close> helpers, and the
  judgement \<open>emits\<close> that the box writers are reasoned about with.

  The buffer's contents are a list of \<^verbatim>\<open>box_len\<close> bytes; \<open>realloc_ok\<close> says for which sizes
  \<^verbatim>\<open>realloc\<close> succeeds. The writers ignore the result of a failed append, as the code does, and
  a size patched outside the allocation sets \<open>bb_fault\<close>.
\<close>

record boxbuf =
  box_data :: "byte list"
  box_cap :: nat
  realloc_ok :: "nat \<Rightarrow> bool"
  bb_fault :: bool

text \<open>Doubling stops short of an overflow; the starting capacity is never zero.\<close>

function grow_cap :: "nat \<Rightarrow> nat \<Rightarrow> nat option" where
  "grow_cap cap req =
     (if cap < req \<and> 0 < cap then
        if u32max div 2 < cap then None else grow_cap (cap * 2) req
      else Some cap)"
  by pat_completeness auto
termination
  by (relation "measure (\<lambda>(cap, req). req - cap)") auto

declare grow_cap.simps [simp del]

definition bb_reset :: "(boxbuf, unit) state" where
  "bb_reset = State_Monad.update (\<lambda>b. b\<lparr>box_data := []\<rparr>)"

definition bb_ensure :: "nat \<Rightarrow> (boxbuf, bool) state" where
  "bb_ensure need = State (\<lambda>b.
     if u32max - length (box_data b) < need then (False, b)
     else
       let req = length (box_data b) + need in
       if req \<le> box_cap b then (True, b)
       else (case grow_cap (if box_cap b \<noteq> 0 then box_cap b else 4096) req of
               None \<Rightarrow> (False, b)
             | Some cap \<Rightarrow> if realloc_ok b cap then (True, b\<lparr>box_cap := cap\<rparr>) else (False, b)))"

definition bb_write :: "byte list \<Rightarrow> (boxbuf, bool) state" where
  "bb_write bs = do {
     ok \<leftarrow> bb_ensure (length bs);
     if ok then do {
       State_Monad.update (\<lambda>b. b\<lparr>box_data := box_data b @ bs\<rparr>);
       State_Monad.return True
     } else State_Monad.return False
   }"

definition bb_w8 :: "byte \<Rightarrow> (boxbuf, bool) state" where
  "bb_w8 v = bb_write [v]"

definition bb_w16 :: "u16 \<Rightarrow> (boxbuf, bool) state" where
  "bb_w16 v = bb_write (be16 v)"

definition bb_w32 :: "u32 \<Rightarrow> (boxbuf, bool) state" where
  "bb_w32 v = bb_write (be32 v)"

definition bb_w64 :: "u64 \<Rightarrow> (boxbuf, bool) state" where
  "bb_w64 v = bb_write (be64 v)"

definition bb_fourcc :: "string \<Rightarrow> (boxbuf, bool) state" where
  "bb_fourcc cc = bb_write (fourcc cc)"

definition bb_zeros :: "nat \<Rightarrow> (boxbuf, bool) state" where
  "bb_zeros n = bb_write (replicate n 0)"

definition bb_len :: "(boxbuf, nat) state" where
  "bb_len = State (\<lambda>b. (length (box_data b), b))"

text \<open>\<^verbatim>\<open>w32(m->box_buf + off, v)\<close>\<close>

definition patch :: "nat \<Rightarrow> byte list \<Rightarrow> byte list \<Rightarrow> byte list" where
  "patch off bs d = take off d @ take (length d - off) bs @ drop (off + length bs) d"

definition bb_patch32 :: "nat \<Rightarrow> u32 \<Rightarrow> (boxbuf, unit) state" where
  "bb_patch32 off v = State_Monad.update (\<lambda>b.
     if box_cap b < off + 4 then b\<lparr>bb_fault := True\<rparr>
     else b\<lparr>box_data := patch off (be32 v) (box_data b)\<rparr>)"

definition bb_box_begin :: "string \<Rightarrow> (boxbuf, nat) state" where
  "bb_box_begin cc = do {
     off \<leftarrow> bb_len;
     bb_w32 0;
     bb_fourcc cc;
     State_Monad.return off
   }"

definition bb_box_end :: "nat \<Rightarrow> (boxbuf, unit) state" where
  "bb_box_end off = do {
     len \<leftarrow> bb_len;
     bb_patch32 off (word_of_nat len - word_of_nat off)
   }"

definition bb_fullbox_begin :: "string \<Rightarrow> byte \<Rightarrow> u32 \<Rightarrow> (boxbuf, nat) state" where
  "bb_fullbox_begin cc version flags = do {
     off \<leftarrow> bb_box_begin cc;
     bb_w32 (push_bit 24 (ucast version) OR (flags AND 0x00FFFFFF));
     State_Monad.return off
   }"

text \<open>A box around what \<open>body\<close> writes: the pairs of begin and end in the writers.\<close>

definition in_box :: "string \<Rightarrow> (boxbuf, 'a) state \<Rightarrow> (boxbuf, 'a) state" where
  "in_box cc body = do {
     off \<leftarrow> bb_box_begin cc;
     r \<leftarrow> body;
     bb_box_end off;
     State_Monad.return r
   }"

definition in_fullbox :: "string \<Rightarrow> byte \<Rightarrow> u32 \<Rightarrow> (boxbuf, 'a) state \<Rightarrow> (boxbuf, 'a) state" where
  "in_fullbox cc version flags body = do {
     off \<leftarrow> bb_fullbox_begin cc version flags;
     r \<leftarrow> body;
     bb_box_end off;
     State_Monad.return r
   }"

definition skip :: "(boxbuf, unit) state" where
  "skip = State_Monad.return ()"

subsection \<open>What a writer emits\<close>

text \<open>
  A buffer that can still grow. Appending to it succeeds up to \<open>2\<^sup>3\<^sup>1\<close> bytes, the largest size
  the doubling reaches.
\<close>

definition bb_ok :: "boxbuf \<Rightarrow> bool" where
  "bb_ok b \<longleftrightarrow> realloc_ok b = (\<lambda>_. True) \<and> length (box_data b) \<le> box_cap b \<and> \<not> bb_fault b"

definition bb_max :: nat where
  "bb_max = 2 ^ 31"

definition emits :: "nat \<Rightarrow> (boxbuf, 'a) state \<Rightarrow> 'a \<Rightarrow> byte list \<Rightarrow> bool" where
  "emits n p r bs \<longleftrightarrow> (\<forall>b. bb_ok b \<and> length (box_data b) = n \<and> n + length bs \<le> bb_max \<longrightarrow>
     (\<exists>b'. run_state p b = (r, b') \<and> bb_ok b' \<and> box_data b' = box_data b @ bs))"

named_theorems emits_intros \<open>rules that compute what a writer emits\<close>

lemma grow_cap_ok:
  "req \<le> bb_max \<Longrightarrow> 0 < cap \<Longrightarrow> \<exists>c. grow_cap cap req = Some c \<and> req \<le> c"
proof (induction cap req rule: grow_cap.induct)
  case (1 cap req)
  show ?case
  proof (cases "cap < req")
    case True
    then have "\<not> u32max div 2 < cap" using 1(2) by (simp add: bb_max_def u32max_def)
    then show ?thesis using 1 True by (subst grow_cap.simps) auto
  next
    case False
    then show ?thesis by (subst grow_cap.simps) auto
  qed
qed

lemma emits_write [emits_intros]: "emits n (bb_write bs) True bs"
proof (unfold emits_def, intro allI impI, elim conjE)
  fix b assume b: "bb_ok b" "length (box_data b) = n" "n + length bs \<le> bb_max"
  have "0 < (if box_cap b \<noteq> 0 then box_cap b else 4096)" by simp
  from grow_cap_ok [OF b(3) this]
  obtain c where c: "grow_cap (if box_cap b \<noteq> 0 then box_cap b else 4096) (n + length bs) = Some c" "n + length bs \<le> c"
    by blast
  have "\<not> u32max - n < length bs" using b(3) by (simp add: bb_max_def u32max_def)
  then show "\<exists>b'. run_state (bb_write bs) b = (True, b') \<and> bb_ok b' \<and> box_data b' = box_data b @ bs"
    using b c
    by (auto simp: bb_write_def bb_ensure_def Let_def bb_ok_def State_Monad.update_def State_Monad.get_def
        State_Monad.set_def State_Monad.return_def)
qed

lemma emits_w8 [emits_intros]: "emits n (bb_w8 v) True [v]"
  and emits_w16 [emits_intros]: "emits n (bb_w16 v2) True (be16 v2)"
  and emits_w32 [emits_intros]: "emits n (bb_w32 v4) True (be32 v4)"
  and emits_w64 [emits_intros]: "emits n (bb_w64 v8) True (be64 v8)"
  and emits_fourcc [emits_intros]: "emits n (bb_fourcc cc) True (fourcc cc)"
  and emits_zeros [emits_intros]: "emits n (bb_zeros k) True (replicate k 0)"
  unfolding bb_w8_def bb_w16_def bb_w32_def bb_w64_def bb_fourcc_def bb_zeros_def
  by (rule emits_write)+

lemma emits_return [emits_intros]: "emits n (State_Monad.return r) r []"
  by (simp add: emits_def State_Monad.return_def)

lemma emits_skip [emits_intros]: "emits n skip () []"
  unfolding skip_def by (rule emits_return)

lemma emits_len [emits_intros]: "emits n bb_len n []"
  by (simp add: emits_def bb_len_def)

lemma emits_bind [emits_intros]:
  assumes "emits n p r as" and "emits (n + length as) (q r) r' bs"
  shows "emits n (p \<bind> q) r' (as @ bs)"
proof (unfold emits_def, intro allI impI, elim conjE)
  fix b assume b: "bb_ok b" "length (box_data b) = n" "n + length (as @ bs) \<le> bb_max"
  obtain b1 where b1: "run_state p b = (r, b1)" "bb_ok b1" "box_data b1 = box_data b @ as"
    using assms(1) b by (auto simp: emits_def)
  moreover obtain b2 where "run_state (q r) b1 = (r', b2)" "bb_ok b2" "box_data b2 = box_data b1 @ bs"
    using assms(2) b b1 by (auto simp: emits_def)
  ultimately show "\<exists>b'. run_state (p \<bind> q) b = (r', b') \<and> bb_ok b' \<and> box_data b' = box_data b @ as @ bs"
    by simp
qed

lemma patch_mid [simp]:
  "length old = length new \<Longrightarrow> patch (length a) new (a @ old @ c) = a @ new @ c"
  by (simp add: patch_def)

lemma length_patch [simp]: "off + length new \<le> length d \<Longrightarrow> length (patch off new d) = length d"
  by (simp add: patch_def)

lemma patch_behind: "length a \<le> off \<Longrightarrow> patch off new (a @ d) = a @ patch (off - length a) new d"
  by (simp add: patch_def add.commute)

lemma patch_before: "off + length new \<le> length d \<Longrightarrow> patch off new (d @ c) = patch off new d @ c"
  by (simp add: patch_def)

lemma patch_in_box:
  assumes "length cc = 4" and "8 \<le> off" and "off - 8 + length new \<le> length p"
  shows "patch off new (box cc p) = box cc (patch (off - 8) new p)"
proof -
  have "box cc p = (be32 (word_of_nat (8 + length p)) @ fourcc cc) @ p" by (simp add: box_def)
  moreover have "box cc (patch (off - 8) new p) = (be32 (word_of_nat (8 + length p)) @ fourcc cc) @ patch (off - 8) new p"
    using assms(3) by (simp add: box_def)
  ultimately show ?thesis
    using assms(1,2) patch_behind [of "be32 (word_of_nat (8 + length p)) @ fourcc cc" off new p] by simp
qed

text \<open>Ending a box patches the size written at its beginning.\<close>

lemma bb_box_end_run:
  assumes "bb_ok b" and "box_data b = a @ be32 0 @ c"
  shows "\<exists>b'. run_state (bb_box_end (length a)) b = ((), b') \<and> bb_ok b' \<and>
    box_data b' = a @ be32 (word_of_nat (4 + length c)) @ c"
proof -
  have "word_of_nat (length (a @ be32 0 @ c)) - word_of_nat (length a) = (word_of_nat (4 + length c) :: u32)"
    by simp
  moreover have "length a + 4 \<le> box_cap b" using assms by (simp add: bb_ok_def)
  ultimately show ?thesis
    using assms
    by (auto simp: bb_box_end_def bb_len_def bb_patch32_def bb_ok_def State_Monad.update_def
        State_Monad.get_def State_Monad.set_def State_Monad.return_def)
qed

lemma emits_around:
  assumes "emits n begin n (be32 0 @ hdr)" and "emits (n + length (be32 0 @ hdr)) body r bs"
  shows "emits n (do {off \<leftarrow> begin; r \<leftarrow> body; bb_box_end off; State_Monad.return r}) r
    (be32 (word_of_nat (4 + length hdr + length bs)) @ hdr @ bs)"
proof (unfold emits_def, intro allI impI, elim conjE)
  fix b assume b: "bb_ok b" "length (box_data b) = n"
    and len: "n + length (be32 (word_of_nat (4 + length hdr + length bs)) @ hdr @ bs) \<le> bb_max"
  obtain b1 where b1: "run_state begin b = (n, b1)" "bb_ok b1" "box_data b1 = box_data b @ be32 0 @ hdr"
    using assms(1) b len by (auto simp: emits_def)
  moreover obtain b2 where b2: "run_state body b1 = (r, b2)" "bb_ok b2" "box_data b2 = box_data b1 @ bs"
    using assms(2) b b1 len by (auto simp: emits_def)
  moreover obtain b3 where "run_state (bb_box_end n) b2 = ((), b3)" "bb_ok b3"
    "box_data b3 = box_data b @ be32 (word_of_nat (4 + length (hdr @ bs))) @ hdr @ bs"
    using bb_box_end_run [of b2 "box_data b" "hdr @ bs"] b b1 b2 by auto
  ultimately show "\<exists>b'. run_state (do {off \<leftarrow> begin; r \<leftarrow> body; bb_box_end off; State_Monad.return r}) b = (r, b') \<and>
      bb_ok b' \<and> box_data b' = box_data b @ be32 (word_of_nat (4 + length hdr + length bs)) @ hdr @ bs"
    by (simp add: State_Monad.return_def add.assoc)
qed

lemma emits_box_begin: "emits n (bb_box_begin cc) n (be32 0 @ fourcc cc)"
proof -
  have "emits n (bb_box_begin cc) n ([] @ be32 0 @ fourcc cc @ [])"
    unfolding bb_box_begin_def by (rule emits_intros)+
  then show ?thesis by simp
qed

lemma emits_box [emits_intros]:
  assumes "length cc = 4" and "emits (n + 8) body r bs"
  shows "emits n (in_box cc body) r (box cc bs)"
  using emits_around [OF emits_box_begin, of n cc body r bs] assms
  by (simp add: in_box_def box_def)

lemma emits_fullbox [emits_intros]:
  assumes "length cc = 4" and "emits (n + 12) body r bs"
  shows "emits n (in_fullbox cc v f body) r (box cc (be32 (push_bit 24 (ucast v) OR (f AND 0x00FFFFFF)) @ bs))"
proof -
  have "emits n (bb_fullbox_begin cc v f) n
      ((be32 0 @ fourcc cc) @ be32 (push_bit 24 (ucast v) OR (f AND 0x00FFFFFF)) @ [])"
    unfolding bb_fullbox_begin_def by (rule emits_bind emits_intros emits_box_begin)+
  from emits_around [of n "bb_fullbox_begin cc v f"
      "fourcc cc @ be32 (push_bit 24 (ucast v) OR (f AND 0x00FFFFFF))" body r bs]
    this assms
  show ?thesis by (simp add: in_fullbox_def box_def add.commute)
qed

lemma emits_if [emits_intros]:
  assumes "c \<Longrightarrow> emits n p r as" and "\<not> c \<Longrightarrow> emits n q r bs"
  shows "emits n (if c then p else q) r (if c then as else bs)"
  using assms by simp

lemma emits_if_result [emits_intros]:
  assumes "c \<Longrightarrow> emits n p r as" and "\<not> c \<Longrightarrow> emits n q r' bs"
  shows "emits n (if c then p else q) (if c then r else r') (if c then as else bs)"
  using assms by simp

lemma emits_w8_list [emits_intros]:
  "emits n (State_Monad.traverse_list bb_w8 vs) (replicate (length vs) True) vs"
proof (induction vs arbitrary: n)
  case Nil
  then show ?case by (simp add: emits_return)
next
  case (Cons v vs)
  have "emits n (State_Monad.traverse_list bb_w8 (v # vs)) (True # replicate (length vs) True) ([v] @ vs @ [])"
    unfolding State_Monad.traverse_list.simps by (rule emits_bind emits_w8 Cons.IH emits_return)+
  then show ?case by simp
qed

end
