(* ===== verification/Rmr_Moov.thy ===== *)
theory Rmr_Moov
  imports Box_Buffer
begin

text \<open>
  The muxer's state and the writers of the initialisation segment, \<^verbatim>\<open>write_ftyp\<close> to
  \<^verbatim>\<open>write_moov\<close> of \<^verbatim>\<open>rmr/rmr_mux.c\<close>. The AudioSpecificConfig comes from \<^verbatim>\<open>rss_aac_asc\<close>, which is
  not part of the repository: it is the argument \<open>rss_aac_asc\<close>, from object type, sample rate
  and channels to the configuration or a failure.

  Each writer is shown to emit one well-formed box whatever the buffer already holds. The
  sample descriptions of both codecs are shown in full, because their decoder configuration
  records carry the parameter sets.
\<close>

subsection \<open>State\<close>

record mux_sample =
  smp_size :: u32
  smp_duration :: u32
  smp_flags :: u32
  smp_cts :: u32

definition MUX_MAX_SAMPLES :: nat where
  "MUX_MAX_SAMPLES = 2048"

record rmr_video_params =
  vp_codec :: byte
  vp_width :: u16
  vp_height :: u16
  vp_timescale :: u32
  vp_default_duration :: u32

record rmr_audio_params =
  ap_codec :: byte
  ap_sample_rate :: u32
  ap_channels :: byte
  ap_bits_per_sample :: byte
  ap_aot :: byte

text \<open>
  Arrays with a fill count are lists; a growing buffer is its contents and its capacity.
\<close>

record rmr_mux =
  m_has_video :: bool
  m_has_audio :: bool
  m_video :: rmr_video_params
  m_audio :: rmr_audio_params
  m_sps :: "byte list"
  m_pps :: "byte list"
  m_vps :: "byte list"
  frag_seq :: u32
  v_samples :: "mux_sample list"
  v_base_dts :: int
  a_samples :: "mux_sample list"
  a_base_dts :: int
  v_data :: "byte list"
  v_data_cap :: nat
  a_data :: "byte list"
  a_data_cap :: nat
  v_duration :: int
  a_duration :: int
  m_box :: boxbuf
  bytes_written :: nat

definition RMR_CODEC_H265 :: byte where "RMR_CODEC_H265 = 1"
definition RMR_CODEC_MJPEG :: byte where "RMR_CODEC_MJPEG = 2"
definition RMR_AUDIO_PCMU :: byte where "RMR_AUDIO_PCMU = 0"
definition RMR_AUDIO_PCMA :: byte where "RMR_AUDIO_PCMA = 8"
definition RMR_AUDIO_AAC :: byte where "RMR_AUDIO_AAC = 97"
definition RMR_AUDIO_OPUS :: byte where "RMR_AUDIO_OPUS = 111"

type_synonym asc_fn = "int \<Rightarrow> int \<Rightarrow> int \<Rightarrow> byte list option"

subsection \<open>Writers\<close>

definition ftyp_box :: "(boxbuf, bool) state" where
  "ftyp_box = in_box ''ftyp'' (do {
     bb_fourcc ''isom'';
     bb_w32 0x200;
     bb_fourcc ''isom'';
     bb_fourcc ''iso5'';
     bb_fourcc ''iso6'';
     bb_fourcc ''mp41''
   })"

definition unity_matrix :: "(boxbuf, bool) state" where
  "unity_matrix = do {
     bb_w32 0x00010000;
     bb_zeros 4;
     bb_zeros 4;
     bb_zeros 4;
     bb_w32 0x00010000;
     bb_zeros 4;
     bb_zeros 4;
     bb_zeros 4;
     bb_w32 0x40000000
   }"

definition write_mvhd :: "u32 \<Rightarrow> u32 \<Rightarrow> (boxbuf, bool) state" where
  "write_mvhd timescale next_track_id = in_fullbox ''mvhd'' 0 0 (do {
     bb_w32 0;
     bb_w32 0;
     bb_w32 timescale;
     bb_w32 0;
     bb_w32 0x00010000;
     bb_w16 0x0100;
     bb_zeros 10;
     unity_matrix;
     bb_zeros 24;
     bb_w32 next_track_id
   })"

definition write_tkhd :: "u32 \<Rightarrow> u16 \<Rightarrow> u16 \<Rightarrow> bool \<Rightarrow> (boxbuf, bool) state" where
  "write_tkhd track_id width height is_audio = in_fullbox ''tkhd'' 0 0x03 (do {
     bb_w32 0;
     bb_w32 0;
     bb_w32 track_id;
     bb_w32 0;
     bb_w32 0;
     bb_zeros 8;
     bb_w16 0;
     bb_w16 (if is_audio then 1 else 0);
     bb_w16 (if is_audio then 0x0100 else 0);
     bb_w16 0;
     unity_matrix;
     bb_w32 (push_bit 16 (ucast width));
     bb_w32 (push_bit 16 (ucast height))
   })"

definition write_mdhd :: "u32 \<Rightarrow> (boxbuf, bool) state" where
  "write_mdhd timescale = in_fullbox ''mdhd'' 0 0 (do {
     bb_w32 0;
     bb_w32 0;
     bb_w32 timescale;
     bb_w32 0;
     bb_w16 0x55C4;
     bb_w16 0
   })"

text \<open>The name is written with its terminating zero.\<close>

definition write_hdlr :: "string \<Rightarrow> string \<Rightarrow> (boxbuf, bool) state" where
  "write_hdlr handler_type name = in_fullbox ''hdlr'' 0 0 (do {
     bb_w32 0;
     bb_fourcc handler_type;
     bb_zeros 12;
     bb_write (fourcc name @ [0])
   })"

text \<open>The common part of the three visual sample entries.\<close>

definition visual_entry :: "rmr_mux \<Rightarrow> (boxbuf, bool) state" where
  "visual_entry m = do {
     bb_zeros 6;
     bb_w16 1;
     bb_zeros 16;
     bb_w16 (vp_width (m_video m));
     bb_w16 (vp_height (m_video m));
     bb_w32 0x00480000;
     bb_w32 0x00480000;
     bb_w32 0;
     bb_w16 1;
     bb_zeros 32;
     bb_w16 0x0018;
     bb_w16 0xFFFF
   }"

definition write_stsd_avc1 :: "rmr_mux \<Rightarrow> (boxbuf, bool) state" where
  "write_stsd_avc1 m = in_fullbox ''stsd'' 0 0 (do {
     bb_w32 1;
     in_box ''avc1'' (do {
       visual_entry m;
       in_box ''avcC'' (do {
         bb_w8 1;
         bb_w8 (if 1 < length (m_sps m) then m_sps m ! 1 else 100);
         bb_w8 (if 2 < length (m_sps m) then m_sps m ! 2 else 0);
         bb_w8 (if 3 < length (m_sps m) then m_sps m ! 3 else 40);
         bb_w8 0xFF;
         bb_w8 0xE1;
         bb_w16 (word_of_nat (length (m_sps m)));
         bb_write (m_sps m);
         bb_w8 1;
         bb_w16 (word_of_nat (length (m_pps m)));
         bb_write (m_pps m)
       })
     })
   })"

definition hvcc_set :: "byte \<Rightarrow> byte list \<Rightarrow> (boxbuf, unit) state" where
  "hvcc_set nal_type ps =
     (if ps \<noteq> [] then do {
        bb_w8 (0x20 OR nal_type);
        bb_w16 1;
        bb_w16 (word_of_nat (length ps));
        bb_write ps;
        skip
      } else skip)"

definition write_stsd_hev1 :: "rmr_mux \<Rightarrow> (boxbuf, unit) state" where
  "write_stsd_hev1 m = in_fullbox ''stsd'' 0 0 (do {
     bb_w32 1;
     in_box ''hev1'' (do {
       visual_entry m;
       in_box ''hvcC'' (do {
         bb_w8 1;
         bb_w8 (push_bit 6 0 OR push_bit 5 0 OR 1);
         bb_w32 0x60000000;
         bb_zeros 6;
         bb_w8 120;
         bb_w16 0xF000;
         bb_w8 0xFC;
         bb_w8 (0xFC OR 1);
         bb_w8 0xF8;
         bb_w8 0xF8;
         bb_w16 0;
         bb_w8 0x0F;
         bb_w8 ((if m_vps m \<noteq> [] then 1 else 0) + (if m_sps m \<noteq> [] then 1 else 0) +
                (if m_pps m \<noteq> [] then 1 else 0));
         hvcc_set 32 (m_vps m);
         hvcc_set 33 (m_sps m);
         hvcc_set 34 (m_pps m)
       })
     })
   })"

definition write_stsd_jpeg :: "rmr_mux \<Rightarrow> (boxbuf, bool) state" where
  "write_stsd_jpeg m = in_fullbox ''stsd'' 0 0 (do {
     bb_w32 1;
     in_box ''jpeg'' (visual_entry m)
   })"

text \<open>Descriptor lengths are bytes; \<open>asc\<close> is written byte by byte.\<close>

definition write_esds :: "byte list \<Rightarrow> (boxbuf, bool) state" where
  "write_esds asc =
     (let dsi_total = 2 + word_of_nat (length asc) :: byte;
          dcd_len = 13 + dsi_total;
          es_len = 3 + 2 + dcd_len + 3
      in in_fullbox ''esds'' 0 0 (do {
           bb_w8 0x03;
           bb_w8 es_len;
           bb_w16 1;
           bb_w8 0;
           bb_w8 0x04;
           bb_w8 dcd_len;
           bb_w8 0x40;
           bb_w8 0x15;
           bb_w8 0;
           bb_w16 0;
           bb_w32 0;
           bb_w32 0;
           bb_w8 0x05;
           bb_w8 (word_of_nat (length asc));
           State_Monad.traverse_list bb_w8 asc;
           bb_w8 0x06;
           bb_w8 1;
           bb_w8 0x02
         }))"

definition write_dops :: "u32 \<Rightarrow> (boxbuf, bool) state" where
  "write_dops sample_rate = in_box ''dOps'' (do {
     bb_w8 0;
     bb_w8 1;
     bb_w16 312;
     bb_w32 sample_rate;
     bb_w16 0;
     bb_w8 0
   })"

text \<open>An unknown sample rate falls back to the configuration of 44.1 kHz, then to an empty one.\<close>

definition audio_asc :: "asc_fn \<Rightarrow> rmr_mux \<Rightarrow> byte list" where
  "audio_asc rss_aac_asc m =
     (let aot = (if ap_aot (m_audio m) = 5 then 5 else 2) in
      case rss_aac_asc aot (sint (ap_sample_rate (m_audio m))) 1 of
        Some asc \<Rightarrow> asc
      | None \<Rightarrow> (case rss_aac_asc 2 44100 1 of Some asc \<Rightarrow> asc | None \<Rightarrow> []))"

definition write_stsd_audio :: "asc_fn \<Rightarrow> rmr_mux \<Rightarrow> (boxbuf, bool) state" where
  "write_stsd_audio rss_aac_asc m = in_fullbox ''stsd'' 0 0 (do {
     bb_w32 1;
     (if ap_codec (m_audio m) = RMR_AUDIO_AAC then
        in_box ''mp4a'' (do {
          bb_zeros 6;
          bb_w16 1;
          bb_zeros 8;
          bb_w16 (ucast (ap_channels (m_audio m)));
          bb_w16 16;
          bb_w16 0;
          bb_w16 0;
          bb_w32 (push_bit 16 (ap_sample_rate (m_audio m)));
          write_esds (audio_asc rss_aac_asc m)
        })
      else if ap_codec (m_audio m) = RMR_AUDIO_OPUS then
        in_box ''Opus'' (do {
          bb_zeros 6;
          bb_w16 1;
          bb_zeros 8;
          bb_w16 (ucast (ap_channels (m_audio m)));
          bb_w16 16;
          bb_w16 0;
          bb_w16 0;
          bb_w32 (push_bit 16 48000);
          write_dops (ap_sample_rate (m_audio m))
        })
      else
        in_box (if ap_codec (m_audio m) = RMR_AUDIO_PCMU then ''ulaw''
                else if ap_codec (m_audio m) = RMR_AUDIO_PCMA then ''alaw'' else ''twos'') (do {
          bb_zeros 6;
          bb_w16 1;
          bb_zeros 8;
          bb_w16 (ucast (ap_channels (m_audio m)));
          bb_w16 (ucast (ap_bits_per_sample (m_audio m)));
          bb_w16 0;
          bb_w16 0;
          bb_w32 (push_bit 16 (ap_sample_rate (m_audio m)))
        }))
   })"

definition write_stsd :: "asc_fn \<Rightarrow> rmr_mux \<Rightarrow> bool \<Rightarrow> (boxbuf, unit) state" where
  "write_stsd rss_aac_asc m is_video =
     (if is_video then
        if vp_codec (m_video m) = RMR_CODEC_MJPEG then do { write_stsd_jpeg m; skip }
        else if vp_codec (m_video m) = RMR_CODEC_H265 then write_stsd_hev1 m
        else do { write_stsd_avc1 m; skip }
      else do { write_stsd_audio rss_aac_asc m; skip })"

definition write_empty_stbl :: "asc_fn \<Rightarrow> rmr_mux \<Rightarrow> bool \<Rightarrow> (boxbuf, bool) state" where
  "write_empty_stbl rss_aac_asc m is_video = in_box ''stbl'' (do {
     write_stsd rss_aac_asc m is_video;
     in_fullbox ''stts'' 0 0 (bb_w32 0);
     in_fullbox ''stsc'' 0 0 (bb_w32 0);
     in_fullbox ''stsz'' 0 0 (do { bb_w32 0; bb_w32 0 });
     in_fullbox ''stco'' 0 0 (bb_w32 0)
   })"

definition write_trak :: "asc_fn \<Rightarrow> rmr_mux \<Rightarrow> u32 \<Rightarrow> bool \<Rightarrow> (boxbuf, bool) state" where
  "write_trak rss_aac_asc m track_id is_audio = in_box ''trak'' (do {
     (if is_audio then write_tkhd track_id 0 0 True
      else write_tkhd track_id (vp_width (m_video m)) (vp_height (m_video m)) False);
     in_box ''mdia'' (do {
       write_mdhd (if is_audio then ap_sample_rate (m_audio m) else vp_timescale (m_video m));
       write_hdlr (if is_audio then ''soun'' else ''vide'')
                  (if is_audio then ''Raptor Audio'' else ''Raptor Video'');
       in_box ''minf'' (do {
         (if is_audio then in_fullbox ''smhd'' 0 0 (do { bb_w16 0; bb_w16 0 })
          else in_fullbox ''vmhd'' 0 1 (do { bb_w16 0; bb_zeros 6 }));
         in_box ''dinf'' (in_fullbox ''dref'' 0 0 (do {
           bb_w32 1;
           in_fullbox ''url '' 0 1 skip
         }));
         write_empty_stbl rss_aac_asc m (\<not> is_audio)
       })
     })
   })"

definition write_trex :: "u32 \<Rightarrow> (boxbuf, bool) state" where
  "write_trex track_id = in_fullbox ''trex'' 0 0 (do {
     bb_w32 track_id;
     bb_w32 1;
     bb_w32 0;
     bb_w32 0;
     bb_w32 0
   })"

definition write_mvex :: "rmr_mux \<Rightarrow> (boxbuf, unit) state" where
  "write_mvex m = in_box ''mvex'' (do {
     (if m_has_video m then do { write_trex 1; skip } else skip);
     (if m_has_audio m then do { write_trex 2; skip } else skip)
   })"

definition moov_box :: "asc_fn \<Rightarrow> rmr_mux \<Rightarrow> (boxbuf, unit) state" where
  "moov_box rss_aac_asc m = in_box ''moov'' (do {
     write_mvhd (if m_has_video m then vp_timescale (m_video m) else ap_sample_rate (m_audio m))
       (1 + (if m_has_video m then 1 else 0) + (if m_has_audio m then 1 else 0));
     (if m_has_video m then do { write_trak rss_aac_asc m 1 False; skip } else skip);
     (if m_has_audio m then do { write_trak rss_aac_asc m 2 True; skip } else skip);
     write_mvex m
   })"

subsection \<open>What the writers emit\<close>

lemma emits_unity_matrix [emits_intros]:
  "emits n unity_matrix True (be32 0x00010000 @ replicate 12 0 @ be32 0x00010000 @ replicate 12 0 @ be32 0x40000000)"
proof -
  have "\<exists>bs. emits n unity_matrix True bs \<and>
      bs = be32 0x00010000 @ replicate 12 0 @ be32 0x00010000 @ replicate 12 0 @ be32 0x40000000"
    unfolding unity_matrix_def
    by (rule exI, rule conjI, (rule emits_intros)+) (simp add: numeral_eq_Suc)
  then show ?thesis by blast
qed

text \<open>A writer of one box: the type of the box and a bound on its payload.\<close>

definition writes_box :: "(boxbuf, 'a) state \<Rightarrow> 'a \<Rightarrow> string \<Rightarrow> nat \<Rightarrow> bool" where
  "writes_box p r cc k \<longleftrightarrow> (\<exists>bs. (\<forall>n. emits n p r (box cc bs)) \<and> length bs \<le> k)"

lemma emits_mvhd: "writes_box (write_mvhd ts nt) True ''mvhd'' 100"
  unfolding writes_box_def write_mvhd_def
  by (rule exI, rule conjI, rule allI, (rule emits_intros | simp)+)

lemma emits_tkhd: "writes_box (write_tkhd i w h au) True ''tkhd'' 84"
  unfolding writes_box_def write_tkhd_def
  by (rule exI, rule conjI, rule allI, (rule emits_intros | simp)+)

lemma emits_mdhd: "writes_box (write_mdhd ts) True ''mdhd'' 24"
  unfolding writes_box_def write_mdhd_def
  by (rule exI, rule conjI, rule allI, (rule emits_intros | simp)+)

lemma emits_hdlr:
  "length t = 4 \<Longrightarrow> writes_box (write_hdlr t name) True ''hdlr'' (25 + length name)"
  unfolding writes_box_def write_hdlr_def
  by (rule exI, rule conjI, rule allI, (rule emits_intros | simp)+)

lemma emits_visual_entry [emits_intros]:
  "emits n (visual_entry m) True (replicate 6 0 @ be16 1 @ replicate 16 0 @ be16 (vp_width (m_video m)) @
     be16 (vp_height (m_video m)) @ be32 0x00480000 @ be32 0x00480000 @ be32 0 @ be16 1 @
     replicate 32 0 @ be16 0x0018 @ be16 0xFFFF)"
  unfolding visual_entry_def by (rule emits_intros)+

lemma writes_jpeg: "writes_box (write_stsd_jpeg m) True ''stsd'' 94"
  unfolding writes_box_def write_stsd_jpeg_def
  by (rule exI, rule conjI, rule allI, (rule emits_intros | simp)+)

text \<open>The sample description of H.264, in full.\<close>

definition avc1_stsd :: "rmr_mux \<Rightarrow> byte list" where
  "avc1_stsd m = be32 0 @ be32 1 @ box ''avc1''
     ((replicate 6 0 @ be16 1 @ replicate 16 0 @ be16 (vp_width (m_video m)) @
       be16 (vp_height (m_video m)) @ be32 0x00480000 @ be32 0x00480000 @ be32 0 @ be16 1 @
       replicate 32 0 @ be16 0x0018 @ be16 0xFFFF) @
      box ''avcC'' (avcc_record (if 1 < length (m_sps m) then m_sps m ! 1 else 100)
        (if 2 < length (m_sps m) then m_sps m ! 2 else 0)
        (if 3 < length (m_sps m) then m_sps m ! 3 else 40) [m_sps m] [m_pps m]))"

lemma emits_avc1: "emits n (write_stsd_avc1 m) True (box ''stsd'' (avc1_stsd m))"
proof -
  have "\<exists>bs. emits n (write_stsd_avc1 m) True bs \<and> bs = box ''stsd'' (avc1_stsd m)"
    unfolding write_stsd_avc1_def
    by (rule exI, rule conjI, (rule emits_intros | simp)+) (simp add: avc1_stsd_def avcc_record_def)
  then show ?thesis by blast
qed

lemma length_avc1_stsd: "length (avc1_stsd m) = 113 + length (m_sps m) + length (m_pps m)"
  by (simp add: avc1_stsd_def avcc_record_def)

lemma emits_hvcc_set [emits_intros]:
  "emits n (hvcc_set t ps) () (if ps \<noteq> [] then hvcc_array (0x20 OR t, [ps]) else [])"
proof -
  have "\<exists>bs. emits n (hvcc_set t ps) () bs \<and> bs = (if ps \<noteq> [] then hvcc_array (0x20 OR t, [ps]) else [])"
    unfolding hvcc_set_def
    by (rule exI, rule conjI, (rule emits_intros)+) (simp add: hvcc_array_def)
  then show ?thesis by blast
qed

text \<open>The sample description of H.265: the record has an array for each parameter set there is.\<close>

definition hvcc_hdr :: "byte list" where
  "hvcc_hdr = [1, 1] @ be32 0x60000000 @ replicate 6 0 @ [120] @ be16 0xF000 @ [0xFC, 0xFD, 0xF8, 0xF8] @ be16 0"

definition hvcc_sets :: "rmr_mux \<Rightarrow> (byte \<times> byte list list) list" where
  "hvcc_sets m = map (\<lambda>(t, ps). (0x20 OR t, [ps]))
     (filter (\<lambda>(t, ps). ps \<noteq> []) [(32, m_vps m), (33, m_sps m), (34, m_pps m)])"

definition hev1_stsd :: "rmr_mux \<Rightarrow> byte list" where
  "hev1_stsd m = be32 0 @ be32 1 @ box ''hev1''
     ((replicate 6 0 @ be16 1 @ replicate 16 0 @ be16 (vp_width (m_video m)) @
       be16 (vp_height (m_video m)) @ be32 0x00480000 @ be32 0x00480000 @ be32 0 @ be16 1 @
       replicate 32 0 @ be16 0x0018 @ be16 0xFFFF) @
      box ''hvcC'' (hvcc_record hvcc_hdr (hvcc_sets m)))"

lemma emits_hev1: "emits n (write_stsd_hev1 m) () (box ''stsd'' (hev1_stsd m))"
proof -
  have "\<exists>bs. emits n (write_stsd_hev1 m) () bs \<and> bs = box ''stsd'' (hev1_stsd m)"
    unfolding write_stsd_hev1_def
    by (rule exI, rule conjI, (rule emits_intros | simp)+)
      (simp add: hev1_stsd_def hvcc_record_def hvcc_hdr_def hvcc_sets_def)
  then show ?thesis by blast
qed

lemma length_hev1_stsd: "length (hev1_stsd m) \<le> 140 + length (m_sps m) + length (m_pps m) + length (m_vps m)"
  by (simp add: hev1_stsd_def hvcc_record_def hvcc_hdr_def hvcc_sets_def hvcc_array_def)

lemma emits_esds: "emits n (write_esds asc) True (box ''esds'' (be32 0 @ [3, 23 + word_of_nat (length asc), 0, 1, 0, 4,
    15 + word_of_nat (length asc), 0x40, 0x15] @ replicate 11 0 @ [5, word_of_nat (length asc)] @ asc @ [6, 1, 2]))"
proof -
  have "\<exists>bs. emits n (write_esds asc) True bs \<and> bs = box ''esds'' (be32 0 @ [3, 23 + word_of_nat (length asc), 0, 1, 0, 4,
    15 + word_of_nat (length asc), 0x40, 0x15] @ replicate 11 0 @ [5, word_of_nat (length asc)] @ asc @ [6, 1, 2])"
    unfolding write_esds_def Let_def
    by (rule exI, rule conjI, (rule emits_intros | simp)+) (simp add: be16_def be32_def numeral_eq_Suc)
  then show ?thesis by blast
qed

lemma emits_dops: "emits n (write_dops r) True (box ''dOps'' ([0, 1] @ be16 312 @ be32 r @ be16 0 @ [0]))"
proof -
  have "\<exists>bs. emits n (write_dops r) True bs \<and> bs = box ''dOps'' ([0, 1] @ be16 312 @ be32 r @ be16 0 @ [0])"
    unfolding write_dops_def
    by (rule exI, rule conjI, (rule emits_intros | simp)+)
  then show ?thesis by blast
qed

lemma writes_stsd_audio:
  assumes "length (audio_asc f m) \<le> k"
  shows "writes_box (write_stsd_audio f m) True ''stsd'' (83 + k)"
proof (cases "ap_codec (m_audio m) = RMR_AUDIO_AAC")
  case True
  show ?thesis
    unfolding writes_box_def write_stsd_audio_def if_P [OF True]
    by (rule exI, rule conjI, rule allI, (rule emits_intros emits_esds | simp)+) (use assms in simp)
next
  case False
  show ?thesis
    unfolding writes_box_def write_stsd_audio_def if_not_P [OF False]
    by (rule exI, rule conjI, rule allI, (rule emits_intros emits_dops | simp)+)
qed

subsection \<open>Trees of boxes\<close>

text \<open>
  \<open>writes d p r ts k\<close>: wherever it starts, \<open>p\<close> emits at most \<open>k\<close> bytes that a reader who opens
  containers to depth \<open>d\<close> sees as the trees \<open>ts\<close>.
\<close>

definition writes :: "nat \<Rightarrow> (boxbuf, 'a) state \<Rightarrow> 'a \<Rightarrow> box_tree list \<Rightarrow> nat \<Rightarrow> bool" where
  "writes d p r ts k \<longleftrightarrow> (\<exists>bs. (\<forall>n. emits n p r bs) \<and> length bs \<le> k \<and>
     (\<forall>rest. tree_of d (bs @ rest) = ts @ tree_of d rest))"

named_theorems writes_intros \<open>rules that compute the tree a writer emits\<close>

lemma writes_weaken: "writes d p r ts k \<Longrightarrow> k \<le> l \<Longrightarrow> ts = us \<Longrightarrow> writes d p r us l"
  by (auto simp: writes_def intro: order_trans)

lemma writes_bind [writes_intros]:
  assumes "writes d p r ts k" and "writes d (q r) r' us l"
  shows "writes d (p \<bind> q) r' (ts @ us) (k + l)"
proof -
  obtain as where "\<forall>n. emits n p r as" "length as \<le> k" "\<forall>rest. tree_of d (as @ rest) = ts @ tree_of d rest"
    using assms(1) by (auto simp: writes_def)
  moreover obtain bs where "\<forall>n. emits n (q r) r' bs" "length bs \<le> l" "\<forall>rest. tree_of d (bs @ rest) = us @ tree_of d rest"
    using assms(2) by (auto simp: writes_def)
  ultimately show ?thesis
    unfolding writes_def
    by (intro exI [of _ "as @ bs"]) (auto intro: emits_bind)
qed

lemma writes_skip [writes_intros]: "writes d skip () [] 0"
  unfolding writes_def by (rule exI [of _ "[]"]) (auto intro: emits_skip)

lemma writes_if [writes_intros]:
  assumes "c \<Longrightarrow> writes d p r ts k" and "\<not> c \<Longrightarrow> writes d q r us l"
  shows "writes d (if c then p else q) r (if c then ts else us) (max k l)"
  using assms by (cases c) (auto elim: writes_weaken)

lemma writes_leaf:
  assumes "writes_box p r cc k" and "length cc = 4" and "fourcc cc \<notin> set containers" and "8 + k < 2 ^ 32"
  shows "writes (Suc d) p r [Box (fourcc cc) []] (8 + k)"
proof -
  obtain bs where bs: "\<forall>n. emits n p r (box cc bs)" "length bs \<le> k"
    using assms(1) by (auto simp: writes_box_def)
  moreover have "box_fits bs" using bs(2) assms(4) by (simp add: box_fits_def)
  ultimately show ?thesis
    unfolding writes_def
    using assms(2,3) by (intro exI [of _ "box cc bs"]) (simp add: tree_of_box del: tree_of.simps)
qed

lemma writes_node [writes_intros]:
  assumes "writes d p r ts k" and "length cc = 4" and "fourcc cc \<in> set containers" and "8 + k < 2 ^ 32"
  shows "writes (Suc d) (in_box cc p) r [Box (fourcc cc) ts] (8 + k)"
proof -
  obtain bs where bs: "\<forall>n. emits n p r bs" "length bs \<le> k" "tree_of d (bs @ []) = ts @ tree_of d []"
    using assms(1) unfolding writes_def by blast
  moreover have "box_fits bs" using bs(2) assms(4) by (simp add: box_fits_def)
  ultimately show ?thesis
    unfolding writes_def
    using assms(2,3) by (intro exI [of _ "box cc bs"]) (simp add: tree_of_box emits_box del: tree_of.simps)
qed

lemma writes_small_fullbox [writes_intros]:
  assumes "\<And>n. emits n p r bs" and "length cc = 4" and "fourcc cc \<notin> set containers" and "12 + length bs < 2 ^ 32"
  shows "writes (Suc d) (in_fullbox cc v f p) r [Box (fourcc cc) []] (12 + length bs)"
proof -
  have "writes_box (in_fullbox cc v f p) r cc (4 + length bs)"
    unfolding writes_box_def
    by (rule exI [of _ "be32 (push_bit 24 (ucast v) OR (f AND 0x00FFFFFF)) @ bs"])
      (auto intro: emits_fullbox assms)
  from writes_leaf [OF this assms(2,3), of d] assms(4) show ?thesis by simp
qed

definition leaf :: "string \<Rightarrow> box_tree" where
  "leaf cc = Box (fourcc cc) []"

definition node :: "string \<Rightarrow> box_tree list \<Rightarrow> box_tree" where
  "node cc ts = Box (fourcc cc) ts"

definition trak_tree :: "bool \<Rightarrow> box_tree" where
  "trak_tree is_audio =
     node ''trak'' [leaf ''tkhd'', node ''mdia'' [leaf ''mdhd'', leaf ''hdlr'', node ''minf''
       [leaf (if is_audio then ''smhd'' else ''vmhd''), node ''dinf'' [leaf ''dref''],
        node ''stbl'' [leaf ''stsd'', leaf ''stts'', leaf ''stsc'', leaf ''stsz'', leaf ''stco'']]]]"

definition moov_children :: "bool \<Rightarrow> bool \<Rightarrow> box_tree list" where
  "moov_children has_video has_audio =
     ([leaf ''mvhd''] @ (if has_video then [trak_tree False] else []) @
       (if has_audio then [trak_tree True] else []) @
       [node ''mvex'' ((if has_video then [leaf ''trex''] else []) @ (if has_audio then [leaf ''trex''] else []))])"

definition moov_tree :: "bool \<Rightarrow> bool \<Rightarrow> box_tree" where
  "moov_tree has_video has_audio = node ''moov'' (moov_children has_video has_audio)"

lemmas tree_defs = leaf_def node_def container_names_def

lemma writes_stsd_leaf:
  assumes "writes_box p r ''stsd'' k" and "k \<le> 1500"
  shows "writes (Suc d) p r [leaf ''stsd''] 2000"
proof -
  have "writes (Suc d) p r [Box (fourcc ''stsd'') []] (8 + k)"
    using assms(2) by (intro writes_leaf [OF assms(1)]) (simp_all add: container_names_def)
  then show ?thesis by (rule writes_weaken) (use assms(2) in \<open>simp_all add: leaf_def\<close>)
qed

lemma writes_then_skip:
  assumes "writes d p r ts k"
  shows "writes d (p \<bind> (\<lambda>_. skip)) () ts k"
  using writes_bind [OF assms writes_skip] by simp

lemma writes_stsd:
  assumes "length (audio_asc f m) \<le> 1000" and "length (m_sps m) \<le> 256" and "length (m_pps m) \<le> 128"
    and "length (m_vps m) \<le> 256"
  shows "writes (Suc d) (write_stsd f m v) () [leaf ''stsd''] 2000"
proof -
  have "writes_box (write_stsd_avc1 m) True ''stsd'' (length (avc1_stsd m))"
    "writes_box (write_stsd_hev1 m) () ''stsd'' (length (hev1_stsd m))"
    by (auto simp: writes_box_def intro: emits_avc1 emits_hev1)
  moreover have "length (avc1_stsd m) \<le> 1500" "length (hev1_stsd m) \<le> 1500"
    using assms length_hev1_stsd [of m] by (simp_all add: length_avc1_stsd)
  ultimately have "writes (Suc d) (write_stsd_avc1 m) True [leaf ''stsd''] 2000"
    "writes (Suc d) (write_stsd_hev1 m) () [leaf ''stsd''] 2000"
    by (simp_all add: writes_stsd_leaf)
  moreover have "writes (Suc d) (write_stsd_jpeg m) True [leaf ''stsd''] 2000"
    by (rule writes_stsd_leaf [OF writes_jpeg]) simp
  moreover have "writes (Suc d) (write_stsd_audio f m) True [leaf ''stsd''] 2000"
    by (rule writes_stsd_leaf [OF writes_stsd_audio [OF assms(1)]]) simp
  ultimately show ?thesis
    unfolding write_stsd_def by (simp add: writes_then_skip)
qed

lemma writes_leaf_box:
  assumes "writes_box p r cc k" and "length cc = 4" and "cc \<notin> set container_names" and "8 + k \<le> l" and "l < 2 ^ 32"
  shows "writes (Suc d) p r [leaf cc] l"
  by (rule writes_weaken [OF writes_leaf [OF assms(1,2)]]) (use assms in \<open>simp_all add: leaf_def\<close>)

lemma writes_container:
  assumes "writes d p r ts k" and "length cc = 4" and "cc \<in> set container_names" and "8 + k \<le> l" and "l < 2 ^ 32"
  shows "writes (Suc d) (in_box cc p) r [node cc ts] l"
  by (rule writes_weaken [OF writes_node [OF assms(1,2)]]) (use assms in \<open>simp_all add: node_def\<close>)

lemma writes_nested:
  assumes "writes d p r ts k" and "length cc = 4 \<and> cc \<in> set container_names \<and> 8 + k < 2 ^ 32"
  shows "writes (Suc d) (in_box cc p) r [node cc ts] (8 + k)"
  by (rule writes_container [OF assms(1)]) (use assms(2) in simp_all)

lemma writes_fixed_fullbox:
  assumes "\<And>n. emits n p r bs" and "length cc = 4" and "cc \<notin> set container_names" and "12 + length bs \<le> l"
    and "l < 2 ^ 32"
  shows "writes (Suc d) (in_fullbox cc v f p) r [leaf cc] l"
  by (rule writes_weaken [OF writes_small_fullbox [OF assms(1,2)]]) (use assms in \<open>simp_all add: leaf_def\<close>)

lemma writes_stbl:
  assumes "length (audio_asc f m) \<le> 1000" and "length (m_sps m) \<le> 256" and "length (m_pps m) \<le> 128"
    and "length (m_vps m) \<le> 256"
  shows "writes (Suc (Suc d)) (write_empty_stbl f m v) True
    [node ''stbl'' [leaf ''stsd'', leaf ''stts'', leaf ''stsc'', leaf ''stsz'', leaf ''stco'']] 2100"
proof -
  have "writes (Suc d) (in_fullbox ''stts'' 0 0 (bb_w32 0)) True [leaf ''stts''] 16"
    "writes (Suc d) (in_fullbox ''stsc'' 0 0 (bb_w32 0)) True [leaf ''stsc''] 16"
    "writes (Suc d) (in_fullbox ''stco'' 0 0 (bb_w32 0)) True [leaf ''stco''] 16"
    by (rule writes_fixed_fullbox [OF emits_w32]; simp add: container_names_def)+
  note tables = this
  have stsz: "writes (Suc d) (in_fullbox ''stsz'' 0 0 (do { bb_w32 0; bb_w32 0 })) True [leaf ''stsz''] 20"
    by (rule writes_fixed_fullbox, rule emits_bind, rule emits_w32, rule emits_w32; simp add: container_names_def)
  have "writes (Suc (Suc d)) (write_empty_stbl f m v) True [node ''stbl''
      ([leaf ''stsd''] @ [leaf ''stts''] @ [leaf ''stsc''] @ [leaf ''stsz''] @ [leaf ''stco''])] 2100"
    unfolding write_empty_stbl_def
    by (rule writes_container, (rule writes_bind writes_stsd [OF assms] tables stsz)+, simp_all add: container_names_def)
  then show ?thesis by simp
qed

lemma writes_trak:
  assumes "length (audio_asc f m) \<le> 1000" and "length (m_sps m) \<le> 256" and "length (m_pps m) \<le> 128"
    and "length (m_vps m) \<le> 256"
  shows "writes (Suc (Suc (Suc (Suc (Suc d))))) (write_trak f m i au) True [trak_tree au] 2500"
proof -
  have tkhd: "writes (Suc k) (if au then write_tkhd i 0 0 True
      else write_tkhd i (vp_width (m_video m)) (vp_height (m_video m)) False) True [leaf ''tkhd''] 92" for k
    using writes_leaf_box [OF emits_tkhd, of 92] by (simp add: container_names_def)
  have mdhd: "writes (Suc k) (write_mdhd ts) True [leaf ''mdhd''] 32" for k ts
    using writes_leaf_box [OF emits_mdhd, of 32] by (simp add: container_names_def)
  have hdlr: "writes (Suc k) (write_hdlr (if au then ''soun'' else ''vide'')
      (if au then ''Raptor Audio'' else ''Raptor Video'')) True [leaf ''hdlr''] 45" for k
    by (rule writes_leaf_box [OF emits_hdlr]) (simp_all add: container_names_def)
  have xmhd: "writes (Suc k) (if au then in_fullbox ''smhd'' 0 0 (do { bb_w16 0; bb_w16 0 })
      else in_fullbox ''vmhd'' 0 1 (do { bb_w16 0; bb_zeros 6 })) True
      [leaf (if au then ''smhd'' else ''vmhd'')] 20" for k
  proof (cases au)
    case True
    show ?thesis unfolding if_P [OF True]
      by (rule writes_fixed_fullbox, (rule emits_intros)+, simp_all add: container_names_def)
  next
    case False
    show ?thesis unfolding if_not_P [OF False]
      by (rule writes_fixed_fullbox, (rule emits_intros)+, simp_all add: container_names_def)
  qed
  have dref: "writes (Suc k) (in_fullbox ''dref'' 0 0 (do { bb_w32 1; in_fullbox ''url '' 0 1 skip })) () [leaf ''dref''] 28" for k
    by (rule writes_fixed_fullbox, (rule emits_intros | simp add: container_names_def)+)
  note parts = tkhd mdhd hdlr xmhd dref writes_stbl [OF assms]
  show ?thesis
    unfolding write_trak_def
    by (rule writes_weaken, (rule writes_nested writes_bind parts | simp add: container_names_def)+) (simp add: trak_tree_def)
qed

lemma writes_trex: "writes (Suc d) (write_trex i) True [leaf ''trex''] 32"
  unfolding write_trex_def
  by (rule writes_fixed_fullbox, (rule emits_intros)+, simp_all add: container_names_def)

lemma writes_opt:
  assumes "writes d p r ts k"
  shows "writes d (if c then do { p; skip } else skip) () (if c then ts else []) k"
  by (rule writes_weaken [OF writes_if [OF writes_then_skip [OF assms] writes_skip]]) simp_all

lemma writes_mvex: "writes (Suc (Suc d)) (write_mvex m) ()
    [node ''mvex'' ((if m_has_video m then [leaf ''trex''] else []) @ (if m_has_audio m then [leaf ''trex''] else []))] 72"
  unfolding write_mvex_def
  by (rule writes_weaken, (rule writes_nested writes_bind writes_opt writes_trex | simp add: container_names_def)+)

lemma moov_box_emits:
  assumes "length (audio_asc f m) \<le> 1000" and "length (m_sps m) \<le> 256" and "length (m_pps m) \<le> 128"
    and "length (m_vps m) \<le> 256"
  shows "\<exists>bs. (\<forall>n. emits n (moov_box f m) () (box ''moov'' bs)) \<and> length bs \<le> 6000 \<and>
    tree_of (Suc (Suc (Suc (Suc (Suc d))))) bs = moov_children (m_has_video m) (m_has_audio m)"
proof -
  have mvhd: "writes (Suc k) (write_mvhd ts nt) True [leaf ''mvhd''] 108" for k ts nt
    using writes_leaf_box [OF emits_mvhd, of 108] by (simp add: container_names_def)
  have "writes (Suc (Suc (Suc (Suc (Suc d))))) (do {
     write_mvhd (if m_has_video m then vp_timescale (m_video m) else ap_sample_rate (m_audio m))
       (1 + (if m_has_video m then 1 else 0) + (if m_has_audio m then 1 else 0));
     (if m_has_video m then do { write_trak f m 1 False; skip } else skip);
     (if m_has_audio m then do { write_trak f m 2 True; skip } else skip);
     write_mvex m
   }) () (moov_children (m_has_video m) (m_has_audio m)) 6000"
    by (rule writes_weaken, (rule writes_bind writes_opt mvhd writes_trak [OF assms] writes_mvex
          | simp add: container_names_def)+) (simp add: moov_children_def)
  then obtain bs where bs: "\<forall>n. emits n (do {
     write_mvhd (if m_has_video m then vp_timescale (m_video m) else ap_sample_rate (m_audio m))
       (1 + (if m_has_video m then 1 else 0) + (if m_has_audio m then 1 else 0));
     (if m_has_video m then do { write_trak f m 1 False; skip } else skip);
     (if m_has_audio m then do { write_trak f m 2 True; skip } else skip);
     write_mvex m
   }) () bs" "length bs \<le> 6000"
    "tree_of (Suc (Suc (Suc (Suc (Suc d))))) (bs @ []) = moov_children (m_has_video m) (m_has_audio m) @ tree_of (Suc (Suc (Suc (Suc (Suc d))))) []"
    unfolding writes_def by blast
  then show ?thesis
    unfolding moov_box_def by (intro exI [of _ bs]) (auto intro!: emits_box simp del: tree_of.simps)
qed

lemma emits_ftyp: "emits n ftyp_box True (box ''ftyp'' (fourcc ''isom'' @ be32 0x200 @ fourcc ''isom'' @
    fourcc ''iso5'' @ fourcc ''iso6'' @ fourcc ''mp41''))"
  unfolding ftyp_box_def by (rule emits_intros | simp)+

lemma writes_ftyp: "writes (Suc d) ftyp_box True [leaf ''ftyp''] 32"
proof -
  have "writes_box ftyp_box True ''ftyp'' 24"
    unfolding writes_box_def using emits_ftyp by (intro exI) (rule conjI, blast, simp)
  from writes_leaf_box [OF this, of 32] show ?thesis by (simp add: container_names_def)
qed

end
