(* ===== verification/Rmr_Mux.thy ===== *)
theory Rmr_Mux
  imports Rmr_Moov
begin

text \<open>
  The fragmented MP4 muxer, \<^verbatim>\<open>rmr/rmr_mux.c\<close>: its public operations and the writing of a
  fragment. The write callback is the argument \<open>write_fn\<close>, a function on the state of the sink; a
  negative return value is a failed write.
\<close>

type_synonym 'c write_fn = "byte list \<Rightarrow> 'c \<Rightarrow> int \<times> 'c"

subsection \<open>Flushing the box buffer\<close>

definition run_box :: "(boxbuf, 'a) state \<Rightarrow> rmr_mux \<Rightarrow> 'a \<times> rmr_mux" where
  "run_box p m = (case run_state p (m_box m) of (r, b) \<Rightarrow> (r, m\<lparr>m_box := b\<rparr>))"

definition bb_flush :: "'c write_fn \<Rightarrow> rmr_mux \<times> 'c \<Rightarrow> int \<times> rmr_mux \<times> 'c" where
  "bb_flush write_fn s =
     (let (m, c) = s; bs = box_data (m_box m) in
      if bs = [] then (0, m, c)
      else
        let (ret, c1) = write_fn bs c
        in (ret, m\<lparr>bytes_written := bytes_written m + length bs, m_box := (m_box m)\<lparr>box_data := []\<rparr>\<rparr>, c1))"

definition write_ftyp :: "'c write_fn \<Rightarrow> rmr_mux \<times> 'c \<Rightarrow> int \<times> rmr_mux \<times> 'c" where
  "write_ftyp write_fn s =
     (let (m, c) = s; (_, m1) = run_box (do { bb_reset; ftyp_box }) m in bb_flush write_fn (m1, c))"

definition write_moov :: "asc_fn \<Rightarrow> 'c write_fn \<Rightarrow> rmr_mux \<times> 'c \<Rightarrow> int \<times> rmr_mux \<times> 'c" where
  "write_moov rss_aac_asc write_fn s =
     (let (m, c) = s; (_, m1) = run_box (do { bb_reset; moov_box rss_aac_asc m }) m in bb_flush write_fn (m1, c))"

subsection \<open>Fragments\<close>

primrec bb_each :: "('a \<Rightarrow> (boxbuf, bool) state) \<Rightarrow> 'a list \<Rightarrow> (boxbuf, unit) state" where
  "bb_each f [] = skip"
| "bb_each f (x # xs) = do { f x; bb_each f xs }"

definition video_trun_flags :: u32 where
  "video_trun_flags = 0x000001 OR 0x000100 OR 0x000200 OR 0x000400 OR 0x000800"

definition audio_trun_flags :: u32 where
  "audio_trun_flags = 0x000001 OR 0x000100 OR 0x000200"

text \<open>Both track fragments return the position of the data offset to patch.\<close>

definition video_traf :: "rmr_mux \<Rightarrow> (boxbuf, nat) state" where
  "video_traf m = in_box ''traf'' (do {
     in_fullbox ''tfhd'' 0 0x020000 (bb_w32 1);
     in_fullbox ''tfdt'' 1 0 (bb_w64 (word_of_int (v_base_dts m)));
     in_fullbox ''trun'' 0 video_trun_flags (do {
       bb_w32 (word_of_nat (length (v_samples m)));
       pos \<leftarrow> bb_len;
       bb_w32 0;
       bb_each (\<lambda>s. do {
         bb_w32 (smp_duration s);
         bb_w32 (smp_size s);
         bb_w32 (smp_flags s);
         bb_w32 (smp_cts s)
       }) (v_samples m);
       State_Monad.return pos
     })
   })"

definition audio_traf :: "rmr_mux \<Rightarrow> (boxbuf, nat) state" where
  "audio_traf m = in_box ''traf'' (do {
     in_fullbox ''tfhd'' 0 0x020000 (bb_w32 2);
     in_fullbox ''tfdt'' 1 0 (bb_w64 (word_of_int (a_base_dts m)));
     in_fullbox ''trun'' 0 audio_trun_flags (do {
       bb_w32 (word_of_nat (length (a_samples m)));
       pos \<leftarrow> bb_len;
       bb_w32 0;
       bb_each (\<lambda>s. do {
         bb_w32 (smp_duration s);
         bb_w32 (smp_size s)
       }) (a_samples m);
       State_Monad.return pos
     })
   })"

definition moof_box :: "rmr_mux \<Rightarrow> (boxbuf, nat \<times> nat) state" where
  "moof_box m = in_box ''moof'' (do {
     in_fullbox ''mfhd'' 0 0 (bb_w32 (frag_seq m));
     vpos \<leftarrow> (if v_samples m \<noteq> [] then video_traf m else State_Monad.return 0);
     apos \<leftarrow> (if a_samples m \<noteq> [] then audio_traf m else State_Monad.return 0);
     State_Monad.return (vpos, apos)
   })"

text \<open>Sizes add up in 32 bits; both offsets count from the start of the fragment.\<close>

definition build_moof :: "rmr_mux \<Rightarrow> (boxbuf, unit) state" where
  "build_moof m = do {
     bb_reset;
     (vpos, apos) \<leftarrow> moof_box m;
     moof_size \<leftarrow> bb_len;
     (if 0 < vpos then bb_patch32 vpos (word_of_nat moof_size + 8) else skip);
     (if 0 < apos then bb_patch32 apos (word_of_nat moof_size + 8 + sum_list (map smp_size (v_samples m))) else skip)
   }"

definition build_mdat_header :: "rmr_mux \<Rightarrow> (boxbuf, bool) state" where
  "build_mdat_header m = do {
     bb_reset;
     bb_w32 (8 + word_of_nat (length (v_data m)) + word_of_nat (length (a_data m)));
     bb_fourcc ''mdat''
   }"

text \<open>64 KB at a time, stopping at the first failure.\<close>

function write_chunks :: "'c write_fn \<Rightarrow> byte list \<Rightarrow> rmr_mux \<times> 'c \<Rightarrow> int \<times> rmr_mux \<times> 'c" where
  "write_chunks write_fn bs s =
     (if bs = [] then (0, s)
      else
        let (m, c) = s;
            chunk = take 65536 bs;
            (ret, c1) = write_fn chunk c
        in if ret < 0 then (-1, m, c1)
           else write_chunks write_fn (drop 65536 bs) (m\<lparr>bytes_written := bytes_written m + length chunk\<rparr>, c1))"
  by pat_completeness auto
termination
  by (relation "measure (\<lambda>(w, bs, s). length bs)") auto

declare write_chunks.simps [simp del]

definition fragment_done :: "rmr_mux \<Rightarrow> rmr_mux" where
  "fragment_done m = m\<lparr>
     v_duration := v_duration m + sum_list (map (\<lambda>s. int (unat (smp_duration s))) (v_samples m)),
     a_duration := a_duration m + sum_list (map (\<lambda>s. int (unat (smp_duration s))) (a_samples m)),
     v_samples := [], a_samples := [], v_data := [], a_data := []\<rparr>"

definition write_fragment :: "'c write_fn \<Rightarrow> rmr_mux \<times> 'c \<Rightarrow> int \<times> rmr_mux \<times> 'c" where
  "write_fragment write_fn s =
     (let (m, c) = s in
      if v_samples m = [] \<and> a_samples m = [] then (0, m, c)
      else
        let m1 = m\<lparr>frag_seq := frag_seq m + 1\<rparr>;
            (_, m2) = run_box (build_moof m1) m1;
            (r1, m3, c1) = bb_flush write_fn (m2, c)
        in if r1 < 0 then (-1, m3, c1)
           else
             let (_, m4) = run_box (build_mdat_header m3) m3;
                 (r2, m5, c2) = bb_flush write_fn (m4, c1)
             in if r2 < 0 then (-1, m5, c2)
                else
                  let (r3, m6, c3) = write_chunks write_fn (v_data m5) (m5, c2)
                  in if r3 < 0 then (-1, m6, c3)
                     else
                       let (r4, m7, c4) = write_chunks write_fn (a_data m6) (m6, c3)
                       in if r4 < 0 then (-1, m7, c4)
                          else (0, fragment_done m7, c4))"

subsection \<open>Public operations\<close>

definition boxbuf_zero :: "(nat \<Rightarrow> bool) \<Rightarrow> boxbuf" where
  "boxbuf_zero realloc = \<lparr>box_data = [], box_cap = 0, realloc_ok = realloc, bb_fault = False\<rparr>"

definition rmr_mux_create :: "(nat \<Rightarrow> bool) \<Rightarrow> bool \<Rightarrow> rmr_mux option" where
  "rmr_mux_create realloc calloc_ok =
     (if calloc_ok then Some \<lparr>m_has_video = False, m_has_audio = False,
        m_video = \<lparr>vp_codec = 0, vp_width = 0, vp_height = 0, vp_timescale = 0, vp_default_duration = 0\<rparr>,
        m_audio = \<lparr>ap_codec = 0, ap_sample_rate = 0, ap_channels = 0, ap_bits_per_sample = 0, ap_aot = 0\<rparr>,
        m_sps = [], m_pps = [], m_vps = [], frag_seq = 0, v_samples = [], v_base_dts = 0, a_samples = [],
        a_base_dts = 0, v_data = [], v_data_cap = 0, a_data = [], a_data_cap = 0, v_duration = 0,
        a_duration = 0, m_box = boxbuf_zero realloc, bytes_written = 0\<rparr>
      else None)"

text \<open>A missing parameter set is the empty list.\<close>

definition rmr_mux_set_video :: "rmr_video_params \<Rightarrow> byte list \<Rightarrow> byte list \<Rightarrow> byte list \<Rightarrow> rmr_mux \<Rightarrow> int \<times> rmr_mux" where
  "rmr_mux_set_video params sps pps vps mux =
     (let m = mux\<lparr>m_video := params, m_has_video := True\<rparr> in
      if vp_codec params = RMR_CODEC_MJPEG then (0, m)
      else if sps = [] \<or> pps = [] then (-1, m)
      else if 256 < length sps \<or> 128 < length pps then (-1, m)
      else if 256 < length vps then (-1, m)
      else (0, m\<lparr>m_sps := sps, m_pps := pps, m_vps := (if vps \<noteq> [] then vps else m_vps m)\<rparr>))"

definition rmr_mux_set_audio :: "rmr_audio_params \<Rightarrow> rmr_mux \<Rightarrow> int \<times> rmr_mux" where
  "rmr_mux_set_audio params mux = (0, mux\<lparr>m_audio := params, m_has_audio := True\<rparr>)"

definition rmr_mux_start :: "asc_fn \<Rightarrow> 'c write_fn \<Rightarrow> rmr_mux \<times> 'c \<Rightarrow> int \<times> rmr_mux \<times> 'c" where
  "rmr_mux_start rss_aac_asc write_fn s =
     (if \<not> m_has_video (fst s) \<and> \<not> m_has_audio (fst s) then (-1, s)
      else
        let (r1, s1) = write_ftyp write_fn s in
        if r1 < 0 then (-1, s1)
        else
          let (r2, s2) = write_moov rss_aac_asc write_fn s1
          in if r2 < 0 then (-1, s2) else (0, s2))"

definition buf_append :: "(nat \<Rightarrow> bool) \<Rightarrow> byte list \<Rightarrow> nat \<Rightarrow> byte list \<Rightarrow> (byte list \<times> nat) option" where
  "buf_append realloc buf cap bs =
     (if u32max - length buf < length bs then None
      else
        let need = length buf + length bs in
        if cap < need then
          (case grow_cap (if cap \<noteq> 0 then cap else 256 * 1024) need of
             None \<Rightarrow> None
           | Some cap1 \<Rightarrow> if realloc cap1 then Some (buf @ bs, cap1) else None)
        else Some (buf @ bs, cap))"

record rmr_video_sample =
  vs_data :: "byte list"
  vs_dts :: int
  vs_pts :: int
  vs_key :: bool

record rmr_audio_sample =
  as_data :: "byte list"
  as_dts :: int

text \<open>The previous sample's duration follows from the decode time of the next one.\<close>

definition patch_prev :: "int \<Rightarrow> int \<Rightarrow> mux_sample list \<Rightarrow> mux_sample list" where
  "patch_prev dts base samples =
     (if samples \<noteq> [] then
        let delta = dts - base;
            prev_sum = sum_list (map (\<lambda>s. int (unat (smp_duration s))) samples);
            i = length samples - 1
        in samples[i := (samples ! i)\<lparr>smp_duration := word_of_int (delta - prev_sum)\<rparr>]
      else samples)"

definition rmr_mux_write_video :: "rmr_video_sample \<Rightarrow> rmr_mux \<Rightarrow> int \<times> rmr_mux" where
  "rmr_mux_write_video sample mux =
     (if vs_data sample = [] then (-1, mux)
      else if MUX_MAX_SAMPLES \<le> length (v_samples mux) then (-1, mux)
      else
        let m1 = (if v_samples mux = [] then mux\<lparr>v_base_dts := vs_dts sample\<rparr> else mux);
            s = \<lparr>smp_size = word_of_nat (length (vs_data sample)), smp_duration = 0,
                 smp_flags = (if vs_key sample then 0x02000000 else 0x01010000),
                 smp_cts = word_of_int (vs_pts sample - vs_dts sample)\<rparr>;
            m2 = m1\<lparr>v_samples := patch_prev (vs_dts sample) (v_base_dts m1) (v_samples m1)\<rparr>
        in case buf_append (realloc_ok (m_box m2)) (v_data m2) (v_data_cap m2) (vs_data sample) of
             None \<Rightarrow> (-1, m2)
           | Some (d, cap) \<Rightarrow> (0, m2\<lparr>v_data := d, v_data_cap := cap, v_samples := v_samples m2 @ [s]\<rparr>))"

definition rmr_mux_write_audio :: "rmr_audio_sample \<Rightarrow> rmr_mux \<Rightarrow> int \<times> rmr_mux" where
  "rmr_mux_write_audio sample mux =
     (if as_data sample = [] then (-1, mux)
      else if MUX_MAX_SAMPLES \<le> length (a_samples mux) then (-1, mux)
      else
        let m1 = (if a_samples mux = [] then mux\<lparr>a_base_dts := as_dts sample\<rparr> else mux);
            s = \<lparr>smp_size = word_of_nat (length (as_data sample)), smp_duration = 0, smp_flags = 0, smp_cts = 0\<rparr>;
            m2 = m1\<lparr>a_samples := patch_prev (as_dts sample) (a_base_dts m1) (a_samples m1)\<rparr>
        in case buf_append (realloc_ok (m_box m2)) (a_data m2) (a_data_cap m2) (as_data sample) of
             None \<Rightarrow> (-1, m2)
           | Some (d, cap) \<Rightarrow> (0, m2\<lparr>a_data := d, a_data_cap := cap, a_samples := a_samples m2 @ [s]\<rparr>))"

definition set_last_duration :: "u32 \<Rightarrow> mux_sample list \<Rightarrow> mux_sample list" where
  "set_last_duration dur samples =
     samples[length samples - 1 := (samples ! (length samples - 1))\<lparr>smp_duration := dur\<rparr>]"

definition patch_last_video :: "rmr_mux \<Rightarrow> rmr_mux" where
  "patch_last_video m =
     (let vs = v_samples m; n = length vs in
      if 0 < n \<and> smp_duration (vs ! (n - 1)) = 0 then
        if 1 < n then m\<lparr>v_samples := set_last_duration (smp_duration (vs ! (n - 2))) vs\<rparr>
        else if 0 < vp_default_duration (m_video m)
        then m\<lparr>v_samples := set_last_duration (vp_default_duration (m_video m)) vs\<rparr>
        else if 0 < vp_timescale (m_video m)
        then m\<lparr>v_samples := set_last_duration (vp_timescale (m_video m) div 25) vs\<rparr>
        else m
      else m)"

definition patch_last_audio :: "rmr_mux \<Rightarrow> rmr_mux" where
  "patch_last_audio m =
     (let as = a_samples m; n = length as in
      if 0 < n \<and> smp_duration (as ! (n - 1)) = 0 then
        if 1 < n then m\<lparr>a_samples := set_last_duration (smp_duration (as ! (n - 2))) as\<rparr>
        else m\<lparr>a_samples := set_last_duration (ap_sample_rate (m_audio m) div 50) as\<rparr>
      else m)"

definition rmr_mux_flush_fragment :: "'c write_fn \<Rightarrow> rmr_mux \<times> 'c \<Rightarrow> int \<times> rmr_mux \<times> 'c" where
  "rmr_mux_flush_fragment write_fn s = write_fragment write_fn (patch_last_audio (patch_last_video (fst s)), snd s)"

text \<open>The patch position is the one the code computes: eight bytes before the end of the box.\<close>

definition build_mfra :: "(boxbuf, unit) state" where
  "build_mfra = do {
     bb_reset;
     in_box ''mfra'' (in_fullbox ''mfro'' 0 0 (bb_w32 0));
     mfra_size \<leftarrow> bb_len;
     bb_patch32 (mfra_size - 8) (word_of_nat mfra_size)
   }"

definition rmr_mux_finalize :: "'c write_fn \<Rightarrow> rmr_mux \<times> 'c \<Rightarrow> int \<times> rmr_mux \<times> 'c" where
  "rmr_mux_finalize write_fn s =
     (let (r, m, c) = (if v_samples (fst s) \<noteq> [] \<or> a_samples (fst s) \<noteq> []
                       then rmr_mux_flush_fragment write_fn s else (0, s))
      in if r < 0 then (-1, m, c)
         else let (_, m1) = run_box build_mfra m in bb_flush write_fn (m1, c))"

subsection \<open>The bytes of a fragment\<close>

definition video_entry :: "mux_sample \<Rightarrow> byte list" where
  "video_entry s = be32 (smp_duration s) @ be32 (smp_size s) @ be32 (smp_flags s) @ be32 (smp_cts s)"

definition audio_entry :: "mux_sample \<Rightarrow> byte list" where
  "audio_entry s = be32 (smp_duration s) @ be32 (smp_size s)"

definition traf_bytes :: "u32 \<Rightarrow> int \<Rightarrow> u32 \<Rightarrow> (mux_sample \<Rightarrow> byte list) \<Rightarrow> mux_sample list \<Rightarrow> u32 \<Rightarrow> byte list" where
  "traf_bytes track base flags entry ss off =
     box ''traf'' (fullbox ''tfhd'' 0 0x020000 (be32 track) @ fullbox ''tfdt'' 1 0 (be64 (word_of_int base)) @
       fullbox ''trun'' 0 flags (be32 (word_of_nat (length ss)) @ be32 off @ concat (map entry ss)))"

definition video_traf_bytes :: "rmr_mux \<Rightarrow> u32 \<Rightarrow> byte list" where
  "video_traf_bytes m off =
     (if v_samples m \<noteq> [] then traf_bytes 1 (v_base_dts m) video_trun_flags video_entry (v_samples m) off else [])"

definition audio_traf_bytes :: "rmr_mux \<Rightarrow> u32 \<Rightarrow> byte list" where
  "audio_traf_bytes m off =
     (if a_samples m \<noteq> [] then traf_bytes 2 (a_base_dts m) audio_trun_flags audio_entry (a_samples m) off else [])"

definition moof_bytes :: "rmr_mux \<Rightarrow> u32 \<Rightarrow> u32 \<Rightarrow> byte list" where
  "moof_bytes m voff aoff =
     box ''moof'' (fullbox ''mfhd'' 0 0 (be32 (frag_seq m)) @ video_traf_bytes m voff @ audio_traf_bytes m aoff)"

lemma length_video_entries [simp]: "length (concat (map video_entry ss)) = 16 * length ss"
  by (induction ss) (simp_all add: video_entry_def)

lemma length_audio_entries [simp]: "length (concat (map audio_entry ss)) = 8 * length ss"
  by (induction ss) (simp_all add: audio_entry_def)

lemma length_video_traf [simp]:
  "length (video_traf_bytes m off) = (if v_samples m \<noteq> [] then 64 + 16 * length (v_samples m) else 0)"
  by (simp add: video_traf_bytes_def traf_bytes_def)

lemma length_audio_traf [simp]:
  "length (audio_traf_bytes m off) = (if a_samples m \<noteq> [] then 64 + 8 * length (a_samples m) else 0)"
  by (simp add: audio_traf_bytes_def traf_bytes_def)

lemma length_moof_bytes:
  "length (moof_bytes m voff aoff) = 24 + (if v_samples m \<noteq> [] then 64 + 16 * length (v_samples m) else 0) +
     (if a_samples m \<noteq> [] then 64 + 8 * length (a_samples m) else 0)"
  by (simp add: moof_bytes_def)

lemma emits_each:
  assumes "\<And>x n. emits n (f x) True (g x)"
  shows "emits n (bb_each f xs) () (concat (map g xs))"
proof (induction xs arbitrary: n)
  case Nil
  then show ?case by (simp add: emits_skip)
next
  case (Cons x xs)
  have "emits n (f x \<bind> (\<lambda>_. bb_each f xs)) () (g x @ concat (map g xs))"
    by (rule emits_bind, rule assms, rule Cons.IH)
  then show ?case by simp
qed

lemma emits_video_traf:
  "emits n (video_traf m) (n + 60) (traf_bytes 1 (v_base_dts m) video_trun_flags video_entry (v_samples m) 0)"
proof -
  have each: "emits n (do { bb_w32 (smp_duration s); bb_w32 (smp_size s); bb_w32 (smp_flags s); bb_w32 (smp_cts s) }) True
      (video_entry s)" for n s
    unfolding video_entry_def by (rule emits_intros)+
  have "\<exists>r bs. emits n (video_traf m) r bs \<and> r = n + 60 \<and>
      bs = traf_bytes 1 (v_base_dts m) video_trun_flags video_entry (v_samples m) 0"
    unfolding video_traf_def
    by (rule exI, rule exI, rule conjI, (rule emits_intros emits_each each | simp)+) (simp add: traf_bytes_def fullbox_def)
  then show ?thesis by blast
qed

lemma emits_audio_traf:
  "emits n (audio_traf m) (n + 60) (traf_bytes 2 (a_base_dts m) audio_trun_flags audio_entry (a_samples m) 0)"
proof -
  have each: "emits n (do { bb_w32 (smp_duration s); bb_w32 (smp_size s) }) True (audio_entry s)" for n s
    unfolding audio_entry_def by (rule emits_intros)+
  have "\<exists>r bs. emits n (audio_traf m) r bs \<and> r = n + 60 \<and>
      bs = traf_bytes 2 (a_base_dts m) audio_trun_flags audio_entry (a_samples m) 0"
    unfolding audio_traf_def
    by (rule exI, rule exI, rule conjI, (rule emits_intros emits_each each | simp)+) (simp add: traf_bytes_def fullbox_def)
  then show ?thesis by blast
qed

definition vpos_of :: "rmr_mux \<Rightarrow> nat" where
  "vpos_of m = (if v_samples m \<noteq> [] then 84 else 0)"

definition apos_of :: "rmr_mux \<Rightarrow> nat" where
  "apos_of m = (if a_samples m \<noteq> [] then 84 + (if v_samples m \<noteq> [] then 64 + 16 * length (v_samples m) else 0) else 0)"

lemma emits_moof: "emits 0 (moof_box m) (vpos_of m, apos_of m) (moof_bytes m 0 0)"
proof -
  have "emits n (if v_samples m \<noteq> [] then video_traf m else State_Monad.return 0)
      (if v_samples m \<noteq> [] then n + 60 else 0) (video_traf_bytes m 0)" for n
    unfolding video_traf_bytes_def by (rule emits_if_result emits_video_traf emits_return)+
  note v = this
  have "emits n (if a_samples m \<noteq> [] then audio_traf m else State_Monad.return 0)
      (if a_samples m \<noteq> [] then n + 60 else 0) (audio_traf_bytes m 0)" for n
    unfolding audio_traf_bytes_def by (rule emits_if_result emits_audio_traf emits_return)+
  note a = this
  have "\<exists>r bs. emits 0 (moof_box m) r bs \<and> r = (vpos_of m, apos_of m) \<and> bs = moof_bytes m 0 0"
    unfolding moof_box_def
    by (rule exI, rule exI, rule conjI, rule emits_box, simp, rule emits_bind, rule emits_fullbox, simp, rule emits_w32,
        rule emits_bind, rule v, rule emits_bind, rule a, rule emits_return)
      (simp add: moof_bytes_def fullbox_def vpos_of_def apos_of_def)
  then show ?thesis by blast
qed

lemma patch_traf:
  "patch 60 (be32 new) (traf_bytes t b f e ss off) = traf_bytes t b f e ss new"
proof -
  have "patch 4 (be32 new) (be32 c @ be32 off @ xs) = be32 c @ be32 new @ xs" for c :: u32 and xs
    using patch_mid [of "be32 off" "be32 new" "be32 c" xs] by simp
  then show ?thesis
    by (simp add: traf_bytes_def fullbox_def patch_in_box patch_behind)
qed

lemma patch_vpos: "v_samples m \<noteq> [] \<Longrightarrow> patch (vpos_of m) (be32 new) (moof_bytes m voff aoff) = moof_bytes m new aoff"
proof -
  assume v: "v_samples m \<noteq> []"
  then have "patch 60 (be32 new) (video_traf_bytes m voff) = video_traf_bytes m new"
    by (simp add: video_traf_bytes_def patch_traf)
  with v show ?thesis
    by (simp add: moof_bytes_def vpos_of_def patch_in_box patch_behind patch_before)
qed

lemma patch_apos: "a_samples m \<noteq> [] \<Longrightarrow> patch (apos_of m) (be32 new) (moof_bytes m voff aoff) = moof_bytes m voff new"
proof -
  assume a: "a_samples m \<noteq> []"
  then have "patch 60 (be32 new) (audio_traf_bytes m aoff) = audio_traf_bytes m new"
    by (simp add: audio_traf_bytes_def patch_traf)
  with a show ?thesis
    by (simp add: moof_bytes_def apos_of_def patch_in_box patch_behind patch_before)
qed

lemma patch_run:
  assumes "bb_ok b" and "off + 4 \<le> length (box_data b)"
  shows "\<exists>b'. run_state (bb_patch32 off v) b = ((), b') \<and> bb_ok b' \<and> box_data b' = patch off (be32 v) (box_data b)"
  using assms by (auto simp: bb_patch32_def bb_ok_def State_Monad.update_def State_Monad.get_def
      State_Monad.set_def State_Monad.return_def)

definition moof_len :: "rmr_mux \<Rightarrow> nat" where
  "moof_len m = length (moof_bytes m 0 0)"

definition fragment_moof :: "rmr_mux \<Rightarrow> byte list" where
  "fragment_moof m = moof_bytes m (word_of_nat (moof_len m) + 8)
     (word_of_nat (moof_len m) + 8 + sum_list (map smp_size (v_samples m)))"

lemma length_fragment_moof: "length (fragment_moof m) = moof_len m"
  by (simp add: fragment_moof_def moof_len_def length_moof_bytes)

lemma moof_bytes_absent:
  "v_samples m = [] \<Longrightarrow> moof_bytes m x y = moof_bytes m x' y"
  "a_samples m = [] \<Longrightarrow> moof_bytes m x y = moof_bytes m x y'"
  by (simp_all add: moof_bytes_def video_traf_bytes_def audio_traf_bytes_def)

lemma bb_reset_run: "bb_ok b \<Longrightarrow> \<exists>b'. run_state bb_reset b = ((), b') \<and> bb_ok b' \<and> box_data b' = []"
  by (auto simp: bb_reset_def bb_ok_def State_Monad.update_def State_Monad.get_def State_Monad.set_def State_Monad.return_def)

lemma build_moof_run:
  assumes "bb_ok b" and "moof_len m \<le> bb_max"
  shows "\<exists>b'. run_state (build_moof m) b = ((), b') \<and> bb_ok b' \<and> box_data b' = fragment_moof m"
proof -
  let ?v = "word_of_nat (moof_len m) + 8 :: u32" and ?a = "word_of_nat (moof_len m) + 8 + sum_list (map smp_size (v_samples m)) :: u32"
  obtain b0 where b0: "run_state bb_reset b = ((), b0)" "bb_ok b0" "box_data b0 = []"
    using bb_reset_run [OF assms(1)] by auto
  obtain b1 where b1: "run_state (moof_box m) b0 = ((vpos_of m, apos_of m), b1)" "bb_ok b1" "box_data b1 = moof_bytes m 0 0"
    using emits_moof [of m] b0 assms(2) by (auto simp: emits_def moof_len_def)
  have "\<exists>b2. run_state (if 0 < vpos_of m then bb_patch32 (vpos_of m) ?v else skip) b1 = ((), b2) \<and> bb_ok b2 \<and>
      box_data b2 = moof_bytes m ?v 0"
  proof (cases "v_samples m = []")
    case True
    then show ?thesis
      using b1 moof_bytes_absent(1) [OF True, of 0 0 ?v] by (simp add: vpos_of_def skip_def State_Monad.return_def)
  next
    case False
    then have "vpos_of m + 4 \<le> length (box_data b1)" by (simp add: b1 vpos_of_def length_moof_bytes)
    then show ?thesis
      using patch_run [OF b1(2), of "vpos_of m" ?v] patch_vpos [OF False, of ?v 0 0] False
      by (auto simp: b1 vpos_of_def)
  qed
  then obtain b2 where b2: "run_state (if 0 < vpos_of m then bb_patch32 (vpos_of m) ?v else skip) b1 = ((), b2)" "bb_ok b2"
      "box_data b2 = moof_bytes m ?v 0"
    by blast
  have "\<exists>b3. run_state (if 0 < apos_of m then bb_patch32 (apos_of m) ?a else skip) b2 = ((), b3) \<and> bb_ok b3 \<and>
      box_data b3 = moof_bytes m ?v ?a"
  proof (cases "a_samples m = []")
    case True
    then show ?thesis
      using b2 moof_bytes_absent(2) [OF True, of ?v 0 ?a] by (simp add: apos_of_def skip_def State_Monad.return_def)
  next
    case False
    then have "apos_of m + 4 \<le> length (box_data b2)" by (simp add: b2 apos_of_def length_moof_bytes)
    then show ?thesis
      using patch_run [OF b2(2), of "apos_of m" ?a] patch_apos [OF False, of ?a ?v 0] False
      by (auto simp: b2 apos_of_def)
  qed
  then obtain b3 where b3: "run_state (if 0 < apos_of m then bb_patch32 (apos_of m) ?a else skip) b2 = ((), b3)" "bb_ok b3"
      "box_data b3 = moof_bytes m ?v ?a"
    by blast
  have "run_state bb_len b1 = (moof_len m, b1)" by (simp add: bb_len_def b1 moof_len_def)
  with b0 b1 b2 b3 show ?thesis
    by (simp add: build_moof_def fragment_moof_def)
qed

lemma build_mdat_header_run:
  assumes "bb_ok b"
  shows "\<exists>b'. run_state (build_mdat_header m) b = (True, b') \<and> bb_ok b' \<and>
    box_data b' = be32 (8 + word_of_nat (length (v_data m)) + word_of_nat (length (a_data m))) @ fourcc ''mdat''"
proof -
  obtain b0 where b0: "run_state bb_reset b = ((), b0)" "bb_ok b0" "box_data b0 = []"
    using bb_reset_run [OF assms] by auto
  have "emits 0 (do { bb_w32 (8 + word_of_nat (length (v_data m)) + word_of_nat (length (a_data m))); bb_fourcc ''mdat'' }) True
      (be32 (8 + word_of_nat (length (v_data m)) + word_of_nat (length (a_data m))) @ fourcc ''mdat'')"
    by (rule emits_intros)+
  then show ?thesis
    using b0 by (auto simp: emits_def build_mdat_header_def bb_max_def)
qed

subsection \<open>Writing to a sink\<close>

text \<open>
  The interface of the write callback: while the sink is valid, a write succeeds, keeps it
  valid and appends to its contents. The muxer's correctness is proved once against it.
\<close>

locale byte_sink =
  fixes write_fn :: "'c write_fn" and contents :: "'c \<Rightarrow> byte list" and valid :: "'c \<Rightarrow> bool"
  assumes accepts: "valid c \<Longrightarrow> fst (write_fn bs c) = 0"
    and keeps: "valid c \<Longrightarrow> valid (snd (write_fn bs c))"
    and appends: "valid c \<Longrightarrow> contents (snd (write_fn bs c)) = contents c @ bs"
begin

lemma write_sink:
  assumes "valid c"
  obtains c' where "write_fn bs c = (0, c')" "valid c'" "contents c' = contents c @ bs"
  using assms accepts keeps appends by (metis prod.collapse)

lemma flush_sink:
  assumes "valid c"
  shows "\<exists>c'. bb_flush write_fn (m, c) =
      (0, m\<lparr>bytes_written := bytes_written m + length (box_data (m_box m)), m_box := (m_box m)\<lparr>box_data := []\<rparr>\<rparr>, c') \<and>
    valid c' \<and> contents c' = contents c @ box_data (m_box m)"
proof (cases "box_data (m_box m) = []")
  case True
  then show ?thesis using assms by (simp add: bb_flush_def)
next
  case False
  obtain c' where "write_fn (box_data (m_box m)) c = (0, c')" "valid c'" "contents c' = contents c @ box_data (m_box m)"
    using write_sink [OF assms] .
  then show ?thesis using False by (simp add: bb_flush_def)
qed

lemma chunks_sink:
  "valid c \<Longrightarrow> \<exists>c'. write_chunks write_fn bs (m, c) = (0, m\<lparr>bytes_written := bytes_written m + length bs\<rparr>, c') \<and>
    valid c' \<and> contents c' = contents c @ bs"
proof (induction "length bs" arbitrary: bs m c rule: less_induct)
  case less
  show ?case
  proof (cases "bs = []")
    case True
    then show ?thesis using less.prems by (subst write_chunks.simps) simp
  next
    case False
    obtain c1 where c1: "write_fn (take 65536 bs) c = (0, c1)" "valid c1" "contents c1 = contents c @ take 65536 bs"
      using write_sink [OF less.prems] .
    have "length (drop 65536 bs) < length bs" using False by (cases bs) simp_all
    from less.hyps [OF this c1(2), of "m\<lparr>bytes_written := bytes_written m + length (take 65536 bs)\<rparr>"] obtain c2
      where "write_chunks write_fn (drop 65536 bs) (m\<lparr>bytes_written := bytes_written m + length (take 65536 bs)\<rparr>, c1) =
          (0, m\<lparr>bytes_written := bytes_written m + length (take 65536 bs) + length (drop 65536 bs)\<rparr>, c2)"
        "valid c2" "contents c2 = contents c1 @ drop 65536 bs"
      by auto
    moreover have "length (take 65536 bs) + length (drop 65536 bs) = length bs"
      by (simp flip: length_append)
    ultimately show ?thesis
      using False c1 by (subst write_chunks.simps) (simp add: add.assoc)
  qed
qed

end

definition mdat_box :: "rmr_mux \<Rightarrow> byte list" where
  "mdat_box m = box ''mdat'' (v_data m @ a_data m)"

definition next_seq :: "rmr_mux \<Rightarrow> rmr_mux" where
  "next_seq m = m\<lparr>frag_seq := frag_seq m + 1\<rparr>"

text \<open>The bytes one flush adds to the file.\<close>

definition fragment_bytes :: "rmr_mux \<Rightarrow> byte list" where
  "fragment_bytes m =
     (if v_samples m = [] \<and> a_samples m = [] then [] else fragment_moof (next_seq m) @ mdat_box m)"

definition within_limits :: "rmr_mux \<Rightarrow> bool" where
  "within_limits m \<longleftrightarrow> bb_ok (m_box m) \<and> length (v_samples m) \<le> MUX_MAX_SAMPLES \<and> length (a_samples m) \<le> MUX_MAX_SAMPLES"

lemma moof_len_le: "within_limits m \<Longrightarrow> moof_len (next_seq m) \<le> 50000"
  by (simp add: within_limits_def moof_len_def length_moof_bytes next_seq_def MUX_MAX_SAMPLES_def)

context byte_sink
begin

lemma fragment_sink:
  assumes "within_limits m" and "valid c"
  shows "\<exists>b n c'. write_fragment write_fn (m, c) =
      (0, (if v_samples m = [] \<and> a_samples m = [] then m else fragment_done ((next_seq m)\<lparr>m_box := b, bytes_written := n\<rparr>)), c') \<and>
    bb_ok b \<and> valid c' \<and> contents c' = contents c @ fragment_bytes m"
proof (cases "v_samples m = [] \<and> a_samples m = []")
  case True
  then show ?thesis
    using assms by (intro exI [of _ "m_box m"]) (simp add: write_fragment_def fragment_bytes_def within_limits_def)
next
  case False
  let ?m1 = "m\<lparr>frag_seq := frag_seq m + 1\<rparr>"
  have "bb_ok (m_box ?m1)" "moof_len ?m1 \<le> bb_max"
    using assms(1) moof_len_le [OF assms(1)] by (simp_all add: within_limits_def next_seq_def bb_max_def)
  then obtain b1 where b1: "run_state (build_moof ?m1) (m_box ?m1) = ((), b1)" "bb_ok b1" "box_data b1 = fragment_moof ?m1"
    using build_moof_run by blast
  define m2 where "m2 = ?m1\<lparr>m_box := b1\<rparr>"
  define m3 where "m3 = m2\<lparr>bytes_written := bytes_written m2 + length (box_data (m_box m2)), m_box := (m_box m2)\<lparr>box_data := []\<rparr>\<rparr>"
  obtain c1 where c1: "bb_flush write_fn (m2, c) = (0, m3, c1)" "valid c1" "contents c1 = contents c @ fragment_moof ?m1"
    using flush_sink [OF assms(2), of m2] by (auto simp: m3_def) (simp add: m2_def b1)
  have "bb_ok (m_box m3)" using b1 by (simp add: m3_def m2_def bb_ok_def)
  then obtain b4 where b4: "run_state (build_mdat_header m3) (m_box m3) = (True, b4)" "bb_ok b4"
      "box_data b4 = be32 (8 + word_of_nat (length (v_data m3)) + word_of_nat (length (a_data m3))) @ fourcc ''mdat''"
    using build_mdat_header_run by blast
  define m4 where "m4 = m3\<lparr>m_box := b4\<rparr>"
  define m5 where "m5 = m4\<lparr>bytes_written := bytes_written m4 + length (box_data (m_box m4)), m_box := (m_box m4)\<lparr>box_data := []\<rparr>\<rparr>"
  obtain c2 where c2: "bb_flush write_fn (m4, c1) = (0, m5, c2)" "valid c2" "contents c2 = contents c1 @ box_data b4"
    using flush_sink [OF c1(2), of m4] by (auto simp: m5_def) (simp add: m4_def)
  define m6 where "m6 = m5\<lparr>bytes_written := bytes_written m5 + length (v_data m5)\<rparr>"
  obtain c3 where c3: "write_chunks write_fn (v_data m5) (m5, c2) = (0, m6, c3)" "valid c3" "contents c3 = contents c2 @ v_data m5"
    using chunks_sink [OF c2(2), of "v_data m5" m5] by (auto simp: m6_def)
  define m7 where "m7 = m6\<lparr>bytes_written := bytes_written m6 + length (a_data m6)\<rparr>"
  obtain c4 where c4: "write_chunks write_fn (a_data m6) (m6, c3) = (0, m7, c4)" "valid c4" "contents c4 = contents c3 @ a_data m6"
    using chunks_sink [OF c3(2), of "a_data m6" m6] by (auto simp: m7_def)
  have m7: "m7 = (next_seq m)\<lparr>m_box := b4\<lparr>box_data := []\<rparr>, bytes_written := bytes_written m7\<rparr>"
    by (simp add: m7_def m6_def m5_def m4_def m3_def m2_def next_seq_def)
  have "write_fragment write_fn (m, c) = (0, fragment_done m7, c4)"
    using False b1(1) c1(1) b4(1) c2(1) c3(1) c4(1)
    by (simp add: write_fragment_def run_box_def Let_def flip: m2_def m4_def) blast
  moreover have "contents c4 = contents c @ fragment_moof ?m1 @ mdat_box m"
    by (simp add: c4 c3 c2 b4 c1 mdat_box_def box_def m6_def m5_def m4_def m3_def m2_def)
  moreover have "bb_ok (b4\<lparr>box_data := []\<rparr>)" using b4(2) by (simp add: bb_ok_def)
  ultimately show ?thesis
    using False c4(2) by (subst (asm) m7) (auto simp: fragment_bytes_def next_seq_def)
qed

end

subsection \<open>Reading a fragment back\<close>

lemma run_video_entries:
  "run_entries (length ss) video_trun_flags (concat (map video_entry ss) @ rest) =
     map (\<lambda>s. (smp_duration s, smp_size s, smp_flags s, smp_cts s)) ss"
  by (induction ss) (simp_all add: run_field_def video_trun_flags_def video_entry_def)

lemma run_audio_entries:
  "run_entries (length ss) audio_trun_flags (concat (map audio_entry ss) @ rest) =
     map (\<lambda>s. (smp_duration s, smp_size s, 0, 0)) ss"
  by (induction ss) (simp_all add: run_field_def audio_trun_flags_def audio_entry_def)

text \<open>The payload of a track fragment, and what it says about its track.\<close>

lemma read_traf_payload:
  fixes entry :: "mux_sample \<Rightarrow> byte list"
  assumes "length ss < 2 ^ 32" and "length (concat (map entry ss)) < 2 ^ 31" and "flags AND 0x00FFFFFF = flags"
    and "run_entries (length ss) flags (concat (map entry ss)) = es"
    and "map (\<lambda>(_, size, _). unat size) es = map length ds"
    and "drop (unat off) frag = concat ds @ rest"
  shows "read_traf frag (fullbox ''tfhd'' 0 0x020000 (be32 track) @ fullbox ''tfdt'' 1 0 (be64 base) @
      fullbox ''trun'' 0 flags (be32 (word_of_nat (length ss)) @ be32 off @ concat (map entry ss))) =
    \<lparr>tr_track = track, tr_base = base, tr_entries = es, tr_samples = ds\<rparr>"
proof -
  let ?p = "fullbox ''tfhd'' 0 0x020000 (be32 track) @ fullbox ''tfdt'' 1 0 (be64 base) @
      fullbox ''trun'' 0 flags (be32 (word_of_nat (length ss)) @ be32 off @ concat (map entry ss))"
  let ?body = "be32 (word_of_nat (length ss)) @ be32 off @ concat (map entry ss)"
  have "children ''tfhd'' ?p = [be32 0x020000 @ be32 track]"
    "children ''tfdt'' ?p = [be32 0x01000000 @ be64 base]"
    "children ''trun'' ?p = [be32 flags @ ?body]"
    using assms(2,3) by (simp_all add: fullbox_def)
  moreover have "unat (word_of_nat (length ss) :: u32) = length ss"
    using assms(1) by (rule unat_of_nat_u32)
  ultimately show ?thesis
    using assms(3-6) by (simp add: read_traf_def Let_def cut_concat)
qed

text \<open>The samples of a fragment as they were handed to the muxer.\<close>

definition holds :: "rmr_mux \<Rightarrow> byte list list \<Rightarrow> byte list list \<Rightarrow> bool" where
  "holds m vds ads \<longleftrightarrow> v_data m = concat vds \<and> a_data m = concat ads \<and>
     map (\<lambda>s. unat (smp_size s)) (v_samples m) = map length vds \<and>
     map (\<lambda>s. unat (smp_size s)) (a_samples m) = map length ads"

definition video_run :: "rmr_mux \<Rightarrow> byte list list \<Rightarrow> track_run" where
  "video_run m ds = \<lparr>tr_track = 1, tr_base = word_of_int (v_base_dts m),
     tr_entries = map (\<lambda>s. (smp_duration s, smp_size s, smp_flags s, smp_cts s)) (v_samples m), tr_samples = ds\<rparr>"

definition audio_run :: "rmr_mux \<Rightarrow> byte list list \<Rightarrow> track_run" where
  "audio_run m ds = \<lparr>tr_track = 2, tr_base = word_of_int (a_base_dts m),
     tr_entries = map (\<lambda>s. (smp_duration s, smp_size s, 0, 0)) (a_samples m), tr_samples = ds\<rparr>"

definition fragment_runs :: "rmr_mux \<Rightarrow> byte list list \<Rightarrow> byte list list \<Rightarrow> track_run list" where
  "fragment_runs m vds ads =
     (if v_samples m \<noteq> [] then [video_run m vds] else []) @ (if a_samples m \<noteq> [] then [audio_run m ads] else [])"

lemma sum_sizes:
  "map (\<lambda>s. unat (smp_size s)) ss = map length ds \<Longrightarrow> length (concat ds) < 2 ^ 32 \<Longrightarrow>
     sum_list (map smp_size ss) = word_of_nat (length (concat ds))"
proof (induction ss arbitrary: ds)
  case (Cons s ss)
  then obtain d ds' where ds: "ds = d # ds'" "unat (smp_size s) = length d" "map (\<lambda>s. unat (smp_size s)) ss = map length ds'"
    by (cases ds) auto
  have "smp_size s = word_of_nat (length d)" by (simp flip: ds(2))
  then show ?case using Cons.IH [OF ds(3)] Cons.prems(2) by (simp add: ds(1))
qed simp

lemma read_fragment_bytes:
  assumes "within_limits m" and "holds m vds ads" and "v_samples m \<noteq> [] \<or> a_samples m \<noteq> []"
    and "length (v_data m) + length (a_data m) < 2 ^ 31"
  shows "read_fragment (fragment_bytes m) = fragment_runs m vds ads"
proof -
  let ?m = "next_seq m" and ?F = "fragment_bytes m"
  define L where "L = moof_len ?m"
  have L: "L \<le> 50000" using moof_len_le [OF assms(1)] by (simp add: L_def)
  let ?voff = "word_of_nat L + 8 :: u32" and ?aoff = "word_of_nat L + 8 + sum_list (map smp_size (v_samples ?m)) :: u32"
  have F: "?F = fragment_moof ?m @ mdat_box m" using assms(3) by (auto simp: fragment_bytes_def)
  have same [simp]: "v_samples ?m = v_samples m" "a_samples ?m = a_samples m" "v_base_dts ?m = v_base_dts m"
    "a_base_dts ?m = a_base_dts m"
    by (simp_all add: next_seq_def)
  have data: "v_data m = concat vds" "a_data m = concat ads"
    "map (\<lambda>s. unat (smp_size s)) (v_samples m) = map length vds"
    "map (\<lambda>s. unat (smp_size s)) (a_samples m) = map length ads"
    using assms(2) by (simp_all add: holds_def)
  have sum: "sum_list (map smp_size (v_samples m)) = word_of_nat (length (concat vds))"
    using assms(4) data by (intro sum_sizes) simp_all
  have off: "unat ?voff = L + 8" "unat ?aoff = L + 8 + length (concat vds)"
    using L assms(4) unat_of_nat_u32 [of "L + 8"] unat_of_nat_u32 [of "L + 8 + length (concat vds)"]
    by (simp_all add: sum data)
  have len: "length (fragment_moof ?m) = L" by (simp add: length_fragment_moof L_def)
  have dropv: "drop (L + 8) ?F = concat vds @ concat ads"
    using len by (simp add: F mdat_box_def box_def data)
  then have dropa: "drop (L + 8 + length (concat vds)) ?F = concat ads @ []"
    by (simp add: add.commute [of _ "length (concat vds)"] flip: drop_drop)
  have counts: "length (v_samples m) \<le> 2048" "length (a_samples m) \<le> 2048"
    using assms(1) by (simp_all add: within_limits_def MUX_MAX_SAMPLES_def)
  define pv where "pv = fullbox ''tfhd'' 0 0x020000 (be32 1) @ fullbox ''tfdt'' 1 0 (be64 (word_of_int (v_base_dts m))) @
      fullbox ''trun'' 0 video_trun_flags (be32 (word_of_nat (length (v_samples m))) @ be32 ?voff @ concat (map video_entry (v_samples m)))"
  define pa where "pa = fullbox ''tfhd'' 0 0x020000 (be32 2) @ fullbox ''tfdt'' 1 0 (be64 (word_of_int (a_base_dts m))) @
      fullbox ''trun'' 0 audio_trun_flags (be32 (word_of_nat (length (a_samples m))) @ be32 ?aoff @ concat (map audio_entry (a_samples m)))"
  have "read_traf ?F pv = video_run m vds"
    unfolding pv_def video_run_def
    using counts run_video_entries [of "v_samples m" "[]"] data(3) dropv off
    by (intro read_traf_payload) (simp_all add: video_trun_flags_def comp_def case_prod_unfold)
  moreover have "read_traf ?F pa = audio_run m ads"
    unfolding pa_def audio_run_def
    using counts run_audio_entries [of "a_samples m" "[]"] data(4) dropa off
    by (intro read_traf_payload) (simp_all add: audio_trun_flags_def comp_def case_prod_unfold)
  moreover have "hd (children ''moof'' ?F) = fullbox ''mfhd'' 0 0 (be32 (frag_seq ?m)) @
      (if v_samples m \<noteq> [] then box ''traf'' pv else []) @ (if a_samples m \<noteq> [] then box ''traf'' pa else [])"
    unfolding F fragment_moof_def moof_bytes_def video_traf_bytes_def audio_traf_bytes_def traf_bytes_def same
      L_def [symmetric] pv_def [symmetric] pa_def [symmetric]
    using counts by (subst children_box) (auto simp: pv_def pa_def)
  moreover have "8 + length pv < 2 ^ 32" "8 + length pa < 2 ^ 32"
    using counts by (simp_all add: pv_def pa_def)
  ultimately show ?thesis
    by (simp add: read_fragment_def fragment_runs_def fullbox_def [of "''mfhd''"] del: length_fullbox)
qed

subsection \<open>Collecting samples\<close>

lemma buf_append_ok:
  assumes "length buf + length bs \<le> bb_max"
  shows "\<exists>cap'. buf_append (\<lambda>_. True) buf cap bs = Some (buf @ bs, cap')"
proof -
  have "0 < (if cap \<noteq> 0 then cap else 256 * 1024)" by simp
  from grow_cap_ok [OF assms this]
  obtain c where c: "grow_cap (if cap \<noteq> 0 then cap else 256 * 1024) (length buf + length bs) = Some c" by blast
  have "\<not> u32max - length buf < length bs" using assms by (simp add: bb_max_def u32max_def)
  then show ?thesis using c by (cases "cap = 0") (simp_all add: buf_append_def Let_def)
qed

text \<open>
  \<open>timed base ss ds\<close>: the samples \<open>ss\<close> have the decode times \<open>ds\<close>. A duration is the step to the
  next sample, and the last sample has none yet.
\<close>

definition timed :: "int \<Rightarrow> mux_sample list \<Rightarrow> int list \<Rightarrow> bool" where
  "timed base ss ds \<longleftrightarrow> length ss = length ds \<and> (ds \<noteq> [] \<longrightarrow> base = hd ds) \<and>
     (\<forall>i. i + 1 < length ds \<longrightarrow> smp_duration (ss ! i) = word_of_int (ds ! (i + 1) - ds ! i)) \<and>
     (ds \<noteq> [] \<longrightarrow> smp_duration (last ss) = 0)"

text \<open>Decode times go forward by less than \<open>2\<^sup>3\<^sup>2\<close> ticks a step.\<close>

fun steps_ok :: "int list \<Rightarrow> bool" where
  "steps_ok (a # b # ds) \<longleftrightarrow> 0 \<le> b - a \<and> b - a < 2 ^ 32 \<and> steps_ok (b # ds)"
| "steps_ok _ \<longleftrightarrow> True"

lemma steps_ok_append: "steps_ok (ds @ [d]) \<longleftrightarrow>
    steps_ok ds \<and> (ds \<noteq> [] \<longrightarrow> 0 \<le> d - last ds \<and> d - last ds < 2 ^ 32)"
  by (induction ds rule: steps_ok.induct) auto

lemma unat_word_of_step: "0 \<le> (x::int) \<Longrightarrow> x < 2 ^ 32 \<Longrightarrow> int (unat (word_of_int x :: u32)) = x"
  by (simp add: unsigned_of_int take_bit_int_eq_self)

lemma steps_ok_nth: "steps_ok ds \<Longrightarrow> i + 1 < length ds \<Longrightarrow> 0 \<le> ds ! (i + 1) - ds ! i \<and> ds ! (i + 1) - ds ! i < 2 ^ 32"
proof (induction ds arbitrary: i rule: steps_ok.induct)
  case (1 a b ds)
  then show ?case by (cases i) auto
qed auto

lemma sum_steps:
  "ds \<noteq> [] \<Longrightarrow> (\<Sum>i<length ds - 1. ds ! (i + 1) - ds ! i) = last ds - (hd ds :: int)"
proof (induction ds rule: rev_nonempty_induct)
  case (snoc x xs)
  obtain n where n: "length xs = Suc n" using snoc.hyps by (cases "length xs") auto
  have "(\<Sum>i<n. (xs @ [x]) ! (i + 1) - (xs @ [x]) ! i) = (\<Sum>i<n. xs ! (i + 1) - xs ! i)"
    by (rule sum.cong) (auto simp: nth_append n)
  then show ?case
    using snoc n by (simp add: nth_append last_conv_nth hd_append)
qed simp

lemma timed_sum:
  assumes "timed base ss ds" and "steps_ok ds" and "ds \<noteq> []"
  shows "sum_list (map (\<lambda>s. int (unat (smp_duration s))) ss) = last ds - base"
proof -
  let ?f = "\<lambda>s. int (unat (smp_duration s))"
  obtain n where n: "length ds = Suc n" using assms(3) by (cases ds) auto
  have len: "length ss = Suc n" using assms(1) n by (simp add: timed_def)
  have "sum_list (map ?f ss) = (\<Sum>i<Suc n. ?f (ss ! i))"
    by (simp add: sum_list_sum_nth len atLeast0LessThan)
  also have "\<dots> = (\<Sum>i<n. ?f (ss ! i)) + ?f (last ss)"
    using len by (cases ss rule: rev_cases) (auto simp: nth_append)
  also have "?f (last ss) = 0" using assms(1,3) by (simp add: timed_def)
  also have "(\<Sum>i<n. ?f (ss ! i)) = (\<Sum>i<n. ds ! (i + 1) - ds ! i)"
  proof (rule sum.cong [OF refl])
    fix i assume "i \<in> {..<n}"
    then have i: "i + 1 < length ds" by (simp add: n)
    then have "smp_duration (ss ! i) = word_of_int (ds ! (i + 1) - ds ! i)"
      using assms(1) by (simp add: timed_def)
    then show "?f (ss ! i) = ds ! (i + 1) - ds ! i"
      using steps_ok_nth [OF assms(2) i] by (simp only: unat_word_of_step)
  qed
  also have "\<dots> = last ds - hd ds" using sum_steps [OF assms(3)] by (simp add: n)
  finally show ?thesis using assms(1,3) by (simp add: timed_def)
qed

lemma timed_snoc:
  assumes "timed base ss ds" and "steps_ok ds" and "smp_duration s = 0" and "ds = [] \<Longrightarrow> base = d"
  shows "timed base (patch_prev d base ss @ [s]) (ds @ [d])"
proof (cases "ds = []")
  case True
  then show ?thesis using assms by (simp add: timed_def patch_prev_def)
next
  case False
  let ?i = "length ss - 1"
  have len: "length ss = length ds" "ss \<noteq> []" using assms(1) False by (auto simp: timed_def)
  have p: "patch_prev d base ss = ss[?i := (ss ! ?i)\<lparr>smp_duration := word_of_int (d - last ds)\<rparr>]"
    using timed_sum [OF assms(1,2) False] len(2) by (simp add: patch_prev_def Let_def)
  have "smp_duration ((patch_prev d base ss @ [s]) ! i) = word_of_int ((ds @ [d]) ! (i + 1) - (ds @ [d]) ! i)"
    if "i + 1 < length (ds @ [d])" for i
  proof (cases "i + 1 < length ds")
    case True
    then show ?thesis
      using assms(1) len by (auto simp: p nth_append timed_def)
  next
    case F: False
    with that len have "i = ?i" "i + 1 = length ds" by simp_all
    then show ?thesis
      using len False by (simp add: p nth_append last_conv_nth)
  qed
  moreover have "length (patch_prev d base ss) = length ds" using len by (simp add: p)
  moreover have "base = hd (ds @ [d])" using assms(1) False by (simp add: timed_def)
  ultimately show ?thesis
    unfolding timed_def using assms(3) by simp
qed

definition video_flags :: "rmr_video_sample \<Rightarrow> u32" where
  "video_flags v = (if vs_key v then 0x02000000 else 0x01010000)"

definition video_cts :: "rmr_video_sample \<Rightarrow> u32" where
  "video_cts v = word_of_int (vs_pts v - vs_dts v)"

text \<open>The muxer holds exactly the samples \<open>vs\<close> and \<open>as\<close>, and can still write them.\<close>

definition collected :: "rmr_mux \<Rightarrow> rmr_video_sample list \<Rightarrow> rmr_audio_sample list \<Rightarrow> bool" where
  "collected m vs as \<longleftrightarrow> within_limits m \<and>
     v_data m = concat (map vs_data vs) \<and> a_data m = concat (map as_data as) \<and>
     map (\<lambda>s. (smp_size s, smp_flags s, smp_cts s)) (v_samples m) =
       map (\<lambda>v. (word_of_nat (length (vs_data v)), video_flags v, video_cts v)) vs \<and>
     map smp_size (a_samples m) = map (\<lambda>a. word_of_nat (length (as_data a))) as \<and>
     timed (v_base_dts m) (v_samples m) (map vs_dts vs) \<and> timed (a_base_dts m) (a_samples m) (map as_dts as)"

lemma patch_prev_fields [simp]:
  "length (patch_prev d b ss) = length ss"
  "map smp_size (patch_prev d b ss) = map smp_size ss"
  "map (\<lambda>s. (smp_size s, smp_flags s, smp_cts s)) (patch_prev d b ss) = map (\<lambda>s. (smp_size s, smp_flags s, smp_cts s)) ss"
  by (auto simp: patch_prev_def Let_def map_update intro!: list_update_same_conv [THEN iffD2] simp del: map_map
      split: if_splits)

lemma collected_counts: "collected m vs as \<Longrightarrow> length (v_samples m) = length vs \<and> length (a_samples m) = length as"
  by (auto simp: collected_def timed_def)

text \<open>What the rest of the muxer looks like does not change while samples are collected.\<close>

definition same_setup :: "rmr_mux \<Rightarrow> rmr_mux \<Rightarrow> bool" where
  "same_setup m m' \<longleftrightarrow> m_video m' = m_video m \<and> m_audio m' = m_audio m \<and> m_has_video m' = m_has_video m \<and>
     m_has_audio m' = m_has_audio m \<and> frag_seq m' = frag_seq m \<and> m_box m' = m_box m"

lemma write_video_collects:
  assumes "collected m vs as" and "steps_ok (map vs_dts vs)" and "vs_data v \<noteq> []" and "length vs < MUX_MAX_SAMPLES"
    and "length (v_data m) + length (vs_data v) \<le> bb_max"
  shows "\<exists>m'. rmr_mux_write_video v m = (0, m') \<and> collected m' (vs @ [v]) as \<and> same_setup m m'"
proof -
  define base where "base = (if v_samples m = [] then vs_dts v else v_base_dts m)"
  have n: "length (v_samples m) = length vs" using collected_counts [OF assms(1)] by simp
  have r: "realloc_ok (m_box m) = (\<lambda>_. True)"
    using assms(1) by (simp add: collected_def within_limits_def bb_ok_def)
  obtain cap where cap: "buf_append (\<lambda>_. True) (v_data m) (v_data_cap m) (vs_data v) = Some (v_data m @ vs_data v, cap)"
    using buf_append_ok [OF assms(5)] by blast
  have "timed base (v_samples m) (map vs_dts vs)"
    using assms(1) n by (cases vs) (auto simp: collected_def base_def timed_def)
  then have timed: "timed base (patch_prev (vs_dts v) base (v_samples m) @ [s]) (map vs_dts vs @ [vs_dts v])"
    if "smp_duration s = 0" for s
    using assms(2) that n by (intro timed_snoc) (auto simp: base_def)
  have "rmr_mux_write_video v m = (0, m\<lparr>v_base_dts := base, v_data := v_data m @ vs_data v, v_data_cap := cap,
      v_samples := patch_prev (vs_dts v) base (v_samples m) @ [\<lparr>smp_size = word_of_nat (length (vs_data v)), smp_duration = 0,
        smp_flags = video_flags v, smp_cts = video_cts v\<rparr>]\<rparr>)"
    using assms(3,4) n cap r
    by (simp add: rmr_mux_write_video_def Let_def base_def video_flags_def video_cts_def)
  then show ?thesis
    using assms(1,4) n timed by (simp add: collected_def within_limits_def same_setup_def)
qed

lemma write_audio_collects:
  assumes "collected m vs as" and "steps_ok (map as_dts as)" and "as_data a \<noteq> []" and "length as < MUX_MAX_SAMPLES"
    and "length (a_data m) + length (as_data a) \<le> bb_max"
  shows "\<exists>m'. rmr_mux_write_audio a m = (0, m') \<and> collected m' vs (as @ [a]) \<and> same_setup m m'"
proof -
  define base where "base = (if a_samples m = [] then as_dts a else a_base_dts m)"
  have n: "length (a_samples m) = length as" using collected_counts [OF assms(1)] by simp
  have r: "realloc_ok (m_box m) = (\<lambda>_. True)"
    using assms(1) by (simp add: collected_def within_limits_def bb_ok_def)
  obtain cap where cap: "buf_append (\<lambda>_. True) (a_data m) (a_data_cap m) (as_data a) = Some (a_data m @ as_data a, cap)"
    using buf_append_ok [OF assms(5)] by blast
  have "timed base (a_samples m) (map as_dts as)"
    using assms(1) n by (cases as) (auto simp: collected_def base_def timed_def)
  then have timed: "timed base (patch_prev (as_dts a) base (a_samples m) @ [s]) (map as_dts as @ [as_dts a])"
    if "smp_duration s = 0" for s
    using assms(2) that n by (intro timed_snoc) (auto simp: base_def)
  have "rmr_mux_write_audio a m = (0, m\<lparr>a_base_dts := base, a_data := a_data m @ as_data a, a_data_cap := cap,
      a_samples := patch_prev (as_dts a) base (a_samples m) @ [\<lparr>smp_size = word_of_nat (length (as_data a)), smp_duration = 0,
        smp_flags = 0, smp_cts = 0\<rparr>]\<rparr>)"
    using assms(3,4) n cap r
    by (simp add: rmr_mux_write_audio_def Let_def base_def)
  then show ?thesis
    using assms(1,4) n timed by (simp add: collected_def within_limits_def same_setup_def)
qed

subsection \<open>Any interleaving of samples\<close>

datatype mux_item = VideoItem rmr_video_sample | AudioItem rmr_audio_sample

fun write_item :: "mux_item \<Rightarrow> rmr_mux \<Rightarrow> rmr_mux" where
  "write_item (VideoItem v) m = snd (rmr_mux_write_video v m)"
| "write_item (AudioItem a) m = snd (rmr_mux_write_audio a m)"

fun videos :: "mux_item list \<Rightarrow> rmr_video_sample list" where
  "videos [] = []"
| "videos (VideoItem v # its) = v # videos its"
| "videos (AudioItem a # its) = videos its"

fun audios :: "mux_item list \<Rightarrow> rmr_audio_sample list" where
  "audios [] = []"
| "audios (VideoItem v # its) = audios its"
| "audios (AudioItem a # its) = a # audios its"

text \<open>
  What the recorder guarantees of the samples of one fragment: none is empty, there are no
  more than the muxer's tables hold, decode times go forward and the data fits 31 bits.
\<close>

definition items_ok :: "mux_item list \<Rightarrow> bool" where
  "items_ok its \<longleftrightarrow> list_all (\<lambda>v. vs_data v \<noteq> []) (videos its) \<and> list_all (\<lambda>a. as_data a \<noteq> []) (audios its) \<and>
     length (videos its) \<le> MUX_MAX_SAMPLES \<and> length (audios its) \<le> MUX_MAX_SAMPLES \<and>
     steps_ok (map vs_dts (videos its)) \<and> steps_ok (map as_dts (audios its)) \<and>
     length (concat (map vs_data (videos its))) + length (concat (map as_data (audios its))) < 2 ^ 31"

lemma videos_append [simp]: "videos (its @ js) = videos its @ videos js"
  by (induction its rule: videos.induct) simp_all

lemma audios_append [simp]: "audios (its @ js) = audios its @ audios js"
  by (induction its rule: audios.induct) simp_all

lemma items_ok_butlast: "items_ok (its @ [i]) \<Longrightarrow> items_ok its"
  by (cases i) (auto simp: items_ok_def steps_ok_append)

lemma same_setup_trans: "same_setup a b \<Longrightarrow> same_setup b c \<Longrightarrow> same_setup a c"
  by (simp add: same_setup_def)

lemma mux_items_collect:
  assumes "collected m [] []" and "items_ok its"
  shows "collected (fold write_item its m) (videos its) (audios its) \<and> same_setup m (fold write_item its m)"
  using assms(2)
proof (induction its rule: rev_induct)
  case Nil
  then show ?case using assms(1) by (simp add: same_setup_def)
next
  case (snoc i its)
  let ?m = "fold write_item its m"
  have IH: "collected ?m (videos its) (audios its)" "same_setup m ?m"
    using snoc items_ok_butlast by blast+
  have ok: "items_ok (its @ [i])" by fact
  have data: "v_data ?m = concat (map vs_data (videos its))" "a_data ?m = concat (map as_data (audios its))"
    using IH(1) by (simp_all add: collected_def)
  show ?case
  proof (cases i)
    case (VideoItem v)
    have "\<exists>m'. rmr_mux_write_video v ?m = (0, m') \<and> collected m' (videos its @ [v]) (audios its) \<and> same_setup ?m m'"
      using ok by (intro write_video_collects [OF IH(1)])
        (auto simp: VideoItem items_ok_def steps_ok_append data bb_max_def)
    then show ?thesis using IH(2) by (auto simp: VideoItem intro: same_setup_trans)
  next
    case (AudioItem a)
    have "\<exists>m'. rmr_mux_write_audio a ?m = (0, m') \<and> collected m' (videos its) (audios its @ [a]) \<and> same_setup ?m m'"
      using ok by (intro write_audio_collects [OF IH(1)])
        (auto simp: AudioItem items_ok_def steps_ok_append data bb_max_def)
    then show ?thesis using IH(2) by (auto simp: AudioItem intro: same_setup_trans)
  qed
qed

text \<open>
  The durations a fragment declares: the step to the next sample; the last sample repeats the
  step before it, or takes the default when it is alone.
\<close>

fun durations :: "u32 \<Rightarrow> int list \<Rightarrow> u32 list" where
  "durations dflt [] = []"
| "durations dflt [d] = [dflt]"
| "durations dflt (a # b # ds) = word_of_int (b - a) # durations (word_of_int (b - a)) (b # ds)"

lemma length_durations [simp]: "length (durations x ds) = length ds"
  by (induction x ds rule: durations.induct) simp_all

lemma nth_durations:
  "i < length ds \<Longrightarrow> durations x ds ! i =
     (if i + 1 < length ds then word_of_int (ds ! (i + 1) - ds ! i)
      else if 0 < i then word_of_int (ds ! i - ds ! (i - 1)) else x)"
proof (induction x ds arbitrary: i rule: durations.induct)
  case (3 x a b ds)
  then show ?case by (cases i) (auto simp: nth_Cons')
qed simp_all

lemma durations_patched:
  assumes "timed base ss ds" and "ds \<noteq> []"
    and "x = (if 1 < length ss then smp_duration (ss ! (length ss - 2)) else dflt)"
  shows "map smp_duration (set_last_duration x ss) = durations dflt ds"
proof (rule nth_equalityI)
  show "length (map smp_duration (set_last_duration x ss)) = length (durations dflt ds)"
    using assms(1) by (simp add: timed_def set_last_duration_def)
next
  fix i assume "i < length (map smp_duration (set_last_duration x ss))"
  then have i: "i < length ss" by (simp add: set_last_duration_def)
  have len: "length ss = length ds" using assms(1) by (simp add: timed_def)
  have step: "smp_duration (ss ! j) = word_of_int (ds ! (j + 1) - ds ! j)" if "j + 1 < length ds" for j
    using assms(1) that by (simp add: timed_def)
  show "map smp_duration (set_last_duration x ss) ! i = durations dflt ds ! i"
  proof (cases "i + 1 < length ds")
    case True
    then show ?thesis
      using i len step [OF True] by (simp add: nth_durations set_last_duration_def)
  next
    case False
    with i len have last: "i = length ss - 1" by simp
    show ?thesis
    proof (cases "0 < i")
      case True
      then have "length ss - 2 + 1 = i" "i - 1 = length ss - 2" using last by simp_all
      then show ?thesis
        using i len False True last step [of "i - 1"] assms(3) by (simp add: nth_durations set_last_duration_def)
    next
      case F: False
      then show ?thesis
        using i len False last assms(3) by (simp add: nth_durations set_last_duration_def)
    qed
  qed
qed

definition default_video :: "rmr_mux \<Rightarrow> u32" where
  "default_video m = (if 0 < vp_default_duration (m_video m) then vp_default_duration (m_video m)
     else vp_timescale (m_video m) div 25)"

definition default_audio :: "rmr_mux \<Rightarrow> u32" where
  "default_audio m = ap_sample_rate (m_audio m) div 50"

definition video_spec :: "u32 \<Rightarrow> rmr_video_sample list \<Rightarrow> track_run list" where
  "video_spec dflt vs = (if vs = [] then [] else [\<lparr>tr_track = 1, tr_base = word_of_int (vs_dts (hd vs)),
     tr_entries = map2 (\<lambda>d v. (d, word_of_nat (length (vs_data v)), video_flags v, video_cts v))
       (durations dflt (map vs_dts vs)) vs,
     tr_samples = map vs_data vs\<rparr>])"

definition audio_spec :: "u32 \<Rightarrow> rmr_audio_sample list \<Rightarrow> track_run list" where
  "audio_spec dflt as = (if as = [] then [] else [\<lparr>tr_track = 2, tr_base = word_of_int (as_dts (hd as)),
     tr_entries = map2 (\<lambda>d a. (d, word_of_nat (length (as_data a)), 0, 0)) (durations dflt (map as_dts as)) as,
     tr_samples = map as_data as\<rparr>])"

lemma duration_same: "smp_duration s = x \<Longrightarrow> s\<lparr>smp_duration := x\<rparr> = s"
  by (cases s) simp

lemma patch_last_video_eq:
  assumes "v_samples m \<noteq> []" and "smp_duration (last (v_samples m)) = 0"
  shows "patch_last_video m = m\<lparr>v_samples := set_last_duration (if 1 < length (v_samples m)
    then smp_duration (v_samples m ! (length (v_samples m) - 2)) else default_video m) (v_samples m)\<rparr>"
proof -
  have last: "smp_duration (v_samples m ! (length (v_samples m) - 1)) = 0"
    using assms by (simp add: last_conv_nth)
  have id: "set_last_duration 0 (v_samples m) = v_samples m"
    using last by (simp add: set_last_duration_def duration_same)
  have z: "\<not> 0 < x \<Longrightarrow> x = 0" for x :: u32 by (simp add: word_neq_0_conv [symmetric])
  show ?thesis
    using assms(1) last id z [of "vp_timescale (m_video m)"]
    by (auto simp: patch_last_video_def Let_def default_video_def)
qed

lemma patch_last_audio_eq:
  assumes "a_samples m \<noteq> []" and "smp_duration (last (a_samples m)) = 0"
  shows "patch_last_audio m = m\<lparr>a_samples := set_last_duration (if 1 < length (a_samples m)
    then smp_duration (a_samples m ! (length (a_samples m) - 2)) else default_audio m) (a_samples m)\<rparr>"
  using assms by (auto simp: patch_last_audio_def Let_def last_conv_nth default_audio_def)

lemma set_last_duration_fields [simp]:
  "length (set_last_duration x ss) = length ss"
  "map smp_size (set_last_duration x ss) = map smp_size ss"
  "map (\<lambda>s. (smp_size s, smp_flags s, smp_cts s)) (set_last_duration x ss) = map (\<lambda>s. (smp_size s, smp_flags s, smp_cts s)) ss"
  "set_last_duration x ss = [] \<longleftrightarrow> ss = []"
  by (cases "ss = []"; auto simp: set_last_duration_def map_update intro!: list_update_same_conv [THEN iffD2] simp del: map_map)+

text \<open>Entries from separately known columns.\<close>

lemma entries_columns:
  assumes "map smp_duration ss = ds" and "map (\<lambda>s. (smp_size s, smp_flags s, smp_cts s)) ss = map f vs"
  shows "map (\<lambda>s. (smp_duration s, smp_size s, smp_flags s, smp_cts s)) ss = map2 (\<lambda>d v. (d, f v)) ds vs"
  using assms
proof (induction ss arbitrary: ds vs)
  case (Cons s ss)
  then show ?case by (cases ds; cases vs) auto
qed simp

lemma audio_columns:
  assumes "map smp_duration ss = ds" and "map smp_size ss = map f vs"
  shows "map (\<lambda>s. (smp_duration s, smp_size s, 0, 0)) ss = map2 (\<lambda>d v. (d, f v, 0, 0)) ds vs"
  using assms
proof (induction ss arbitrary: ds vs)
  case (Cons s ss)
  then show ?case by (cases ds; cases vs) auto
qed simp

definition flushed :: "rmr_mux \<Rightarrow> rmr_mux" where
  "flushed m = patch_last_audio (patch_last_video m)"

text \<open>The two tables after the last durations are in place.\<close>

lemma flushed_video:
  assumes "collected m vs as"
  defines "m' \<equiv> flushed m"
  shows "v_data m' = v_data m \<and> a_data m' = a_data m \<and> m_box m' = m_box m \<and> v_base_dts m' = v_base_dts m \<and>
    a_base_dts m' = a_base_dts m \<and> frag_seq m' = frag_seq m \<and>
    map smp_duration (v_samples m') = durations (default_video m) (map vs_dts vs) \<and>
    map (\<lambda>s. (smp_size s, smp_flags s, smp_cts s)) (v_samples m') =
      map (\<lambda>v. (word_of_nat (length (vs_data v)), video_flags v, video_cts v)) vs \<and>
    map smp_duration (a_samples m') = durations (default_audio m) (map as_dts as) \<and>
    map smp_size (a_samples m') = map (\<lambda>a. word_of_nat (length (as_data a))) as"
proof -
  define mv where "mv = patch_last_video m"
  have c: "timed (v_base_dts m) (v_samples m) (map vs_dts vs)" "timed (a_base_dts m) (a_samples m) (map as_dts as)"
    "map (\<lambda>s. (smp_size s, smp_flags s, smp_cts s)) (v_samples m) =
      map (\<lambda>v. (word_of_nat (length (vs_data v)), video_flags v, video_cts v)) vs"
    "map smp_size (a_samples m) = map (\<lambda>a. word_of_nat (length (as_data a))) as"
    using assms(1) by (simp_all add: collected_def)
  have mv: "v_data mv = v_data m \<and> a_data mv = a_data m \<and> m_box mv = m_box m \<and> v_base_dts mv = v_base_dts m \<and>
    a_base_dts mv = a_base_dts m \<and> frag_seq mv = frag_seq m \<and> a_samples mv = a_samples m \<and> m_audio mv = m_audio m \<and>
    map smp_duration (v_samples mv) = durations (default_video m) (map vs_dts vs) \<and>
    map (\<lambda>s. (smp_size s, smp_flags s, smp_cts s)) (v_samples mv) =
      map (\<lambda>v. (word_of_nat (length (vs_data v)), video_flags v, video_cts v)) vs"
  proof (cases "vs = []")
    case True
    then have "v_samples m = []" using c(1) by (simp add: timed_def)
    then show ?thesis using True by (simp add: mv_def patch_last_video_def)
  next
    case False
    then have "v_samples m \<noteq> []" "smp_duration (last (v_samples m)) = 0" using c(1) by (auto simp: timed_def)
    from patch_last_video_eq [OF this] durations_patched [OF c(1) _ refl, of "default_video m"] c(3) False
    show ?thesis by (simp add: mv_def)
  qed
  show ?thesis
  proof (cases "as = []")
    case True
    then have "a_samples mv = []" using c(2) mv by (simp add: timed_def)
    then show ?thesis using True mv by (simp add: m'_def flushed_def patch_last_audio_def flip: mv_def)
  next
    case False
    then have "a_samples mv \<noteq> []" "smp_duration (last (a_samples mv)) = 0" using c(2) mv by (auto simp: timed_def)
    moreover have "default_audio mv = default_audio m" using mv by (simp add: default_audio_def)
    ultimately show ?thesis
      using patch_last_audio_eq [of mv] durations_patched [OF c(2) _ refl, of "default_audio m"] c(4) False mv
      by (cases "Suc 0 < length (a_samples m)") (simp_all add: m'_def flushed_def flip: mv_def)
  qed
qed

lemma read_flushed:
  assumes "collected m vs as" and "vs \<noteq> [] \<or> as \<noteq> []"
    and "length (concat (map vs_data vs)) + length (concat (map as_data as)) < 2 ^ 31"
  shows "within_limits (flushed m)"
    and "read_fragment (fragment_bytes (flushed m)) = video_spec (default_video m) vs @ audio_spec (default_audio m) as"
proof -
  let ?m = "flushed m"
  have c: "v_data m = concat (map vs_data vs)" "a_data m = concat (map as_data as)" "within_limits m"
    "timed (v_base_dts m) (v_samples m) (map vs_dts vs)" "timed (a_base_dts m) (a_samples m) (map as_dts as)"
    using assms(1) by (simp_all add: collected_def)
  note f = flushed_video [OF assms(1)]
  have n: "length (v_samples ?m) = length vs" "length (a_samples ?m) = length as"
    using f by (metis length_map length_durations)+
  then have empty: "v_samples ?m = [] \<longleftrightarrow> vs = []" "a_samples ?m = [] \<longleftrightarrow> as = []"
    by (metis length_0_conv)+
  show lim: "within_limits ?m"
    using c(3) f n collected_counts [OF assms(1)] by (simp add: within_limits_def)
  have small: "length (vs_data v) < 2 ^ 32" if "v \<in> set vs" for v
  proof -
    have "length (vs_data v) \<le> length (concat (map vs_data vs))"
      using that by (induction vs) auto
    then show ?thesis using assms(3) by simp
  qed
  have small': "length (as_data a) < 2 ^ 32" if "a \<in> set as" for a
  proof -
    have "length (as_data a) \<le> length (concat (map as_data as))"
      using that by (induction as) auto
    then show ?thesis using assms(3) by simp
  qed
  have "map (\<lambda>s. unat (smp_size s)) (v_samples ?m) =
      map (unat \<circ> fst) (map (\<lambda>s. (smp_size s, smp_flags s, smp_cts s)) (v_samples ?m))" by simp
  also have "\<dots> = map (unat \<circ> fst) (map (\<lambda>v. (word_of_nat (length (vs_data v)) :: u32, video_flags v, video_cts v)) vs)"
    using f by (simp only:)
  also have "\<dots> = map length (map vs_data vs)" using small by (simp add: unat_of_nat_u32)
  finally have sv: "map (\<lambda>s. unat (smp_size s)) (v_samples ?m) = map length (map vs_data vs)" .
  have "map (\<lambda>s. unat (smp_size s)) (a_samples ?m) = map unat (map smp_size (a_samples ?m))" by simp
  also have "\<dots> = map unat (map (\<lambda>a. word_of_nat (length (as_data a)) :: u32) as)" using f by (simp only:)
  also have "\<dots> = map length (map as_data as)" using small' by (simp add: unat_of_nat_u32)
  finally have "map (\<lambda>s. unat (smp_size s)) (a_samples ?m) = map length (map as_data as)" .
  with sv have "holds ?m (map vs_data vs) (map as_data as)"
    using f c by (simp only: holds_def)
  moreover have "length (v_data ?m) + length (a_data ?m) < 2 ^ 31" using f c assms(3) by simp
  ultimately have "read_fragment (fragment_bytes ?m) = fragment_runs ?m (map vs_data vs) (map as_data as)"
    using lim assms(2) empty by (intro read_fragment_bytes) auto
  moreover have "vs \<noteq> [] \<Longrightarrow> v_base_dts ?m = vs_dts (hd vs)"
    using f c(4) by (simp add: timed_def hd_map)
  moreover have "as \<noteq> [] \<Longrightarrow> a_base_dts ?m = as_dts (hd as)"
    using f c(5) by (simp add: timed_def hd_map)
  moreover have "map (\<lambda>s. (smp_duration s, smp_size s, smp_flags s, smp_cts s)) (v_samples ?m) =
      map2 (\<lambda>d v. (d, word_of_nat (length (vs_data v)), video_flags v, video_cts v)) (durations (default_video m) (map vs_dts vs)) vs"
    using f by (intro entries_columns) auto
  moreover have "map (\<lambda>s. (smp_duration s, smp_size s, 0 :: u32, 0 :: u32)) (a_samples ?m) =
      map2 (\<lambda>d a. (d, word_of_nat (length (as_data a)), 0, 0)) (durations (default_audio m) (map as_dts as)) as"
    using f by (intro audio_columns) auto
  ultimately show "read_fragment (fragment_bytes ?m) = video_spec (default_video m) vs @ audio_spec (default_audio m) as"
    using empty by (simp add: fragment_runs_def video_run_def audio_run_def video_spec_def audio_spec_def)
qed

subsection \<open>The operations on a sink\<close>

definition ftyp_payload :: "byte list" where
  "ftyp_payload = fourcc ''isom'' @ be32 0x200 @ fourcc ''isom'' @ fourcc ''iso5'' @ fourcc ''iso6'' @ fourcc ''mp41''"

text \<open>The bytes \<open>finalize\<close> adds: the size of the outer box ends up in the version and flags of \<open>mfro\<close>.\<close>

definition mfra_bytes :: "byte list" where
  "mfra_bytes = box ''mfra'' (box ''mfro'' (be32 24 @ be32 0))"

lemma build_mfra_run:
  assumes "bb_ok b"
  shows "\<exists>b'. run_state build_mfra b = ((), b') \<and> bb_ok b' \<and> box_data b' = mfra_bytes"
proof -
  obtain b0 where b0: "run_state bb_reset b = ((), b0)" "bb_ok b0" "box_data b0 = []"
    using bb_reset_run [OF assms] by auto
  have "\<exists>bs. emits 0 (in_box ''mfra'' (in_fullbox ''mfro'' 0 0 (bb_w32 0))) True bs \<and>
      bs = box ''mfra'' (box ''mfro'' (be32 0 @ be32 0))"
    by (rule exI, rule conjI, (rule emits_intros | simp)+)
  then obtain b1 where b1: "run_state (in_box ''mfra'' (in_fullbox ''mfro'' 0 0 (bb_w32 0))) b0 = (True, b1)" "bb_ok b1"
      "box_data b1 = box ''mfra'' (box ''mfro'' (be32 0 @ be32 0))"
    using b0 by (auto simp: emits_def bb_max_def)
  have "patch 0 (be32 24) (be32 0 @ be32 0) = be32 24 @ be32 0"
    using patch_mid [of "be32 0" "be32 24" "[]" "be32 0"] by simp
  then have "patch 16 (be32 24) (box_data b1) = mfra_bytes"
    by (simp add: b1 mfra_bytes_def patch_in_box)
  moreover obtain b2 where "run_state (bb_patch32 16 24) b1 = ((), b2)" "bb_ok b2" "box_data b2 = patch 16 (be32 24) (box_data b1)"
    using patch_run [OF b1(2), of 16 24] by (auto simp: b1)
  moreover have "run_state bb_len b1 = (24, b1)" by (simp add: bb_len_def b1)
  ultimately show ?thesis using b0 b1 by (simp add: build_mfra_def)
qed

definition configured :: "asc_fn \<Rightarrow> rmr_mux \<Rightarrow> bool" where
  "configured rss_aac_asc m \<longleftrightarrow> (m_has_video m \<or> m_has_audio m) \<and> length (audio_asc rss_aac_asc m) \<le> 1000 \<and>
     length (m_sps m) \<le> 256 \<and> length (m_pps m) \<le> 128 \<and> length (m_vps m) \<le> 256"

definition init_segment :: "rmr_mux \<Rightarrow> byte list \<Rightarrow> bool" where
  "init_segment m bs \<longleftrightarrow> (\<exists>p. bs = box ''ftyp'' ftyp_payload @ box ''moov'' p \<and> length p \<le> 6000 \<and>
     tree_of 5 p = moov_children (m_has_video m) (m_has_audio m))"

lemma init_segment_tree:
  "init_segment m bs \<Longrightarrow> tree_of 6 bs = [leaf ''ftyp'', moov_tree (m_has_video m) (m_has_audio m)]"
proof -
  assume "init_segment m bs"
  then obtain p where p: "bs = box ''ftyp'' ftyp_payload @ box ''moov'' p @ []" "box_fits p"
      "tree_of 5 p = moov_children (m_has_video m) (m_has_audio m)"
    by (auto simp: init_segment_def box_fits_def)
  have six: "6 = Suc 5" by simp
  have "box_fits ftyp_payload" by (simp add: box_fits_def ftyp_payload_def)
  then show ?thesis
    unfolding p(1) six
    using p(2,3) by (subst tree_of_box, simp, simp, subst tree_of_box)
      (simp_all add: container_names_def leaf_def moov_tree_def node_def del: tree_of.simps)
qed

context byte_sink
begin

lemma start_sink:
  assumes "configured rss_aac_asc m" and "bb_ok (m_box m)" and "valid c"
  shows "\<exists>b n c' bs. rmr_mux_start rss_aac_asc write_fn (m, c) = (0, m\<lparr>m_box := b, bytes_written := n\<rparr>, c') \<and>
    bb_ok b \<and> valid c' \<and> contents c' = contents c @ bs \<and> init_segment m bs"
proof -
  obtain b0 where b0: "run_state bb_reset (m_box m) = ((), b0)" "bb_ok b0" "box_data b0 = []"
    using bb_reset_run [OF assms(2)] by auto
  obtain b1 where b1: "run_state ftyp_box b0 = (True, b1)" "bb_ok b1" "box_data b1 = box ''ftyp'' ftyp_payload"
    using emits_ftyp [of 0] b0 by (auto simp: emits_def ftyp_payload_def bb_max_def)
  define m1 where "m1 = m\<lparr>m_box := b1\<rparr>"
  define m2 where "m2 = m1\<lparr>bytes_written := bytes_written m1 + length (box_data (m_box m1)), m_box := (m_box m1)\<lparr>box_data := []\<rparr>\<rparr>"
  obtain c1 where c1: "bb_flush write_fn (m1, c) = (0, m2, c1)" "valid c1" "contents c1 = contents c @ box ''ftyp'' ftyp_payload"
    using flush_sink [OF assms(3), of m1] by (auto simp: m2_def) (simp add: m1_def b1)
  have m2: "m2 = m\<lparr>m_box := b1\<lparr>box_data := []\<rparr>, bytes_written := bytes_written m2\<rparr>" by (simp add: m2_def m1_def)
  then have ok2: "bb_ok (m_box m2)" using b1 by (simp add: bb_ok_def m2_def m1_def)
  have "audio_asc rss_aac_asc m2 = audio_asc rss_aac_asc m" by (simp add: audio_asc_def m2_def m1_def)
  then have "length (audio_asc rss_aac_asc m2) \<le> 1000" "length (m_sps m2) \<le> 256" "length (m_pps m2) \<le> 128" "length (m_vps m2) \<le> 256"
    using assms(1) by (simp_all add: configured_def m2_def m1_def)
  from moov_box_emits [OF this, of 0] obtain p where p: "\<And>n. emits n (moov_box rss_aac_asc m2) () (box ''moov'' p)"
      "length p \<le> 6000" "tree_of 5 p = moov_children (m_has_video m) (m_has_audio m)"
    by (auto simp: eval_nat_numeral m2_def m1_def simp del: tree_of.simps)
  obtain b3 where b3: "run_state bb_reset (m_box m2) = ((), b3)" "bb_ok b3" "box_data b3 = []"
    using bb_reset_run [OF ok2] by auto
  obtain b4 where b4: "run_state (moov_box rss_aac_asc m2) b3 = ((), b4)" "bb_ok b4" "box_data b4 = box ''moov'' p"
    using p(1) [of 0] p(2) b3 by (auto simp: emits_def bb_max_def)
  define m4 where "m4 = m2\<lparr>m_box := b4\<rparr>"
  define m5 where "m5 = m4\<lparr>bytes_written := bytes_written m4 + length (box_data (m_box m4)), m_box := (m_box m4)\<lparr>box_data := []\<rparr>\<rparr>"
  obtain c2 where c2: "bb_flush write_fn (m4, c1) = (0, m5, c2)" "valid c2" "contents c2 = contents c1 @ box ''moov'' p"
    using flush_sink [OF c1(2), of m4] by (auto simp: m5_def) (simp add: m4_def b4)
  have m5: "m5 = m\<lparr>m_box := b4\<lparr>box_data := []\<rparr>, bytes_written := bytes_written m5\<rparr>"
    by (simp add: m5_def m4_def m2_def m1_def)
  have start: "rmr_mux_start rss_aac_asc write_fn (m, c) = (0, m5, c2)"
    using assms(1) b0(1) b1(1) c1(1) b3(1) b4(1) c2(1)
    by (simp add: rmr_mux_start_def configured_def write_ftyp_def write_moov_def run_box_def Let_def flip: m1_def m4_def)
  show ?thesis
  proof (intro exI conjI)
    show "rmr_mux_start rss_aac_asc write_fn (m, c) =
        (0, m\<lparr>m_box := b4\<lparr>box_data := []\<rparr>, bytes_written := bytes_written m5\<rparr>, c2)"
      using start m5 by simp
    show "bb_ok (b4\<lparr>box_data := []\<rparr>)" using b4 by (simp add: bb_ok_def)
    show "valid c2" by (rule c2)
    show "contents c2 = contents c @ box ''ftyp'' ftyp_payload @ box ''moov'' p" by (simp add: c1 c2)
    show "init_segment m (box ''ftyp'' ftyp_payload @ box ''moov'' p)"
      using p(2,3) by (auto simp: init_segment_def)
  qed
qed

lemma flush_fragment_sink:
  assumes "collected m vs as" and "vs \<noteq> [] \<or> as \<noteq> []" and "valid c"
    and "length (concat (map vs_data vs)) + length (concat (map as_data as)) < 2 ^ 31"
  shows "\<exists>m' c'. rmr_mux_flush_fragment write_fn (m, c) = (0, m', c') \<and> valid c' \<and> collected m' [] [] \<and>
    contents c' = contents c @ fragment_bytes (flushed m)"
proof -
  obtain b n c' where w: "write_fragment write_fn (flushed m, c) =
      (0, (if v_samples (flushed m) = [] \<and> a_samples (flushed m) = [] then flushed m
           else fragment_done ((next_seq (flushed m))\<lparr>m_box := b, bytes_written := n\<rparr>)), c')"
    "bb_ok b" "valid c'" "contents c' = contents c @ fragment_bytes (flushed m)"
    using fragment_sink [OF read_flushed(1) [OF assms(1,2,4)] assms(3)] by blast
  have "\<not> (v_samples (flushed m) = [] \<and> a_samples (flushed m) = [])"
    using flushed_video [OF assms(1)] assms(2) by (metis length_map length_0_conv length_durations)
  with w show ?thesis
    by (auto simp: rmr_mux_flush_fragment_def collected_def fragment_done_def within_limits_def timed_def
        simp flip: flushed_def)
qed

lemma flush_any_sink:
  assumes "within_limits (flushed m)" and "valid c"
  shows "\<exists>m' c'. rmr_mux_flush_fragment write_fn (m, c) = (0, m', c') \<and> valid c' \<and>
    contents c' = contents c @ fragment_bytes (flushed m) \<and>
    (if v_samples (flushed m) = [] \<and> a_samples (flushed m) = [] then m' = flushed m else collected m' [] [])"
proof -
  obtain b n c' where w: "write_fragment write_fn (flushed m, c) =
      (0, (if v_samples (flushed m) = [] \<and> a_samples (flushed m) = [] then flushed m
           else fragment_done ((next_seq (flushed m))\<lparr>m_box := b, bytes_written := n\<rparr>)), c')"
    "bb_ok b" "valid c'" "contents c' = contents c @ fragment_bytes (flushed m)"
    using fragment_sink [OF assms] by blast
  have "collected (fragment_done ((next_seq (flushed m))\<lparr>m_box := b, bytes_written := n\<rparr>)) [] []"
    using w(2) by (simp add: collected_def fragment_done_def within_limits_def timed_def)
  with w show ?thesis by (auto simp: rmr_mux_flush_fragment_def simp flip: flushed_def)
qed

lemma finalize_idle_sink:
  assumes "collected m [] []" and "valid c"
  shows "\<exists>m' c'. rmr_mux_finalize write_fn (m, c) = (0, m', c') \<and> valid c' \<and> contents c' = contents c @ mfra_bytes"
proof -
  have idle: "v_samples m = []" "a_samples m = []" "bb_ok (m_box m)"
    using assms(1) by (simp_all add: collected_def timed_def within_limits_def)
  obtain b where b: "run_state build_mfra (m_box m) = ((), b)" "bb_ok b" "box_data b = mfra_bytes"
    using build_mfra_run [OF idle(3)] by blast
  obtain c' where "bb_flush write_fn (m\<lparr>m_box := b\<rparr>, c) = (0, m\<lparr>m_box := b\<lparr>box_data := []\<rparr>, bytes_written := bytes_written m + length mfra_bytes\<rparr>, c')"
      "valid c'" "contents c' = contents c @ mfra_bytes"
    using flush_sink [OF assms(2), of "m\<lparr>m_box := b\<rparr>"] by (auto simp: b)
  then show ?thesis using idle b by (simp add: rmr_mux_finalize_def run_box_def)
qed

lemma finalize_sink:
  assumes "collected m vs as" and "valid c"
    and "length (concat (map vs_data vs)) + length (concat (map as_data as)) < 2 ^ 31"
  shows "\<exists>m' c'. rmr_mux_finalize write_fn (m, c) = (0, m', c') \<and> valid c' \<and>
    contents c' = contents c @ (if vs = [] \<and> as = [] then [] else fragment_bytes (flushed m)) @ mfra_bytes"
proof (cases "vs = [] \<and> as = []")
  case True
  then show ?thesis using finalize_idle_sink [of m c] assms(1,2) by simp
next
  case False
  have n: "length (v_samples m) = length vs" "length (a_samples m) = length as"
    using collected_counts [OF assms(1)] by simp_all
  obtain m1 c1 where f: "rmr_mux_flush_fragment write_fn (m, c) = (0, m1, c1)" "valid c1" "collected m1 [] []"
      "contents c1 = contents c @ fragment_bytes (flushed m)"
    using flush_fragment_sink [OF assms(1) _ assms(2,3)] False by blast
  obtain m2 c2 where g: "rmr_mux_finalize write_fn (m1, c1) = (0, m2, c2)" "valid c2" "contents c2 = contents c1 @ mfra_bytes"
    using finalize_idle_sink [OF f(3,2)] by blast
  have "v_samples m1 = []" "a_samples m1 = []" using f(3) by (simp_all add: collected_def timed_def)
  moreover have "v_samples m \<noteq> [] \<or> a_samples m \<noteq> []" using n False by auto
  ultimately have "rmr_mux_finalize write_fn (m, c) = rmr_mux_finalize write_fn (m1, c1)"
    using f(1) by (simp add: rmr_mux_finalize_def)
  then show ?thesis using f(4) g False by auto
qed

lemma finalize_any_sink:
  assumes "within_limits (flushed m)" and "v_samples m = [] \<and> a_samples m = [] \<longrightarrow> collected m [] []" and "valid c"
  shows "\<exists>m' c'. rmr_mux_finalize write_fn (m, c) = (0, m', c') \<and> valid c' \<and>
    contents c' = contents c @ (if v_samples m = [] \<and> a_samples m = [] then [] else fragment_bytes (flushed m)) @ mfra_bytes"
proof (cases "v_samples m = [] \<and> a_samples m = []")
  case True
  then show ?thesis using finalize_idle_sink [of m c] assms by simp
next
  case False
  then have "\<not> (v_samples (flushed m) = [] \<and> a_samples (flushed m) = [])"
    by (auto simp: flushed_def patch_last_audio_def patch_last_video_def Let_def)
  with flush_any_sink [OF assms(1,3)] obtain m1 c1
    where f: "rmr_mux_flush_fragment write_fn (m, c) = (0, m1, c1)" "valid c1" "collected m1 [] []"
      "contents c1 = contents c @ fragment_bytes (flushed m)"
    by auto
  obtain m2 c2 where g: "rmr_mux_finalize write_fn (m1, c1) = (0, m2, c2)" "valid c2" "contents c2 = contents c1 @ mfra_bytes"
    using finalize_idle_sink [OF f(3,2)] by blast
  have "v_samples m1 = []" "a_samples m1 = []" using f(3) by (simp_all add: collected_def timed_def)
  then have "rmr_mux_finalize write_fn (m, c) = rmr_mux_finalize write_fn (m1, c1)"
    using f(1) False by (auto simp: rmr_mux_finalize_def)
  then show ?thesis using f(4) g False by auto
qed

end

end
