(* ===== verification/Rmr_Nal.thy ===== *)
theory Rmr_Nal
  imports Mp4_Format
begin

text \<open>
  The recorder's NAL unit handling, \<^verbatim>\<open>rmr/rmr_nal.c\<close>: the start code scanner, the conversion
  of an Annex B access unit to length-prefixed samples, and the extraction of the parameter
  sets that go into the \<^verbatim>\<open>moov\<close> box. A pointer into the buffer is an index; the pair a
  scanner returns is the position of the start code and its length.

  The conversion is shown to keep exactly the units that are not parameter sets, each behind
  its length, for any mixture of start codes and zero padding between units.
\<close>

subsection \<open>The scanner\<close>

function find_start_code :: "byte list \<Rightarrow> nat \<Rightarrow> (nat \<times> nat) option" where
  "find_start_code d p =
     (if p + 2 < length d then
        if d ! p = 0 \<and> d ! (p + 1) = 0 \<and> d ! (p + 2) = 1 then Some (p, 3)
        else if d ! p = 0 \<and> d ! (p + 1) = 0 \<and> p + 3 < length d \<and> d ! (p + 2) = 0 \<and> d ! (p + 3) = 1
        then Some (p, 4)
        else find_start_code d (p + 1)
      else None)"
  by pat_completeness auto
termination
  by (relation "measure (\<lambda>(d, p). length d - p)") auto

declare find_start_code.simps [simp del]

text \<open>Trailing zero bytes do not belong to a unit.\<close>

fun trim_end :: "byte list \<Rightarrow> nat \<Rightarrow> nat \<Rightarrow> nat" where
  "trim_end d nal_start 0 = 0"
| "trim_end d nal_start (Suc e) =
     (if nal_start < Suc e \<and> d ! e = 0 then trim_end d nal_start e else Suc e)"

lemma find_start_code_bounds:
  "find_start_code d p = Some (q, l) \<Longrightarrow> p \<le> q \<and> 3 \<le> l \<and> l \<le> 4 \<and> q + l \<le> length d"
proof (induction d p rule: find_start_code.induct)
  case (1 d p)
  then show ?case
    by (subst (asm) find_start_code.simps) (auto split: if_splits)
qed

text \<open>
  The loop both users of the scanner share: for every unit that is not empty run \<open>body\<close>, which
  ends the loop when it returns \<^const>\<open>None\<close>.
\<close>

function nal_loop :: "(byte list \<Rightarrow> 's \<Rightarrow> 's option) \<Rightarrow> byte list \<Rightarrow> (nat \<times> nat) option \<Rightarrow> 's \<Rightarrow> 's option" where
  "nal_loop body d None s = Some s"
| "nal_loop body d (Some (sc, sc_len)) s =
     (let nal_start = sc + sc_len in
      if length d \<le> nal_start then Some s
      else
        let next_sc = find_start_code d nal_start;
            nal_end = trim_end d nal_start (case next_sc of Some (q, _) \<Rightarrow> q | None \<Rightarrow> length d);
            nal_len = nal_end - nal_start
        in if nal_len = 0 then nal_loop body d next_sc s
           else (case body (take nal_len (drop nal_start d)) s of
                   None \<Rightarrow> None
                 | Some s' \<Rightarrow> nal_loop body d next_sc s'))"
  by pat_completeness auto
termination
proof (relation "measure (\<lambda>(b, d, sc, s). case sc of None \<Rightarrow> 0 | Some (p, l) \<Rightarrow> Suc (length d - (p + l)))", goal_cases)
  case (2 body d p l s)
  then show ?case
    by (cases "find_start_code d (p + l)") (auto dest!: find_start_code_bounds)
next
  case (3 body d p l s)
  then show ?case
    by (cases "find_start_code d (p + l)") (auto dest!: find_start_code_bounds)
qed simp

declare nal_loop.simps(2) [simp del]

subsection \<open>Annex B to AVCC\<close>

definition h264_is_param :: "byte \<Rightarrow> bool" where
  "h264_is_param first_byte =
     (let nal_type = first_byte AND 0x1F in nal_type = 7 \<or> nal_type = 8)"

definition h265_is_param :: "byte \<Rightarrow> bool" where
  "h265_is_param first_byte =
     (let nal_type = drop_bit 1 first_byte AND 0x3F in nal_type = 32 \<or> nal_type = 33 \<or> nal_type = 34)"

definition is_param :: "int \<Rightarrow> byte list \<Rightarrow> bool" where
  "is_param codec nal = (if codec = 1 then h265_is_param (nal ! 0) else h264_is_param (nal ! 0))"

text \<open>One pass of the conversion loop; the list is what \<^verbatim>\<open>dst\<close> holds so far.\<close>

definition avcc_nal :: "nat \<Rightarrow> int \<Rightarrow> byte list \<Rightarrow> byte list \<Rightarrow> byte list option" where
  "avcc_nal dst_cap codec nal dst =
     (if is_param codec nal then Some dst
      else if dst_cap < wrap32 (length dst + 4 + length nal) then None
      else Some (dst @ be32 (word_of_nat (length nal)) @ nal))"

text \<open>The return value and the contents of \<^verbatim>\<open>dst\<close>.\<close>

definition rmr_annexb_to_avcc :: "byte list \<Rightarrow> nat \<Rightarrow> int \<Rightarrow> int \<times> byte list" where
  "rmr_annexb_to_avcc src dst_cap codec =
     (case nal_loop (avcc_nal dst_cap codec) src (find_start_code src 0) [] of
        None \<Rightarrow> (-1, [])
      | Some dst \<Rightarrow> (sint (word_of_nat (length dst) :: u32), dst))"

subsection \<open>Parameter sets\<close>

record rmr_codec_params =
  p_sps :: "byte list"
  p_pps :: "byte list"
  p_vps :: "byte list"
  p_ready :: bool

definition extract_nal :: "int \<Rightarrow> byte list \<Rightarrow> rmr_codec_params \<Rightarrow> rmr_codec_params option" where
  "extract_nal codec nal p =
     Some (if codec = 1 then
             let nal_type = drop_bit 1 (nal ! 0) AND 0x3F in
             if nal_type = 32 then if 256 < length nal then p else p\<lparr>p_vps := nal\<rparr>
             else if nal_type = 33 then if 256 < length nal then p else p\<lparr>p_sps := nal\<rparr>
             else if nal_type = 34 then if 128 < length nal then p else p\<lparr>p_pps := nal\<rparr>
             else p
           else
             let nal_type = nal ! 0 AND 0x1F in
             if nal_type = 7 then if 256 < length nal then p else p\<lparr>p_sps := nal\<rparr>
             else if nal_type = 8 then if 128 < length nal then p else p\<lparr>p_pps := nal\<rparr>
             else p)"

definition rmr_extract_params :: "byte list \<Rightarrow> int \<Rightarrow> rmr_codec_params \<Rightarrow> rmr_codec_params" where
  "rmr_extract_params data codec params =
     (if p_ready params then params
      else
        let p = (case nal_loop (extract_nal codec) data (find_start_code data 0) params of
                   Some p \<Rightarrow> p | None \<Rightarrow> params)
        in if p_sps p \<noteq> [] \<and> p_pps p \<noteq> [] then p\<lparr>p_ready := True\<rparr> else p)"

subsection \<open>The scanner on well-formed streams\<close>

text \<open>
  A padded stream: at least two zero bytes and a one in front of each unit, and any number
  of zero bytes after the last.
\<close>

definition zunits :: "(nat \<times> byte list) list \<Rightarrow> byte list" where
  "zunits us = concat (map (\<lambda>(k, n). replicate k 0 @ [1] @ n) us)"

definition zunit_wf :: "nat \<times> byte list \<Rightarrow> bool" where
  "zunit_wf u \<longleftrightarrow> 2 \<le> fst u \<and> nal_wf (snd u)"

lemma zunits_simps [simp]:
  "zunits [] = []" "zunits ((k, n) # us) = replicate k 0 @ 1 # n @ zunits us"
  by (simp_all add: zunits_def)

fun sc_zeros :: "start_code \<Rightarrow> nat" where
  "sc_zeros SC3 = 2"
| "sc_zeros SC4 = 3"

lemma annexb_zunits: "annexb us = zunits (map (\<lambda>(s, n). (sc_zeros s, n)) us)"
proof (induction us)
  case (Cons u us)
  obtain s n where "u = (s, n)" by (cases u)
  with Cons show ?case by (cases s) (simp_all add: numeral_eq_Suc)
qed simp

lemma find_start_code_nal:
  assumes "nal_wf n" and "j \<le> length n"
  shows "find_start_code (pre @ n @ rest) (length pre + (length n - j)) =
    find_start_code (pre @ n @ rest) (length pre + length n)"
  using assms(2)
proof (induction j)
  case (Suc j)
  let ?d = "pre @ n @ rest" and ?p = "length pre + (length n - Suc j)"
  have nxt: "?p + 1 = length pre + (length n - j)" using Suc.prems by simp
  have no: "\<not> (?d ! ?p = 0 \<and> ?d ! (?p + 1) = 0 \<and> ?d ! (?p + 2) \<le> 2)"
    using nal_wf_inside_at [OF assms(1), of "length n - Suc j" pre rest] Suc.prems by (simp add: add.assoc)
  have "find_start_code ?d ?p = find_start_code ?d (?p + 1)"
  proof (cases "?p + 2 < length ?d")
    case True
    have "\<not> (?d ! ?p = 0 \<and> ?d ! (?p + 1) = 0 \<and> (?d ! (?p + 2) = 1 \<or> ?d ! (?p + 2) = 0))"
      using no by auto
    then show ?thesis using True by (subst find_start_code.simps) auto
  next
    case False
    then show ?thesis by (subst (1 2) find_start_code.simps) simp
  qed
  then show ?case using Suc nxt by simp
qed simp

lemma find_start_code_zeros:
  "2 \<le> k \<Longrightarrow> \<exists>q l. find_start_code (pre @ replicate k 0 @ 1 # rest) (length pre) = Some (q, l) \<and>
     length pre \<le> q \<and> q + l = length pre + k + 1 \<and> 3 \<le> l"
proof (induction k arbitrary: pre)
  case (Suc k)
  let ?d = "pre @ replicate (Suc k) 0 @ 1 # rest" and ?p = "length pre"
  have at: "?d ! (?p + i) = (if i < Suc k then 0 else if i = Suc k then 1 else rest ! (i - Suc (Suc k)))" for i
    by (auto simp: nth_append nth_Cons')
  have z: "?d ! ?p = 0" "?d ! (?p + 1) = (if 1 \<le> k then 0 else 1)"
    using at [of 0] at [of 1] Suc.prems by auto
  consider "k = 1" | "k = 2" | "3 \<le> k" using Suc.prems by linarith
  then show ?case
  proof cases
    case 1
    then show ?thesis using z at [of 2] by (subst find_start_code.simps) simp
  next
    case 2
    then show ?thesis using z at [of 2] at [of 3] by (subst find_start_code.simps) simp
  next
    case 3
    have "find_start_code ?d ?p = find_start_code ?d (?p + 1)"
      using 3 z at [of 2] at [of 3] by (subst find_start_code.simps) simp
    moreover obtain q l where "find_start_code ((pre @ [0]) @ replicate k 0 @ 1 # rest) (length (pre @ [0])) = Some (q, l)"
      "length (pre @ [0]) \<le> q" "q + l = length (pre @ [0]) + k + 1" "3 \<le> l"
      using Suc.IH [of "pre @ [0]"] 3 by fastforce
    ultimately show ?thesis by simp
  qed
qed simp

lemma find_start_code_padding:
  "find_start_code (pre @ replicate k 0) (length pre) = None"
proof (induction k arbitrary: pre)
  case 0
  then show ?case by (subst find_start_code.simps) simp
next
  case (Suc k)
  let ?d = "pre @ replicate (Suc k) 0" and ?p = "length pre"
  have at: "i < Suc k \<Longrightarrow> ?d ! (?p + i) = 0" for i by (simp add: nth_append nth_Cons')
  have "find_start_code ?d ?p = find_start_code ?d (?p + 1)"
  proof (cases "?p + 2 < length ?d")
    case True
    then show ?thesis using at [of 2] at [of 3] by (subst find_start_code.simps) auto
  next
    case False
    then show ?thesis by (subst (1 2) find_start_code.simps) simp
  qed
  then show ?case using Suc.IH [of "pre @ [0]"] by simp
qed

lemma trim_end_zeros:
  "n \<le> e \<Longrightarrow> s < n \<Longrightarrow> \<forall>i. n \<le> i \<and> i < e \<longrightarrow> d ! i = 0 \<Longrightarrow> d ! (n - 1) \<noteq> 0 \<Longrightarrow> trim_end d s e = n"
proof (induction e)
  case (Suc e)
  then show ?case by (cases "n = Suc e") auto
qed simp

text \<open>Monadic fold over the units: the effect the loop has on a well-formed stream.\<close>

fun fold_opt :: "('a \<Rightarrow> 's \<Rightarrow> 's option) \<Rightarrow> 'a list \<Rightarrow> 's \<Rightarrow> 's option" where
  "fold_opt f [] s = Some s"
| "fold_opt f (x # xs) s = (case f x s of None \<Rightarrow> None | Some s' \<Rightarrow> fold_opt f xs s')"

text \<open>What lies between a unit and the next start code is zero bytes.\<close>

lemma next_unit:
  fixes us z pre
  defines "d \<equiv> pre @ zunits us @ replicate z 0"
  assumes "list_all zunit_wf us"
  defines "e \<equiv> (case find_start_code d (length pre) of Some (q, _) \<Rightarrow> q | None \<Rightarrow> length d)"
  shows "length pre \<le> e \<and> (\<forall>i. length pre \<le> i \<and> i < e \<longrightarrow> d ! i = 0)"
proof (cases us)
  case Nil
  then show ?thesis by (auto simp: e_def d_def find_start_code_padding nth_append)
next
  case (Cons u vs)
  obtain k n where u: "u = (k, n)" by (cases u)
  have k: "2 \<le> k" using assms(2) Cons u by (simp add: zunit_wf_def)
  have d: "d = pre @ replicate k 0 @ 1 # (n @ zunits vs @ replicate z 0)"
    by (simp add: d_def Cons u)
  obtain q l where "find_start_code d (length pre) = Some (q, l)" "length pre \<le> q"
    "q + l = length pre + k + 1" "3 \<le> l"
    using find_start_code_zeros [OF k, of pre "n @ zunits vs @ replicate z 0"] d by auto
  then show ?thesis by (auto simp: e_def d nth_append)
qed

lemma nal_loop_zunits:
  assumes "list_all zunit_wf us"
  shows "nal_loop body (pre @ zunits us @ replicate z 0)
     (find_start_code (pre @ zunits us @ replicate z 0) (length pre)) s = fold_opt body (map snd us) s"
  using assms
proof (induction us arbitrary: pre s)
  case Nil
  then show ?case by (simp add: find_start_code_padding)
next
  case (Cons u us)
  obtain k n where u: "u = (k, n)" by (cases u)
  have wf: "2 \<le> k" "nal_wf n" "list_all zunit_wf us"
    using Cons.prems by (simp_all only: u list.pred_inject zunit_wf_def [of "(k, n)"] fst_conv snd_conv)
  have n: "0 < length n" "n ! (length n - 1) \<noteq> 0"
    using wf(2) last_conv_nth [of n] by (auto simp: nal_wf_def)
  define rest where "rest = zunits us @ replicate z 0"
  define d where "d = pre @ replicate k 0 @ 1 # n @ rest"
  define p1 where "p1 = pre @ replicate k 0 @ [1]"
  have d1: "d = p1 @ n @ rest" and d2: "d = (p1 @ n) @ zunits us @ replicate z 0"
    and d0: "d = pre @ zunits (u # us) @ replicate z 0"
    by (simp_all add: d_def p1_def rest_def u)
  obtain q l where sc: "find_start_code d (length pre) = Some (q, l)" and ql: "q + l = length p1"
    using find_start_code_zeros [OF wf(1), of pre "n @ rest"] by (auto simp: d_def p1_def)
  define nx where "nx = find_start_code d (length p1)"
  have nx: "nx = find_start_code d (length (p1 @ n))"
    using find_start_code_nal [OF wf(2), of "length n" p1 rest] by (simp add: nx_def d1)
  define e where "e = (case nx of Some (q, _) \<Rightarrow> q | None \<Rightarrow> length d)"
  have "length (p1 @ n) \<le> e \<and> (\<forall>i. length (p1 @ n) \<le> i \<and> i < e \<longrightarrow> d ! i = 0)"
    unfolding e_def nx using next_unit [OF wf(3), of "p1 @ n" z] unfolding d2 [symmetric] .
  moreover have "d ! (length (p1 @ n) - 1) \<noteq> 0" using n by (cases "length n") (simp_all add: d1 nth_append)
  ultimately have trim: "trim_end d (length p1) e = length (p1 @ n)"
    using n by (intro trim_end_zeros) auto
  have lt: "length p1 < length d" using n by (simp add: d1)
  have nal: "take (length n) (drop (length p1) d) = n" by (simp add: d1)
  have IH: "nal_loop body d nx s' = fold_opt body (map snd us) s'" for s'
    using Cons.IH [OF wf(3), of "p1 @ n" s'] by (simp only: nx d2 [symmetric])
  have "nal_loop body d (Some (q, l)) s =
      (case body n s of None \<Rightarrow> None | Some s' \<Rightarrow> nal_loop body d nx s')"
    using n lt nal trim by (subst nal_loop.simps) (simp add: ql Let_def flip: nx_def e_def)
  then show ?case unfolding d0 [symmetric] sc by (simp add: IH u split: option.split)
qed

lemma nal_loop_annexb:
  assumes "list_all (\<lambda>u. nal_wf (snd u)) us"
  shows "nal_loop body (annexb us @ replicate z 0) (find_start_code (annexb us @ replicate z 0) 0) s =
    fold_opt body (map snd us) s"
proof -
  have "list_all zunit_wf (map (\<lambda>(s, n). (sc_zeros s, n)) us)"
    using assms
  proof (induction us)
    case (Cons u us)
    obtain s n where "u = (s, n)" by (cases u)
    with Cons show ?case by (cases s) (simp_all add: zunit_wf_def)
  qed simp
  moreover have "map snd (map (\<lambda>(s, n). (sc_zeros s, n)) us) = map snd us"
    by (induction us) auto
  ultimately show ?thesis
    using nal_loop_zunits [of "map (\<lambda>(s, n). (sc_zeros s, n)) us" body "[]" z s]
    by (simp only: annexb_zunits append_Nil list.size)
qed

subsection \<open>What the conversion produces\<close>

lemma fold_avcc_nal:
  assumes "length dst + length (avcc (filter (\<lambda>n. \<not> is_param codec n) ns)) < 2 ^ 32"
  shows "length dst \<le> cap \<Longrightarrow> fold_opt (avcc_nal cap codec) ns dst =
    (let out = dst @ avcc (filter (\<lambda>n. \<not> is_param codec n) ns) in
     if length out \<le> cap then Some out else None)"
  using assms
proof (induction ns arbitrary: dst)
  case (Cons n ns)
  show ?case
  proof (cases "is_param codec n")
    case True
    then show ?thesis using Cons by (simp add: avcc_nal_def)
  next
    case False
    then have w: "wrap32 (length dst + 4 + length n) = length dst + 4 + length n"
      using Cons.prems by simp
    show ?thesis
    proof (cases "length dst + 4 + length n \<le> cap")
      case True
      then show ?thesis
        using False w Cons.IH [of "dst @ be32 (word_of_nat (length n)) @ n"] Cons.prems
        by (simp add: avcc_nal_def add.assoc)
    next
      case F: False
      then show ?thesis using False w by (simp add: avcc_nal_def)
    qed
  qed
qed (simp add: Let_def)

lemma length_avcc_le: "list_all (\<lambda>u. nal_wf (snd u)) us \<Longrightarrow>
  length (avcc (filter P (map snd us))) \<le> 2 * length (annexb us)"
proof (induction us)
  case (Cons u us)
  obtain s n where u: "u = (s, n)" by (cases u)
  have "3 \<le> length (sc_bytes s)" by (cases s) auto
  then show ?case using Cons by (auto simp: u)
qed simp

text \<open>
  C19. Converting an access unit to AVCC keeps exactly the units that are not parameter sets,
  in order, each behind its big-endian length, and returns the number of bytes written;
  when they do not fit in the buffer the call returns \<open>-1\<close>. Start codes of either length and
  zero padding after the last unit make no difference.
\<close>

theorem annexb_to_avcc_units:
  fixes us :: "(start_code \<times> byte list) list" and codec :: int
  assumes "list_all (\<lambda>u. nal_wf (snd u)) us"
    and "length (annexb us) < 2 ^ 30"
  defines "out \<equiv> avcc (filter (\<lambda>n. \<not> is_param codec n) (map snd us))"
  shows "rmr_annexb_to_avcc (annexb us @ replicate z 0) cap codec =
    (if length out \<le> cap then (int (length out), out) else (-1, []))"
proof -
  have len: "length out < 2 ^ 31"
    using length_avcc_le [OF assms(1), of "\<lambda>n. \<not> is_param codec n"] assms(2) by (simp add: out_def)
  have "sint (word_of_nat (length out) :: u32) = int (length out)"
    using len by (simp add: sint_of_nat_u32)
  then show ?thesis
    using len fold_avcc_nal [of "[]" codec "map snd us" cap]
    by (simp add: rmr_annexb_to_avcc_def nal_loop_annexb [OF assms(1)] Let_def out_def)
qed

theorem annexb_to_avcc_units_witness:
  "rmr_annexb_to_avcc [0, 0, 0, 1, 0x67, 9, 0, 0, 1, 0x65, 7, 8, 0, 0] 100 0 = (7, [0, 0, 0, 3, 0x65, 7, 8])"
proof -
  have "list_all (\<lambda>u. nal_wf (snd u)) [(SC4, [0x67, 9]), (SC3, [0x65, 7, 8])]"
    by (simp add: nal_wf_def)
  from annexb_to_avcc_units [OF this, where codec = 0 and z = "Suc (Suc 0)" and cap = 100]
  show ?thesis
    by (simp add: is_param_def h264_is_param_def be32_def Let_def)
qed

subsection \<open>Parameter extraction\<close>

definition nal_kind :: "int \<Rightarrow> byte list \<Rightarrow> byte" where
  "nal_kind codec n = (if codec = 1 then drop_bit 1 (n ! 0) AND 0x3F else n ! 0 AND 0x1F)"

definition last_fitting :: "(byte list \<Rightarrow> bool) \<Rightarrow> byte list list \<Rightarrow> byte list \<Rightarrow> byte list" where
  "last_fitting P ns old = (case filter P ns of [] \<Rightarrow> old | xs \<Rightarrow> last xs)"

lemma last_fitting_Nil [simp]: "last_fitting P [] old = old"
  by (simp add: last_fitting_def)

lemma last_fitting_Cons [simp]:
  "last_fitting P (n # ns) old = last_fitting P ns (if P n then n else old)"
  by (simp add: last_fitting_def split: list.splits)

definition is_sps :: "int \<Rightarrow> byte list \<Rightarrow> bool" where
  "is_sps codec n \<longleftrightarrow> nal_kind codec n = (if codec = 1 then 33 else 7) \<and> length n \<le> 256"

definition is_pps :: "int \<Rightarrow> byte list \<Rightarrow> bool" where
  "is_pps codec n \<longleftrightarrow> nal_kind codec n = (if codec = 1 then 34 else 8) \<and> length n \<le> 128"

definition is_vps :: "int \<Rightarrow> byte list \<Rightarrow> bool" where
  "is_vps codec n \<longleftrightarrow> codec = 1 \<and> nal_kind codec n = 32 \<and> length n \<le> 256"

lemma extract_nal_eq:
  "extract_nal codec n p = Some (p\<lparr>
     p_sps := if is_sps codec n then n else p_sps p,
     p_pps := if is_pps codec n then n else p_pps p,
     p_vps := if is_vps codec n then n else p_vps p\<rparr>)"
  by (simp add: extract_nal_def is_sps_def is_pps_def is_vps_def nal_kind_def Let_def)

lemma fold_extract_nal:
  "fold_opt (extract_nal codec) ns p = Some (p\<lparr>
     p_sps := last_fitting (is_sps codec) ns (p_sps p),
     p_pps := last_fitting (is_pps codec) ns (p_pps p),
     p_vps := last_fitting (is_vps codec) ns (p_vps p)\<rparr>)"
  by (induction ns arbitrary: p) (simp_all add: extract_nal_eq)

text \<open>
  C20. Until both an SPS and a PPS have been found, extraction takes from an access unit
  the last parameter set of each kind that fits its buffer, leaves the kinds the unit does
  not have as they were, and declares the parameters ready as soon as both are there.
\<close>

theorem extract_params_units:
  fixes us :: "(start_code \<times> byte list) list" and codec :: int and z :: nat
  assumes "list_all (\<lambda>u. nal_wf (snd u)) us" and "\<not> p_ready p"
  defines "ns \<equiv> map snd us"
  defines "p' \<equiv> rmr_extract_params (annexb us @ replicate z 0) codec p"
  shows "p_sps p' = last_fitting (is_sps codec) ns (p_sps p) \<and>
    p_pps p' = last_fitting (is_pps codec) ns (p_pps p) \<and>
    p_vps p' = last_fitting (is_vps codec) ns (p_vps p) \<and>
    (p_ready p' \<longleftrightarrow> p_sps p' \<noteq> [] \<and> p_pps p' \<noteq> [])"
  using assms(2)
  by (simp add: p'_def rmr_extract_params_def nal_loop_annexb [OF assms(1)] fold_extract_nal ns_def Let_def)

theorem extract_params_units_witness:
  "p_sps (rmr_extract_params [0, 0, 0, 1, 0x67, 9, 0, 0, 1, 0x68, 3] 0
     \<lparr>p_sps = [], p_pps = [], p_vps = [], p_ready = False\<rparr>) = [0x67, 9]"
proof -
  have "list_all (\<lambda>u. nal_wf (snd u)) [(SC4, [0x67, 9]), (SC3, [0x68, 3])]"
    by (simp add: nal_wf_def)
  from extract_params_units [OF this, of "\<lparr>p_sps = [], p_pps = [], p_vps = [], p_ready = False\<rparr>" 0 0]
  show ?thesis by (simp add: is_sps_def nal_kind_def)
qed

end
