(* ===== verification/Rmr_Sign.thy ===== *)
theory Rmr_Sign
  imports Mp4_Format
begin

text \<open>
  The hash-chain signatures of recordings, \<^verbatim>\<open>rmr/rmr_sign.c\<close>. SHA-512 and Ed25519 come from
  monocypher, which is not part of the repository: they are the arguments \<open>sha512\<close>, from a
  message to its hash, and \<open>ed25519_sign\<close>, from a secret key and a message to a signature. The
  running hash of a span is the bytes it has absorbed.

  A signing stream lives inside the state of the writer it signs for, and the write callback
  updates it while a signature box is written; \<open>get\<close> and \<open>upd\<close> are the field of that state.
\<close>

definition RMR_SIGN_BOX_SIZE :: nat where "RMR_SIGN_BOX_SIZE = 164"

definition sign_uuid :: "byte list" where
  "sign_uuid = [0xb0, 0x50, 0xbf, 0x07, 0x88, 0x56, 0x45, 0x98, 0x86, 0x9e, 0x44, 0xc4, 0xdc, 0x20, 0x8f, 0x26]"

record rmr_sign_key =
  secret :: "byte list"
  public :: "byte list"
  fingerprint :: "byte list"

record rmr_sign_stream =
  ss_key :: "rmr_sign_key option"
  ss_hash :: "byte list"
  prev_sig :: "byte list"
  span_bytes :: nat
  emitting :: bool

definition rmr_sign_stream_begin :: "rmr_sign_key \<Rightarrow> rmr_sign_stream" where
  "rmr_sign_stream_begin key =
     \<lparr>ss_key = Some key, ss_hash = [], prev_sig = replicate 64 0, span_bytes = 0, emitting = False\<rparr>"

definition rmr_sign_stream_update :: "byte list \<Rightarrow> rmr_sign_stream \<Rightarrow> rmr_sign_stream" where
  "rmr_sign_stream_update buf ss =
     (if ss_key ss = None \<or> emitting ss \<or> buf = [] then ss
      else ss\<lparr>ss_hash := ss_hash ss @ buf, span_bytes := span_bytes ss + length buf\<rparr>)"

text \<open>The 164 bytes of a signature box.\<close>

definition sign_box :: "byte list \<Rightarrow> bool \<Rightarrow> byte list \<Rightarrow> byte list \<Rightarrow> byte list" where
  "sign_box fp final span_hash sig =
     [0, 0, word_of_nat (RMR_SIGN_BOX_SIZE div 256), word_of_nat RMR_SIGN_BOX_SIZE] @ fourcc ''uuid'' @ sign_uuid @
     [1, if final then 1 else 0, 0, 0] @ take 8 fp @ span_hash @ sig"

definition rmr_sign_stream_emit ::
  "(byte list \<Rightarrow> byte list) \<Rightarrow> (byte list \<Rightarrow> byte list \<Rightarrow> byte list) \<Rightarrow>
   ('c \<Rightarrow> rmr_sign_stream) \<Rightarrow> ((rmr_sign_stream \<Rightarrow> rmr_sign_stream) \<Rightarrow> 'c \<Rightarrow> 'c) \<Rightarrow>
   bool \<Rightarrow> (byte list \<Rightarrow> 'c \<Rightarrow> int \<times> 'c) \<Rightarrow> 'c \<Rightarrow> int \<times> 'c" where
  "rmr_sign_stream_emit sha512 ed25519_sign get upd final write_fn c =
     (case ss_key (get c) of
        None \<Rightarrow> (0, c)
      | Some key \<Rightarrow>
          if span_bytes (get c) = 0 then (0, c)
          else
            let span_hash = sha512 (ss_hash (get c));
                sig = ed25519_sign (secret key) (span_hash @ prev_sig (get c));
                c1 = upd (\<lambda>ss. ss\<lparr>emitting := True\<rparr>) c;
                (ret, c2) = write_fn (sign_box (fingerprint key) final span_hash sig) c1
            in (ret, upd (\<lambda>ss. ss\<lparr>emitting := False, prev_sig := sig, ss_hash := [], span_bytes := 0\<rparr>) c2))"

subsection \<open>Signed files\<close>

text \<open>The signature chained to the previous one, and the file a sequence of spans becomes.\<close>

definition chain_sig :: "(byte list \<Rightarrow> byte list) \<Rightarrow> (byte list \<Rightarrow> byte list \<Rightarrow> byte list) \<Rightarrow> byte list \<Rightarrow>
    byte list \<Rightarrow> byte list \<Rightarrow> byte list" where
  "chain_sig sha edsign sk prev span = edsign sk (sha span @ prev)"

fun signed_spans :: "(byte list \<Rightarrow> byte list) \<Rightarrow> (byte list \<Rightarrow> byte list \<Rightarrow> byte list) \<Rightarrow> rmr_sign_key \<Rightarrow>
    byte list \<Rightarrow> (byte list \<times> bool) list \<Rightarrow> byte list" where
  "signed_spans sha edsign key prev [] = []"
| "signed_spans sha edsign key prev ((span, final) # xs) =
     (let sig = chain_sig sha edsign (secret key) prev span
      in span @ sign_box (fingerprint key) final (sha span) sig @ signed_spans sha edsign key sig xs)"

lemma length_sign_uuid [simp]: "length sign_uuid = 16"
  by (simp add: sign_uuid_def)

lemma sign_box_box:
  assumes "length fp = 8" and "length h = 64" and "length s = 64"
  shows "sign_box fp final h s = box ''uuid'' (sign_uuid @ [1, if final then 1 else 0, 0, 0] @ fp @ h @ s)"
  using assms by (simp add: sign_box_def box_def RMR_SIGN_BOX_SIZE_def be32_def)

lemma length_sign_box [simp]:
  "length fp = 8 \<Longrightarrow> length h = 64 \<Longrightarrow> length s = 64 \<Longrightarrow> length (sign_box fp final h s) = 164"
  by (simp add: sign_box_box)

end
