(* ===== verification/Rmr_Prebuf.thy ===== *)
theory Rmr_Prebuf
  imports Raptor_Prelude
begin

text \<open>
  The pre-buffer of the recorder, \<^verbatim>\<open>rmr/rmr_prebuf.c\<close>: a ring of slots over one data region with
  a bump pointer that wraps to the start. Indices and offsets are 32-bit words; the two regions
  are lists whose lengths are the allocated sizes.
\<close>

record rmr_prebuf_slot =
  data_offset :: u32
  data_length :: u32
  timestamp :: int
  is_key :: bool

record rmr_prebuf =
  slots :: "rmr_prebuf_slot list"
  capacity :: u32
  pb_mask :: u32
  write_idx :: u32
  pb_count :: u32
  pb_data :: "byte list"
  data_size :: u32
  data_head :: u32

definition UINT32_MAX :: u32 where
  "UINT32_MAX = - 1"

definition slot_zero :: rmr_prebuf_slot where
  "slot_zero = \<lparr>data_offset = 0, data_length = 0, timestamp = 0, is_key = False\<rparr>"

text \<open>\<open>mem\<close> is what the three allocations return: the last is the region as \<^verbatim>\<open>malloc\<close> leaves it.\<close>

definition rmr_prebuf_create :: "byte list option \<Rightarrow> u32 \<Rightarrow> u32 \<Rightarrow> rmr_prebuf option" where
  "rmr_prebuf_create mem cap sz =
     (if cap = 0 \<or> cap AND (cap - 1) \<noteq> 0 then None
      else if sz = 0 then None
      else case mem of
        None \<Rightarrow> None
      | Some region \<Rightarrow>
          Some \<lparr>slots = replicate (unat cap) slot_zero, capacity = cap, pb_mask = cap - 1, write_idx = 0, pb_count = 0,
            pb_data = region, data_size = sz, data_head = 0\<rparr>)"

definition rmr_prebuf_push :: "byte list \<Rightarrow> int \<Rightarrow> bool \<Rightarrow> rmr_prebuf \<Rightarrow> rmr_prebuf" where
  "rmr_prebuf_push bytes ts key pb =
     (let len = word_of_nat (length bytes) in
      if len = 0 \<or> data_size pb < len then pb
      else
        let offset = (if data_size pb < data_head pb + len then 0 else data_head pb);
            idx = write_idx pb AND pb_mask pb
        in pb\<lparr>pb_data := take (unat offset) (pb_data pb) @ bytes @ drop (unat offset + length bytes) (pb_data pb),
              data_head := offset + len,
              slots := (slots pb)[unat idx := \<lparr>data_offset = offset, data_length = len, timestamp = ts, is_key = key\<rparr>],
              write_idx := write_idx pb + 1,
              pb_count := (if pb_count pb < capacity pb then pb_count pb + 1 else pb_count pb)\<rparr>)"

definition slot_at :: "rmr_prebuf \<Rightarrow> u32 \<Rightarrow> rmr_prebuf_slot" where
  "slot_at pb i = slots pb ! unat (i AND pb_mask pb)"

lemma unat_pred_less: "(start :: u32) < i \<Longrightarrow> unat (i - 1) < unat i"
  by (rule measure_unat) auto

text \<open>The backward walk over keyframes, with the oldest one seen so far.\<close>

function find_keyframe_loop :: "rmr_prebuf \<Rightarrow> int \<Rightarrow> int \<Rightarrow> u32 \<Rightarrow> u32 \<Rightarrow> u32 \<Rightarrow> u32" where
  "find_keyframe_loop pb max_age_us newest_ts start i best =
     (if \<not> start < i then best
      else
        let s = slot_at pb (i - 1)
        in if \<not> is_key s then find_keyframe_loop pb max_age_us newest_ts start (i - 1) best
           else if max_age_us \<le> newest_ts - timestamp s then i - 1
           else find_keyframe_loop pb max_age_us newest_ts start (i - 1) (i - 1))"
  by pat_completeness auto

termination
  by (relation "measure (\<lambda>(_, _, _, _, i, _). unat i)") (auto simp: unat_pred_less)

declare find_keyframe_loop.simps [simp del]

definition rmr_prebuf_find_keyframe :: "rmr_prebuf \<Rightarrow> int \<Rightarrow> u32" where
  "rmr_prebuf_find_keyframe pb max_age_us =
     (if pb_count pb = 0 then UINT32_MAX
      else find_keyframe_loop pb max_age_us (timestamp (slot_at pb (write_idx pb - 1)))
             (write_idx pb - pb_count pb) (write_idx pb) UINT32_MAX)"

lemma unat_succ_diff: "(i :: u32) < n \<Longrightarrow> unat (n - (i + 1)) < unat (n - i)"
  using measure_unat [of "n - i"] by (auto simp: diff_diff_eq [symmetric])

function find_frame_loop :: "rmr_prebuf \<Rightarrow> int \<Rightarrow> u32 \<Rightarrow> u32" where
  "find_frame_loop pb min_ts i =
     (if \<not> i < write_idx pb then UINT32_MAX
      else if min_ts \<le> timestamp (slot_at pb i) then i
      else find_frame_loop pb min_ts (i + 1))"
  by pat_completeness auto

termination
  by (relation "measure (\<lambda>(pb, _, i). unat (write_idx pb - i))") (auto simp: unat_succ_diff)

declare find_frame_loop.simps [simp del]

definition rmr_prebuf_find_frame_at :: "rmr_prebuf \<Rightarrow> int \<Rightarrow> u32" where
  "rmr_prebuf_find_frame_at pb min_ts =
     (if pb_count pb = 0 then UINT32_MAX else find_frame_loop pb min_ts (write_idx pb - pb_count pb))"

text \<open>
  The callback sees the slot and the region from the slot's offset on, and stops the
  iteration by returning True. The result is the number of frames, or \<^const>\<open>None\<close> for -1.
\<close>

function iterate_loop ::
  "(rmr_prebuf_slot \<Rightarrow> byte list \<Rightarrow> 'c \<Rightarrow> bool \<times> 'c) \<Rightarrow> rmr_prebuf \<Rightarrow> u32 \<Rightarrow> nat \<Rightarrow> 'c \<Rightarrow> nat \<times> 'c" where
  "iterate_loop fn pb i iterated ctx =
     (if \<not> i < write_idx pb then (iterated, ctx)
      else
        let s = slot_at pb i;
            (stop, ctx1) = fn s (drop (unat (data_offset s)) (pb_data pb)) ctx
        in if stop then (iterated, ctx1) else iterate_loop fn pb (i + 1) (iterated + 1) ctx1)"
  by pat_completeness auto

termination
  by (relation "measure (\<lambda>(_, pb, i, _). unat (write_idx pb - i))") (auto simp: unat_succ_diff)

declare iterate_loop.simps [simp del]

definition rmr_prebuf_iterate ::
  "(rmr_prebuf_slot \<Rightarrow> byte list \<Rightarrow> 'c \<Rightarrow> bool \<times> 'c) \<Rightarrow> rmr_prebuf \<Rightarrow> u32 \<Rightarrow> 'c \<Rightarrow> nat option \<times> 'c" where
  "rmr_prebuf_iterate fn pb start_idx ctx =
     (if pb_count pb = 0 then (None, ctx)
      else if start_idx < write_idx pb - pb_count pb \<or> write_idx pb \<le> start_idx then (None, ctx)
      else let (n, ctx1) = iterate_loop fn pb start_idx 0 ctx in (Some n, ctx1))"

definition rmr_prebuf_count :: "rmr_prebuf option \<Rightarrow> u32" where
  "rmr_prebuf_count pb = (case pb of Some pb \<Rightarrow> pb_count pb | None \<Rightarrow> 0)"

definition rmr_prebuf_timestamp :: "rmr_prebuf \<Rightarrow> u32 \<Rightarrow> int" where
  "rmr_prebuf_timestamp pb abs_idx = timestamp (slot_at pb abs_idx)"

definition rmr_prebuf_newest :: "rmr_prebuf \<Rightarrow> u32" where
  "rmr_prebuf_newest pb = (write_idx pb - 1) AND pb_mask pb"

definition rmr_prebuf_write_idx :: "rmr_prebuf \<Rightarrow> u32" where
  "rmr_prebuf_write_idx pb = write_idx pb"

subsection \<open>Which frames are intact\<close>

text \<open>
  A frame of the history stays in the region until the bump pointer comes around. \<open>D\<close> is the
  size of the region, \<open>M\<close> the largest frame, \<open>T\<close> the bytes pushed since and including the frame
  and \<open>o\<close> its offset: the pointer has not wrapped since, or it has wrapped once and is still
  below the frame, or \<^term>\<open>D < T + M\<close>.
\<close>

definition overwrite :: "nat \<Rightarrow> byte list \<Rightarrow> byte list \<Rightarrow> byte list" where
  "overwrite off bs region = take off region @ bs @ drop (off + length bs) region"

definition placed :: "nat \<Rightarrow> nat \<Rightarrow> nat \<Rightarrow> byte list \<Rightarrow> nat \<Rightarrow> byte list \<Rightarrow> nat \<Rightarrow> bool" where
  "placed D M head region off bs T \<longleftrightarrow> D < T + M \<or>
     take (length bs) (drop off region) = bs \<and> (head = off + T \<or> head \<le> off \<and> D + head < T + M + off)"

lemma length_overwrite [simp]: "off + length bs \<le> length region \<Longrightarrow> length (overwrite off bs region) = length region"
  by (simp add: overwrite_def)

lemma overwrite_same: "off + length bs \<le> length region \<Longrightarrow> take (length bs) (drop off (overwrite off bs region)) = bs"
  by (simp add: overwrite_def)

lemma overwrite_other:
  assumes "off + length bs \<le> length region" and "off + length bs \<le> a \<or> a + n \<le> off"
  shows "take n (drop a (overwrite off bs region)) = take n (drop a region)"
proof (intro nth_equalityI)
  show "length (take n (drop a (overwrite off bs region))) = length (take n (drop a region))"
    using assms(1) by simp
  fix i assume "i < length (take n (drop a (overwrite off bs region)))"
  then show "take n (drop a (overwrite off bs region)) ! i = take n (drop a region) ! i"
    using assms by (auto simp: overwrite_def nth_append)
qed

lemma placed_step:
  assumes "placed D M head region off bs T" and "length new \<le> M" and "0 < length new" and "M \<le> D"
    and "length region = D" and "head \<le> D" and "off + length bs \<le> D" and "length bs \<le> T"
  defines "at \<equiv> (if D < head + length new then 0 else head)"
  shows "placed D M (at + length new) (overwrite at new region) off bs (T + length new)"
proof -
  consider (gone) "D < T + M" | (ahead) "head = off + T" "take (length bs) (drop off region) = bs"
    | (behind) "head \<le> off" "D + head < T + M + off" "take (length bs) (drop off region) = bs"
    using assms(1) by (auto simp: placed_def)
  then show ?thesis
  proof cases
    case gone
    then show ?thesis by (simp add: placed_def)
  next
    case ahead
    show ?thesis
    proof (cases "D < head + length new")
      case True
      then show ?thesis
        using ahead assms overwrite_other [of 0 new region off "length bs"]
        by (cases "length new \<le> off") (auto simp: placed_def at_def)
    next
      case False
      then have "take (length bs) (drop off (overwrite head new region)) = bs"
        using ahead assms overwrite_other [of head new region off "length bs"] by simp
      then show ?thesis using False ahead by (simp add: placed_def at_def)
    qed
  next
    case behind
    show ?thesis
    proof (cases "D < head + length new \<or> off < head + length new")
      case True
      then have "D < T + length new + M" using behind assms by auto
      then show ?thesis by (simp add: placed_def)
    next
      case False
      then show ?thesis
        using behind assms overwrite_other [of head new region off "length bs"] by (auto simp: placed_def at_def)
    qed
  qed
qed

type_synonym frame = "byte list \<times> int \<times> bool"

definition frame_len :: "frame \<Rightarrow> nat" where
  "frame_len f = length (fst f)"

definition bytes_from :: "frame list \<Rightarrow> nat \<Rightarrow> nat" where
  "bytes_from hs i = sum_list (map frame_len (drop i hs))"

definition pushes :: "frame list \<Rightarrow> rmr_prebuf \<Rightarrow> rmr_prebuf" where
  "pushes hs pb = fold (\<lambda>(bs, ts, key). rmr_prebuf_push bs ts key) hs pb"

definition sized :: "nat \<Rightarrow> frame list \<Rightarrow> bool" where
  "sized M hs \<longleftrightarrow> list_all (\<lambda>f. 0 < frame_len f \<and> frame_len f \<le> M) hs"

definition slot_holds :: "nat \<Rightarrow> nat \<Rightarrow> rmr_prebuf \<Rightarrow> frame list \<Rightarrow> nat \<Rightarrow> rmr_prebuf_slot \<Rightarrow> bool" where
  "slot_holds D M pb hs i s \<longleftrightarrow> (case hs ! i of (bs, ts, key) \<Rightarrow>
     timestamp s = ts \<and> is_key s = key \<and> data_length s = word_of_nat (length bs) \<and>
     unat (data_offset s) + length bs \<le> D \<and>
     placed D M (unat (data_head pb)) (pb_data pb) (unat (data_offset s)) bs (bytes_from hs i))"

definition holds :: "nat \<Rightarrow> nat \<Rightarrow> nat \<Rightarrow> frame list \<Rightarrow> rmr_prebuf \<Rightarrow> bool" where
  "holds p D M hs pb \<longleftrightarrow>
     capacity pb = 2 ^ p \<and> pb_mask pb = 2 ^ p - 1 \<and> length (slots pb) = 2 ^ p \<and>
     unat (data_size pb) = D \<and> length (pb_data pb) = D \<and> unat (data_head pb) \<le> D \<and>
     unat (write_idx pb) = length hs \<and> unat (pb_count pb) = min (length hs) (2 ^ p) \<and>
     (\<forall>i<length hs. length hs \<le> i + 2 ^ p \<longrightarrow> slot_holds D M pb hs i (slots pb ! (i mod 2 ^ p)))"

lemma unat_and_mask: "p < 32 \<Longrightarrow> unat ((i :: u32) AND (2 ^ p - 1)) = unat i mod 2 ^ p"
  by (simp add: mask_eq_exp_minus_1 [symmetric] take_bit_eq_mask [symmetric] unsigned_take_bit_eq) (simp add: take_bit_eq_mod)

lemma unat_pow2: "p < 32 \<Longrightarrow> unat (2 ^ p :: u32) = 2 ^ p"
  using unat_of_nat_u32 [of "2 ^ p"] power_strict_increasing [of p 32 "2 :: nat"] by simp

lemma unat_plus1: "unat (x :: u32) < 2 ^ 32 - 1 \<Longrightarrow> unat (x + 1) = unat x + 1"
  by (simp add: unat_word_ariths)

lemma slot_at_holds: "holds p D M hs pb \<Longrightarrow> p < 32 \<Longrightarrow> slot_at pb i = slots pb ! (unat i mod 2 ^ p)"
  by (simp add: slot_at_def holds_def unat_and_mask)

lemma mod_window_neq:
  assumes "i < (n :: nat)" and "n \<le> i + c" and "n + 1 \<le> i + c"
  shows "i mod c \<noteq> n mod c"
proof
  assume "i mod c = n mod c"
  then have "c dvd n - i" using assms(1) by (metis mod_eq_dvd_iff_nat less_imp_le)
  then have "c \<le> n - i" using assms(1) by (simp add: dvd_imp_le)
  with assms(1,3) show False by simp
qed

lemma bytes_from_snoc: "i \<le> length hs \<Longrightarrow> bytes_from (hs @ [f]) i = bytes_from hs i + frame_len f"
  by (simp add: bytes_from_def)

lemma frame_len_from: "i < length hs \<Longrightarrow> frame_len (hs ! i) \<le> bytes_from hs i"
  by (simp add: bytes_from_def Cons_nth_drop_Suc [symmetric])

lemma push_holds:
  assumes h: "holds p D M hs pb" and p: "p < 32" and D: "D < 2 ^ 31" and M: "M \<le> D"
    and f: "sized M [(bs, ts, key)]" and n: "length hs < 2 ^ 32 - 1"
  shows "holds p D M (hs @ [(bs, ts, key)]) (rmr_prebuf_push bs ts key pb)"
proof -
  let ?l = "word_of_nat (length bs) :: u32"
  have len: "0 < length bs" "length bs \<le> M" using f by (simp_all add: sized_def frame_len_def)
  have l: "unat ?l = length bs" using len M D by (intro unat_of_nat_u32) simp
  have hd: "unat (data_head pb) \<le> D" "unat (data_size pb) = D" "length (pb_data pb) = D" using h by (simp_all add: holds_def)
  have sum: "unat (data_head pb + ?l) = unat (data_head pb) + length bs"
    using hd len M D l by (simp add: unat_word_ariths)
  define at where "at = (if D < unat (data_head pb) + length bs then 0 else unat (data_head pb))"
  define offset where "offset = (if data_size pb < data_head pb + ?l then 0 else data_head pb)"
  have off: "unat offset = at" by (auto simp: offset_def at_def word_less_nat_alt sum hd)
  have at: "at + length bs \<le> D" using len M by (auto simp: at_def)
  have head: "unat (offset + ?l) = at + length bs" using off at D l by (simp add: unat_word_ariths)
  let ?idx = "length hs mod 2 ^ p"
  define new where "new = \<lparr>data_offset = offset, data_length = ?l, timestamp = ts, is_key = key\<rparr>"
  have "?l \<noteq> 0" using l len by auto
  moreover have "\<not> data_size pb < ?l" using l len M hd by (simp add: word_less_nat_alt)
  moreover have "unat (write_idx pb AND pb_mask pb) = ?idx" using h p by (simp add: holds_def unat_and_mask)
  ultimately have push: "rmr_prebuf_push bs ts key pb = pb\<lparr>pb_data := overwrite at bs (pb_data pb), data_head := offset + ?l,
      slots := (slots pb)[?idx := new], write_idx := write_idx pb + 1,
      pb_count := (if pb_count pb < capacity pb then pb_count pb + 1 else pb_count pb)\<rparr>"
    by (simp add: rmr_prebuf_push_def Let_def offset_def [symmetric] new_def overwrite_def off del: word_less_no)
  have cap: "length (slots pb) = 2 ^ p" using h by (simp add: holds_def)
  have slot: "slot_holds D M (rmr_prebuf_push bs ts key pb) (hs @ [(bs, ts, key)]) i ((slots pb)[?idx := new] ! (i mod 2 ^ p))"
    if i: "i < length (hs @ [(bs, ts, key)])" "length (hs @ [(bs, ts, key)]) \<le> i + 2 ^ p" for i
  proof (cases "i = length hs")
    case True
    then show ?thesis using at hd
      by (auto simp: cap slot_holds_def push new_def off head placed_def bytes_from_def frame_len_def overwrite_same)
  next
    case False
    then have i': "i < length hs" "length hs \<le> i + 2 ^ p" "i mod 2 ^ p \<noteq> ?idx"
      using i mod_window_neq [of i "length hs" "2 ^ p"] by auto
    obtain b t k where f: "hs ! i = (b, t, k)" by (cases "hs ! i")
    let ?s = "slots pb ! (i mod 2 ^ p)"
    have s: "slot_holds D M pb hs i ?s" using h i' by (simp add: holds_def)
    then have "placed D M (at + length bs) (overwrite at bs (pb_data pb)) (unat (data_offset ?s)) b (bytes_from hs i + length bs)"
      using len M hd frame_len_from [OF i'(1)] unfolding at_def
      by (intro placed_step) (auto simp: slot_holds_def f frame_len_def)
    then show ?thesis using s i' by (simp add: slot_holds_def f push head bytes_from_snoc frame_len_def nth_append)
  qed
  have "unat (pb_count pb) = min (length hs) (2 ^ p)" "unat (capacity pb) = 2 ^ p" using h p by (simp_all add: holds_def unat_pow2)
  then have "unat (if pb_count pb < capacity pb then pb_count pb + 1 else pb_count pb) = min (length hs + 1) (2 ^ p)"
    using n by (auto simp: word_less_nat_alt unat_plus1)
  moreover have "unat (write_idx pb + 1) = length hs + 1" using h n by (simp add: holds_def unat_plus1)
  ultimately show ?thesis
    using h slot at hd unfolding holds_def by (auto simp: push head)
qed

lemma create_holds:
  assumes "rmr_prebuf_create (Some region) (2 ^ p) sz = Some pb" and "length region = unat sz" and "p < 32"
  shows "holds p (unat sz) M [] pb"
  using assms by (auto simp: rmr_prebuf_create_def holds_def unat_pow2 split: if_splits)

lemma pushes_holds:
  assumes "holds p D M [] pb" and "p < 32" and "D < 2 ^ 31" and "M \<le> D"
  shows "sized M hs \<Longrightarrow> length hs < 2 ^ 32 \<Longrightarrow> holds p D M hs (pushes hs pb)"
proof (induction hs rule: rev_induct)
  case Nil
  then show ?case using assms(1) by (simp add: pushes_def)
next
  case (snoc f hs)
  then have "holds p D M hs (pushes hs pb)" by (simp add: sized_def)
  with snoc.prems show ?case
    using push_holds [OF _ assms(2-4), of hs _ "fst f" "fst (snd f)" "snd (snd f)"]
    by (simp add: pushes_def sized_def split_beta)
qed

subsection \<open>Replay\<close>

text \<open>The callback of the recorder's replay, as a collector of what it is given.\<close>

definition collect :: "rmr_prebuf_slot \<Rightarrow> byte list \<Rightarrow> frame list \<Rightarrow> bool \<times> frame list" where
  "collect s bytes acc = (False, acc @ [(take (unat (data_length s)) bytes, timestamp s, is_key s)])"

lemma intact_frame:
  assumes "holds p D M hs pb" and "p < 32" and "D < 2 ^ 31" and "i < length hs" and "length hs \<le> i + 2 ^ p"
    and "bytes_from hs i + M \<le> D" and "unat j = i"
  shows "collect (slot_at pb j) (drop (unat (data_offset (slot_at pb j))) (pb_data pb)) acc = (False, acc @ [hs ! i])"
proof -
  obtain bs ts key where f: "hs ! i = (bs, ts, key)" by (cases "hs ! i")
  have "slot_holds D M pb hs i (slot_at pb j)"
    using assms by (simp add: slot_at_holds [OF assms(1,2)] holds_def)
  moreover from this have "unat (word_of_nat (length bs) :: u32) = length bs"
    using assms(3) by (intro unat_of_nat_u32) (auto simp: slot_holds_def f)
  ultimately show ?thesis
    using assms(6) by (auto simp: slot_holds_def f placed_def collect_def)
qed

lemma bytes_from_mono: "i \<le> j \<Longrightarrow> bytes_from hs j \<le> bytes_from hs i"
  by (metis bytes_from_def append_take_drop_id drop_drop le_add_diff_inverse2 le_add2 map_append sum_list.append)

lemma iterate_collect:
  assumes "holds p D M hs pb" and "p < 32" and "D < 2 ^ 31" and "length hs < 2 ^ 32"
    and "i \<le> length hs" and "length hs \<le> i + 2 ^ p" and "bytes_from hs i + M \<le> D" and "unat j = i"
  shows "iterate_loop collect pb j n acc = (n + (length hs - i), acc @ drop i hs)"
  using assms(5-8)
proof (induction "length hs - i" arbitrary: i j n acc)
  case 0
  then show ?case using assms(1) by (subst iterate_loop.simps) (simp add: holds_def word_less_nat_alt)
next
  case (Suc m)
  have w: "unat (write_idx pb) = length hs" using assms(1) by (simp add: holds_def)
  have "i < length hs" using Suc.hyps(2) by simp
  have "unat (j + 1) = Suc i" using Suc.prems(4) \<open>i < length hs\<close> assms(4) by (subst unat_plus1) simp_all
  then have "iterate_loop collect pb (j + 1) (n + 1) (acc @ [hs ! i]) = (n + 1 + (length hs - Suc i), (acc @ [hs ! i]) @ drop (Suc i) hs)"
    using Suc \<open>i < length hs\<close> bytes_from_mono [of i "Suc i" hs] by (intro Suc.hyps(1)) simp_all
  moreover note intact_frame [OF assms(1-3) \<open>i < length hs\<close> Suc.prems(2,3,4), of acc]
  ultimately show ?case
    using \<open>i < length hs\<close> Suc.prems(4) w
    by (subst iterate_loop.simps) (simp add: word_less_nat_alt Let_def Cons_nth_drop_Suc)
qed

text \<open>
  C32. Whatever was pushed before, the last frames of a pre-buffer are replayed byte for byte, in
  order and with their timestamps and key flags, from any frame that is among the last
  \<^term>\<open>(2 :: nat) ^ p\<close> and after which, with it, no more was pushed than fits the data region beside one
  frame of the largest size. The index of a frame is the number of frames pushed before it.
\<close>

theorem prebuf_replay:
  assumes "rmr_prebuf_create (Some region) (2 ^ p) sz = Some pb" and "length region = unat sz" and "p < 32"
    and "unat sz < 2 ^ 31" and "sized M hs" and "M \<le> unat sz" and "length hs < 2 ^ 32"
    and "unat i < length hs" and "length hs \<le> unat i + 2 ^ p" and "bytes_from hs (unat i) + M \<le> unat sz"
  shows "rmr_prebuf_iterate collect (pushes hs pb) i [] = (Some (length hs - unat i), drop (unat i) hs)"
proof -
  have h: "holds p (unat sz) M hs (pushes hs pb)"
    using pushes_holds [OF create_holds [OF assms(1-3)] assms(3,4,6,5,7)] .
  then have w: "unat (write_idx (pushes hs pb)) = length hs" and c: "unat (pb_count (pushes hs pb)) = min (length hs) (2 ^ p)"
    by (simp_all add: holds_def)
  have "unat (write_idx (pushes hs pb) - pb_count (pushes hs pb)) = length hs - min (length hs) (2 ^ p)"
    using w c by (subst unat_sub) (simp_all add: word_le_nat_alt)
  moreover have "pb_count (pushes hs pb) \<noteq> 0" using c assms(8) by (auto simp: min_def split: if_splits)
  moreover note iterate_collect [OF h assms(3,4,7) less_imp_le [OF assms(8)] assms(9,10) refl, of 0 "[]"]
  ultimately show ?thesis
    using w assms(8,9) by (simp add: rmr_prebuf_iterate_def word_less_nat_alt word_le_nat_alt)
qed

text \<open>Witness of C1: five frames of two bytes in a region of eight; the last three are intact after the wrap.\<close>

theorem prebuf_replay_witness:
  "rmr_prebuf_iterate collect
     (pushes [([1, 1], 10, True), ([2, 2], 20, False), ([3, 3], 30, True), ([4, 4], 40, False), ([5, 5], 50, False)]
       (the (rmr_prebuf_create (Some (replicate 8 0)) 4 8))) 2 []
   = (Some 3, [([3, 3], 30, True), ([4, 4], 40, False), ([5, 5], 50, False)])"
proof -
  have "rmr_prebuf_create (Some (replicate 8 0)) (2 ^ 2) 8 = Some (the (rmr_prebuf_create (Some (replicate 8 0)) 4 8))"
    by (simp add: rmr_prebuf_create_def)
  from prebuf_replay [OF this, of 2 "[([1, 1], 10, True), ([2, 2], 20, False), ([3, 3], 30, True), ([4, 4], 40, False), ([5, 5], 50, False)]" 2]
  show ?thesis by (simp add: sized_def frame_len_def bytes_from_def)
qed

subsection \<open>Where a clip starts\<close>

text \<open>The keyframes among the frames \<open>a\<close> to \<open>b\<close>, and the choice the backward walk makes.\<close>

definition key_indices :: "frame list \<Rightarrow> nat \<Rightarrow> nat \<Rightarrow> nat list" where
  "key_indices hs a b = filter (\<lambda>i. snd (snd (hs ! i))) [a..<b]"

definition age :: "frame list \<Rightarrow> nat \<Rightarrow> int" where
  "age hs i = fst (snd (last hs)) - fst (snd (hs ! i))"

definition pick_key :: "frame list \<Rightarrow> int \<Rightarrow> nat list \<Rightarrow> nat option" where
  "pick_key hs max_age ks =
     (if filter (\<lambda>i. max_age \<le> age hs i) ks \<noteq> [] then Some (last (filter (\<lambda>i. max_age \<le> age hs i) ks))
      else if ks \<noteq> [] then Some (hd ks) else None)"

definition as_index :: "nat option \<Rightarrow> u32" where
  "as_index r = (case r of Some i \<Rightarrow> word_of_nat i | None \<Rightarrow> UINT32_MAX)"

lemma slot_frame:
  assumes "holds p D M hs pb" and "p < 32" and "i < length hs" and "length hs \<le> i + 2 ^ p" and "unat j = i"
  shows "timestamp (slot_at pb j) = fst (snd (hs ! i))" and "is_key (slot_at pb j) = snd (snd (hs ! i))"
proof -
  have "slot_holds D M pb hs i (slot_at pb j)"
    using assms by (simp add: slot_at_holds [OF assms(1,2)] holds_def)
  then show "timestamp (slot_at pb j) = fst (snd (hs ! i))" "is_key (slot_at pb j) = snd (snd (hs ! i))"
    by (auto simp: slot_holds_def split: prod.splits)
qed

lemma key_indices_snoc: "a \<le> b \<Longrightarrow> key_indices hs a (Suc b) = key_indices hs a b @ (if snd (snd (hs ! b)) then [b] else [])"
  by (simp add: key_indices_def)

lemma find_keyframe_loop:
  assumes "holds p D M hs pb" and "p < 32" and "length hs < 2 ^ 32" and "length hs \<le> a + 2 ^ p"
    and "unat start = a" and "newest = fst (snd (last hs))"
    and "unat i = b" and "a \<le> b" and "b \<le> length hs"
  shows "find_keyframe_loop pb max_age newest start i best =
    (case pick_key hs max_age (key_indices hs a b) of Some k \<Rightarrow> word_of_nat k | None \<Rightarrow> best)"
  using assms(7-9)
proof (induction "b - a" arbitrary: b i best)
  case 0
  then show ?case using assms(5)
    by (subst find_keyframe_loop.simps) (simp add: word_less_nat_alt key_indices_def pick_key_def)
next
  case (Suc m)
  then obtain c where c: "b = Suc c" "a \<le> c" "c < length hs" by (cases b) auto
  have i1: "unat (i - 1) = c" using Suc.prems(1) c by (subst unat_sub) (simp_all add: word_le_nat_alt)
  then have w: "i - 1 = word_of_nat c" by (metis unsigned_word_eqI of_nat_unat ucast_id)
  have lt: "start < i" using assms(5) Suc.prems(1) c by (simp add: word_less_nat_alt)
  note sl = slot_frame [OF assms(1,2) c(3) _ i1]
  have len: "length hs \<le> c + 2 ^ p" using assms(4) c(2) by simp
  have IH: "find_keyframe_loop pb max_age newest start (i - 1) best' =
      (case pick_key hs max_age (key_indices hs a c) of Some k \<Rightarrow> word_of_nat k | None \<Rightarrow> best')" for best'
    using Suc.hyps(1) [of c "i - 1"] Suc.hyps(2) c i1 by simp
  show ?case
    using IH lt sl [OF len] w c(1,2)
    by (subst find_keyframe_loop.simps)
      (auto simp: Let_def key_indices_snoc pick_key_def age_def assms(6) split: option.splits)
qed

text \<open>
  C33. A clip starts at the newest keyframe that is at least the requested age, or at the oldest
  keyframe there is when none is that old; without a keyframe there is no start. The comment in
  the header asks for the oldest keyframe within the age instead.
\<close>

theorem prebuf_find_keyframe:
  assumes "rmr_prebuf_create (Some region) (2 ^ p) sz = Some pb" and "length region = unat sz" and "p < 32"
    and "unat sz < 2 ^ 31" and "sized M hs" and "M \<le> unat sz" and "length hs < 2 ^ 32" and "hs \<noteq> []"
  shows "rmr_prebuf_find_keyframe (pushes hs pb) max_age =
    as_index (pick_key hs max_age (key_indices hs (length hs - 2 ^ p) (length hs)))"
proof -
  have h: "holds p (unat sz) M hs (pushes hs pb)"
    using pushes_holds [OF create_holds [OF assms(1-3)] assms(3,4,6,5,7)] .
  then have w: "unat (write_idx (pushes hs pb)) = length hs" and c: "unat (pb_count (pushes hs pb)) = min (length hs) (2 ^ p)"
    by (simp_all add: holds_def)
  have st: "unat (write_idx (pushes hs pb) - pb_count (pushes hs pb)) = length hs - 2 ^ p"
    using w c by (subst unat_sub) (simp_all add: word_le_nat_alt)
  have n1: "unat (write_idx (pushes hs pb) - 1) = length hs - 1"
    using w assms(8) by (subst unat_sub) (simp_all add: word_le_nat_alt Suc_le_eq)
  have "timestamp (slot_at (pushes hs pb) (write_idx (pushes hs pb) - 1)) = fst (snd (last hs))"
  proof -
    have "1 \<le> (2 :: nat) ^ p" by simp
    then have "length hs \<le> length hs - 1 + 2 ^ p" by linarith
    then show ?thesis using slot_frame(1) [OF h assms(3) _ _ n1] assms(8) by (simp add: last_conv_nth)
  qed
  moreover have "pb_count (pushes hs pb) \<noteq> 0" using c assms(8) by (auto simp: min_def split: if_splits)
  ultimately show ?thesis
    using find_keyframe_loop [OF h assms(3,7) _ st refl w]
    by (simp add: rmr_prebuf_find_keyframe_def as_index_def)
qed

text \<open>Witness of C1: keyframes of ages 40, 20 and 0; for 15 the start is the second one.\<close>

theorem prebuf_find_keyframe_witness:
  "rmr_prebuf_find_keyframe
     (pushes [([1], 10, True), ([2], 30, True), ([3], 50, True)] (the (rmr_prebuf_create (Some (replicate 8 0)) 4 8))) 15 = 1"
proof -
  have "rmr_prebuf_create (Some (replicate 8 0)) (2 ^ 2) 8 = Some (the (rmr_prebuf_create (Some (replicate 8 0)) 4 8))"
    by (simp add: rmr_prebuf_create_def)
  from prebuf_find_keyframe [OF this, of 1 "[([1], 10, True), ([2], 30, True), ([3], 50, True)]" 15]
  show ?thesis by (simp add: sized_def frame_len_def key_indices_def pick_key_def age_def as_index_def upt_rec)
qed

end
