(* ===== verification/C_Text.thy ===== *)
theory C_Text
  imports Main
begin

text \<open>
  Text as the C library handles it: decimal conversion, character classes of the \<^verbatim>\<open>C\<close> locale,
  bounded copies, and the three ways the sources cut a file into pieces, which are \<^verbatim>\<open>fgets\<close> into
  a fixed buffer, \<^verbatim>\<open>strtok_r\<close> on newlines and the \<^verbatim>\<open>%Ns\<close> conversion of \<^verbatim>\<open>sscanf\<close>. A string is a
  list of characters without a terminator; its length is what \<^verbatim>\<open>strlen\<close> answers.
\<close>

named_theorems text_simps \<open>rewriting facts about lines and words of a file\<close>

subsection \<open>Decimal conversion\<close>

definition digit :: "nat \<Rightarrow> char" where
  "digit d = char_of (48 + d)"

fun decimal :: "nat \<Rightarrow> string" where
  "decimal n = (if n < 10 then [digit n] else decimal (n div 10) @ [digit (n mod 10)])"

lemma decimal_small: "n < 10 \<Longrightarrow> decimal n = [digit n]"
  by simp

lemma decimal_step: "10 \<le> n \<Longrightarrow> decimal n = decimal (n div 10) @ [digit (n mod 10)]"
  by simp

declare decimal.simps [simp del]

text \<open>The conversion \<^verbatim>\<open>%d\<close>.\<close>

definition signed_decimal :: "int \<Rightarrow> string" where
  "signed_decimal i = (if i < 0 then CHR ''-'' # decimal (nat (- i)) else decimal (nat i))"

subsection \<open>Character classes\<close>

definition code :: "char \<Rightarrow> nat" where
  "code c = of_char c"

abbreviation LF :: char where "LF \<equiv> CHR 0x0A"
abbreviation CR :: char where "CR \<equiv> CHR 0x0D"
abbreviation TAB :: char where "TAB \<equiv> CHR 0x09"

definition isdigit :: "char \<Rightarrow> bool" where
  "isdigit c \<longleftrightarrow> 48 \<le> code c \<and> code c \<le> 57"

definition isalnum :: "char \<Rightarrow> bool" where
  "isalnum c \<longleftrightarrow> isdigit c \<or> 65 \<le> code c \<and> code c \<le> 90 \<or> 97 \<le> code c \<and> code c \<le> 122"

definition isxdigit :: "char \<Rightarrow> bool" where
  "isxdigit c \<longleftrightarrow> isdigit c \<or> 65 \<le> code c \<and> code c \<le> 70 \<or> 97 \<le> code c \<and> code c \<le> 102"

definition isspace :: "char \<Rightarrow> bool" where
  "isspace c \<longleftrightarrow> code c = 32 \<or> 9 \<le> code c \<and> code c \<le> 13"

definition isblank :: "char \<Rightarrow> bool" where
  "isblank c \<longleftrightarrow> c = CHR '' '' \<or> c = TAB"

definition isprint :: "char \<Rightarrow> bool" where
  "isprint c \<longleftrightarrow> 32 \<le> code c \<and> code c \<le> 126"

text \<open>\<^verbatim>\<open>rss_strlcpy\<close> into a buffer of the given size.\<close>

definition strlcpy :: "nat \<Rightarrow> string \<Rightarrow> string" where
  "strlcpy sz s = take (sz - 1) s"

lemma code_digit: "d < 10 \<Longrightarrow> code (digit d) = 48 + d"
  by (simp add: code_def digit_def)

lemma isdigit_digit [simp]: "d < 10 \<Longrightarrow> isdigit (digit d)"
  by (simp add: isdigit_def code_digit)

lemma decimal_digits: "c \<in> set (decimal n) \<Longrightarrow> isdigit c"
proof (induction n rule: decimal.induct)
  case (1 n)
  then show ?case by (cases "n < 10") (auto simp: decimal_small decimal_step)
qed

lemma decimal_length: "n < 10 ^ k \<Longrightarrow> 0 < k \<Longrightarrow> length (decimal n) \<le> k"
proof (induction k arbitrary: n)
  case (Suc k)
  then show ?case
  proof (cases "n < 10")
    case False
    with Suc.prems have "n div 10 < 10 ^ k" "0 < k" by (auto simp: less_mult_imp_div_less algebra_simps intro: ccontr)
    with Suc.IH False show ?thesis by (simp add: decimal_step)
  qed (simp add: decimal_small)
qed simp

lemma isprint_isalnum: "isalnum c \<Longrightarrow> isprint c"
  by (auto simp: isalnum_def isprint_def isdigit_def)

lemma isprint_isdigit: "isdigit c \<Longrightarrow> isprint c"
  by (simp add: isprint_def isdigit_def)

lemma isprint_LF [simp]: "\<not> isprint LF"
  and isprint_CR [simp]: "\<not> isprint CR"
  by (simp_all add: isprint_def code_def)

lemma isspace_blank: "isblank c \<Longrightarrow> isspace c"
  by (auto simp: isblank_def isspace_def code_def)

lemma isspace_LF [simp]: "isspace LF"
  by (simp add: isspace_def code_def)

lemma isprint_not_space: "isprint c \<Longrightarrow> c \<noteq> CHR '' '' \<Longrightarrow> \<not> isspace c"
proof -
  assume p: "isprint c" and n: "c \<noteq> CHR '' ''"
  have "code c \<noteq> code CHR '' ''" using n by (simp only: code_def of_char_eq_iff not_False_eq_True)
  then have "code c \<noteq> 32" by (simp add: code_def)
  with p show ?thesis by (simp add: isprint_def isspace_def)
qed

subsection \<open>Lines of a file\<close>

text \<open>\<^verbatim>\<open>strtok_r\<close> on newlines: the non-empty pieces between them.\<close>

fun split_lines :: "string \<Rightarrow> string list" where
  "split_lines [] = [[]]"
| "split_lines (c # cs) = (if c = LF then [] # split_lines cs
     else case split_lines cs of [] \<Rightarrow> [[c]] | l # ls \<Rightarrow> (c # l) # ls)"

definition strtok_lines :: "string \<Rightarrow> string list" where
  "strtok_lines t = filter (\<lambda>l. l \<noteq> []) (split_lines t)"

text \<open>
  \<^verbatim>\<open>fgets\<close> with room for \<open>m\<close> characters before the terminator: up to and including the next
  newline, cut at \<open>m\<close> characters. A longer line comes in several pieces.
\<close>

definition fgets_line :: "nat \<Rightarrow> string \<Rightarrow> string" where
  "fgets_line m t = (let p = takeWhile (\<lambda>c. c \<noteq> LF) t in
     take m (if length p < length t then p @ [LF] else p))"

function fgets_lines :: "nat \<Rightarrow> string \<Rightarrow> string list" where
  "fgets_lines m t = (if t = [] \<or> m = 0 then []
     else fgets_line m t # fgets_lines m (drop (length (fgets_line m t)) t))"
  by pat_completeness auto

lemma fgets_line_nonempty: "t \<noteq> [] \<Longrightarrow> 0 < m \<Longrightarrow> fgets_line m t \<noteq> []"
  by (cases t) (auto simp: fgets_line_def Let_def)

termination fgets_lines
  by (relation "measure (\<lambda>(m, t). length t)") (auto simp: fgets_line_nonempty)

declare fgets_lines.simps [simp del]

lemma fgets_lines_Nil [simp]: "fgets_lines m [] = []"
  by (simp add: fgets_lines.simps)

definition join_lines :: "string list \<Rightarrow> string" where
  "join_lines ls = concat (map (\<lambda>l. l @ [LF]) ls)"

text \<open>The conversion \<^verbatim>\<open>%ms\<close> of \<^verbatim>\<open>sscanf\<close>: white space is skipped, then up to \<open>m\<close> other characters.\<close>

definition scan_word :: "nat \<Rightarrow> string \<Rightarrow> (string \<times> string) option" where
  "scan_word m s = (let s1 = dropWhile isspace s; w = take m (takeWhile (\<lambda>c. \<not> isspace c) s1)
     in if w = [] then None else Some (w, drop (length w) s1))"

subsection \<open>Facts about lines\<close>

lemma split_lines_nonempty [simp]: "split_lines t \<noteq> []"
  by (cases t) (auto split: list.splits)

lemma split_lines_append: "LF \<notin> set l \<Longrightarrow> split_lines (l @ LF # t) = l # split_lines t"
  by (induction l) auto

lemma split_lines_free: "LF \<notin> set l \<Longrightarrow> split_lines l = [l]"
  by (induction l) auto

lemma split_lines_no_LF: "l \<in> set (split_lines t) \<Longrightarrow> LF \<notin> set l"
proof (induction t arbitrary: l)
  case (Cons c cs)
  then show ?case by (cases "split_lines cs") (auto split: if_splits)
qed simp

lemma strtok_lines_wf: "l \<in> set (strtok_lines t) \<Longrightarrow> l \<noteq> [] \<and> LF \<notin> set l"
  by (auto simp: strtok_lines_def split_lines_no_LF)

lemma join_lines_simps [simp]:
  "join_lines [] = []"
  "join_lines (l # ls) = l @ LF # join_lines ls"
  "join_lines (ls @ ms) = join_lines ls @ join_lines ms"
  by (simp_all add: join_lines_def)

lemma split_join_lines: "\<forall>l \<in> set ls. LF \<notin> set l \<Longrightarrow> split_lines (join_lines ls) = ls @ [[]]"
  by (induction ls) (auto simp: split_lines_append)

text \<open>Writing lines out and cutting the result again gives the lines back.\<close>

lemma strtok_join_lines [text_simps]:
  "\<forall>l \<in> set ls. l \<noteq> [] \<and> LF \<notin> set l \<Longrightarrow> strtok_lines (join_lines ls) = ls"
  by (simp add: strtok_lines_def split_join_lines)

definition chomp :: "string \<Rightarrow> string" where
  "chomp l = takeWhile (\<lambda>c. c \<noteq> LF) l"

definition short_lines :: "nat \<Rightarrow> string \<Rightarrow> bool" where
  "short_lines m t \<longleftrightarrow> (\<forall>l \<in> set (split_lines t). length l < m)"

lemma fgets_line_terminated:
  assumes "LF \<notin> set l" "length l < m"
  shows "fgets_line m (l @ LF # t) = l @ [LF]"
proof -
  have "takeWhile (\<lambda>c. c \<noteq> LF) (l @ LF # t) = l" using assms(1)
    by (induction l) auto
  then show ?thesis using assms(2) by (simp add: fgets_line_def)
qed

lemma fgets_line_last:
  assumes "LF \<notin> set l" "length l \<le> m"
  shows "fgets_line m l = l"
proof -
  have whole: "takeWhile (\<lambda>c. c \<noteq> LF) l = l" using assms(1) by (induction l) auto
  show ?thesis unfolding fgets_line_def Let_def whole using assms(2) by simp
qed

lemma chomp_simps [simp]:
  "LF \<notin> set l \<Longrightarrow> chomp (l @ LF # t) = l"
  "LF \<notin> set l \<Longrightarrow> chomp l = l"
  by (induction l) (auto simp: chomp_def)

text \<open>As long as every line fits the buffer, \<^verbatim>\<open>fgets\<close> and \<^verbatim>\<open>strtok_r\<close> see the same lines.\<close>

lemma strtok_fgets:
  "short_lines m t \<Longrightarrow> 0 < m \<Longrightarrow> filter (\<lambda>l. l \<noteq> []) (map chomp (fgets_lines m t)) = strtok_lines t"
proof (induction "length t" arbitrary: t rule: less_induct)
  case less
  show ?case
  proof (cases "LF \<in> set t")
    case True
    then obtain l u where t: "t = l @ LF # u" and l: "LF \<notin> set l"
      by (metis split_list_first)
    then have short: "length l < m" "short_lines m u"
      using less.prems(1) by (auto simp: short_lines_def split_lines_append)
    have "fgets_lines m t = (l @ [LF]) # fgets_lines m u"
      using l short(1) less.prems(2) by (subst fgets_lines.simps) (simp add: t fgets_line_terminated)
    then show ?thesis
      using less.hyps [of u] short(2) less.prems(2) l
      by (simp add: t strtok_lines_def split_lines_append)
  next
    case False
    then have short: "length t < m" using less.prems(1) by (simp add: short_lines_def split_lines_free)
    have "fgets_lines m t = (if t = [] then [] else [t])"
      using False short less.prems(2) by (subst fgets_lines.simps) (simp add: fgets_line_last)
    then show ?thesis using False by (auto simp: strtok_lines_def split_lines_free)
  qed
qed

lemma short_join_lines:
  "\<forall>l \<in> set ls. LF \<notin> set l \<and> length l < m \<Longrightarrow> 0 < m \<Longrightarrow> short_lines m (join_lines ls)"
  by (auto simp: short_lines_def split_join_lines)

lemma short_strtok_lines: "short_lines m t \<Longrightarrow> l \<in> set (strtok_lines t) \<Longrightarrow> length l < m"
  by (auto simp: short_lines_def strtok_lines_def)

end
