(* ===== verification/Rmr_Storage.thy ===== *)
theory Rmr_Storage
  imports Raptor_Prelude C_Text "HOL-Library.List_Lexorder" "HOL-Library.Char_ord" "HOL-Library.Sublist" "HOL-Library.Multiset"
begin

text \<open>
  Storage of the recorder, \<^verbatim>\<open>rmr/rmr_storage.c\<close>: names of segments, the rotation grid, the
  guarded creation of the storage directory and the cleanup that keeps the recordings under a
  limit. Clocks, \<^verbatim>\<open>stat\<close>, \<^verbatim>\<open>access\<close>, \<^verbatim>\<open>mkdir -p\<close> (of the shared library), the allocator and
  \<^verbatim>\<open>unlink\<close> are arguments. A directory is the list of its entries in the order \<^verbatim>\<open>readdir\<close> gives.
\<close>

record rmr_storage =
  base_path :: string
  segment_minutes :: int
  segment_seconds :: int
  max_storage_mb :: int
  refuse_logged :: bool
  last_wait_warn_us :: int

record rmr_storage_config =
  cfg_base_path :: string
  cfg_segment_minutes :: int
  cfg_segment_seconds :: int
  cfg_max_storage_mb :: int

text \<open>\<^verbatim>\<open>snprintf\<close> into the field of 256 bytes keeps 255 characters.\<close>

definition rmr_storage_create :: "rmr_storage_config \<Rightarrow> rmr_storage" where
  "rmr_storage_create cfg =
     \<lparr>base_path = take 255 (cfg_base_path cfg),
      segment_minutes = (if cfg_segment_minutes cfg > 0 then cfg_segment_minutes cfg else 5),
      segment_seconds = cfg_segment_seconds cfg, max_storage_mb = cfg_max_storage_mb cfg,
      refuse_logged = False, last_wait_warn_us = 0\<rparr>"

subsection \<open>Names of segments\<close>

record tm =
  tm_year :: nat
  tm_mon :: nat
  tm_mday :: nat
  tm_hour :: nat
  tm_min :: nat
  tm_sec :: nat

text \<open>The conversion \<^verbatim>\<open>%0wd\<close>.\<close>

definition zero_padded :: "nat \<Rightarrow> nat \<Rightarrow> string" where
  "zero_padded w n = (let s = decimal n in replicate (w - length s) CHR ''0'' @ s)"

definition day_name :: "tm \<Rightarrow> string" where
  "day_name t = zero_padded 4 (tm_year t + 1900) @ ''-'' @ zero_padded 2 (tm_mon t + 1) @ ''-'' @ zero_padded 2 (tm_mday t)"

definition segment_name :: "tm \<Rightarrow> string" where
  "segment_name t = zero_padded 2 (tm_hour t) @ ''-'' @ zero_padded 2 (tm_min t) @ ''-'' @ zero_padded 2 (tm_sec t) @ ''.mp4''"

text \<open>
  The day directory is made, then the segment is created in it: the path and what \<^verbatim>\<open>open\<close>
  returns. The directory buffer has 320 bytes, the path buffer \<^verbatim>\<open>path_out_size\<close>.
\<close>

definition rmr_storage_open_segment ::
  "(string \<Rightarrow> 'w \<Rightarrow> 'w) \<Rightarrow> (string \<Rightarrow> 'w \<Rightarrow> int \<times> 'w) \<Rightarrow> nat \<Rightarrow> tm \<Rightarrow> rmr_storage \<Rightarrow> 'w \<Rightarrow> int \<times> string \<times> 'w" where
  "rmr_storage_open_segment rss_mkdir_p open_trunc path_out_size t st w =
     (let dir = take 319 (base_path st @ ''/'' @ day_name t);
          w1 = rss_mkdir_p dir w;
          path = take (path_out_size - 1) (dir @ ''/'' @ segment_name t);
          (fd, w2) = open_trunc path w1
      in (fd, path, w2))"

subsection \<open>Rotation\<close>

definition rmr_storage_next_boundary :: "int \<Rightarrow> int \<Rightarrow> int" where
  "rmr_storage_next_boundary now_rt_us segment_len_sec =
     (let period = segment_len_sec * 1000000 in (cdiv now_rt_us period + 1) * period)"

definition rmr_storage_segment_len_sec :: "rmr_storage option \<Rightarrow> int" where
  "rmr_storage_segment_len_sec st = (case st of None \<Rightarrow> 300
     | Some st \<Rightarrow> if segment_seconds st > 0 then segment_seconds st else segment_minutes st * 60)"

definition RMR_MIN_SEGMENT_US :: int where
  "RMR_MIN_SEGMENT_US = 5 * 1000000"

definition rmr_storage_should_rotate_at :: "rmr_storage option \<Rightarrow> int \<Rightarrow> int \<Rightarrow> bool" where
  "rmr_storage_should_rotate_at st start_rt_us now_rt_us =
     (if st = None then False
      else if now_rt_us - start_rt_us < RMR_MIN_SEGMENT_US then False
      else rmr_storage_next_boundary start_rt_us (rmr_storage_segment_len_sec st) \<le> now_rt_us)"

subsection \<open>Creation of the storage directory\<close>

fun strrchr :: "char \<Rightarrow> string \<Rightarrow> nat option" where
  "strrchr c [] = None"
| "strrchr c (x # xs) = (case strrchr c xs of Some i \<Rightarrow> Some (Suc i) | None \<Rightarrow> if x = c then Some 0 else None)"

lemma strrchr_bounds: "strrchr c s = Some i \<Longrightarrow> i < length s \<and> s ! i = c"
  by (induction c s arbitrary: i rule: strrchr.induct) (auto split: option.splits if_splits)

text \<open>The walk up to an ancestor: \<^const>\<open>None\<close> is a path without any slash left.\<close>

function find_ancestor :: "(string \<Rightarrow> nat option) \<Rightarrow> string \<Rightarrow> string option" where
  "find_ancestor stat anc =
     (if stat anc \<noteq> None then Some anc
      else case strrchr CHR ''/'' anc of
        None \<Rightarrow> None
      | Some slash \<Rightarrow> if slash = 0 then Some (take 1 anc) else find_ancestor stat (take slash anc))"
  by pat_completeness auto

termination
  by (relation "measure (\<lambda>(_, anc). length anc)") (auto dest: strrchr_bounds)

declare find_ancestor.simps [simp del]

definition storage_try_create ::
  "('w \<Rightarrow> string \<Rightarrow> nat option) \<Rightarrow> (string \<Rightarrow> 'w \<Rightarrow> bool) \<Rightarrow> (string \<Rightarrow> 'w \<Rightarrow> 'w) \<Rightarrow>
     rmr_storage \<Rightarrow> 'w \<Rightarrow> bool \<times> rmr_storage \<times> 'w" where
  "storage_try_create stat access_w rss_mkdir_p st w =
     (case find_ancestor (stat w) (base_path st) of
        None \<Rightarrow> (False, st, w)
      | Some anc \<Rightarrow>
          (case stat w anc of
             None \<Rightarrow> (False, st, w)
           | Some dev \<Rightarrow>
               (case stat w ''/'' of
                  None \<Rightarrow> (False, st, w)
                | Some root \<Rightarrow>
                    if dev = root then (False, st\<lparr>refuse_logged := True\<rparr>, w)
                    else
                      let w1 = rss_mkdir_p (base_path st) w
                      in if access_w (base_path st) w1 then (True, st\<lparr>refuse_logged := False\<rparr>, w1)
                         else (False, st, w1))))"

definition rmr_storage_available ::
  "('w \<Rightarrow> string \<Rightarrow> nat option) \<Rightarrow> (string \<Rightarrow> 'w \<Rightarrow> bool) \<Rightarrow> (string \<Rightarrow> 'w \<Rightarrow> 'w) \<Rightarrow> int \<Rightarrow>
     rmr_storage \<Rightarrow> 'w \<Rightarrow> bool \<times> rmr_storage \<times> 'w" where
  "rmr_storage_available stat access_w rss_mkdir_p now st w =
     (if access_w (base_path st) w then (True, st, w)
      else
        let (ok, st1, w1) = storage_try_create stat access_w rss_mkdir_p st w
        in if ok then (True, st1, w1)
           else (False, if 60000000 \<le> now - last_wait_warn_us st1 then st1\<lparr>last_wait_warn_us := now\<rparr> else st1, w1))"

subsection \<open>Cleanup\<close>

text \<open>
  A file of a day directory has the size \<^verbatim>\<open>stat\<close> reports, if it succeeds. The entries of the
  storage directory are day directories or other things, which \<^verbatim>\<open>opendir\<close> refuses.
\<close>

type_synonym files = "(string \<times> int option) list"

datatype entry = Day files | Other

definition is_mp4 :: "string \<Rightarrow> bool" where
  "is_mp4 name = (\<not> (length name < 4 \<or> drop (length name - 4) name \<noteq> ''.mp4''))"

definition hidden :: "string \<Rightarrow> bool" where
  "hidden name = (take 1 name = ''.'')"

text \<open>
  \<open>room\<close> is what the allocator grants: \<^const>\<open>None\<close> refuses the first array, \<^term>\<open>Some k\<close> gives
  space for \<open>k\<close> names, after which the scan uses what it has.
\<close>

definition scan_dir_sorted :: "nat option \<Rightarrow> string list \<Rightarrow> string list option" where
  "scan_dir_sorted room ents =
     (case room of None \<Rightarrow> None | Some k \<Rightarrow> Some (sort (take k (filter (\<lambda>e. \<not> hidden e) ents))))"

fun dir_mp4_size :: "files \<Rightarrow> int" where
  "dir_mp4_size [] = 0"
| "dir_mp4_size ((name, sz) # ents) =
     (if is_mp4 name then (case sz of Some n \<Rightarrow> n | None \<Rightarrow> 0) else 0) + dir_mp4_size ents"

definition entry_size :: "entry \<Rightarrow> int" where
  "entry_size e = (case e of Day fs \<Rightarrow> dir_mp4_size fs | Other \<Rightarrow> 0)"

definition lookup :: "string \<Rightarrow> (string \<times> 'a) list \<Rightarrow> 'a option" where
  "lookup name ents = map_of ents name"

definition remove_entry :: "string \<Rightarrow> (string \<times> 'a) list \<Rightarrow> (string \<times> 'a) list" where
  "remove_entry name ents = filter (\<lambda>(n, _). n \<noteq> name) ents"

definition set_entry :: "string \<Rightarrow> 'a \<Rightarrow> (string \<times> 'a) list \<Rightarrow> (string \<times> 'a) list" where
  "set_entry name v ents = map (\<lambda>(n, e). (n, if n = name then v else e)) ents"

text \<open>The inner loop: every visible recording of the day is unlinked; one that can be measured counts.\<close>

fun delete_files :: "(string \<Rightarrow> bool) \<Rightarrow> string list \<Rightarrow> files \<Rightarrow> int \<Rightarrow> int \<Rightarrow> files \<times> int \<times> int" where
  "delete_files unlink [] fs tot deleted = (fs, tot, deleted)"
| "delete_files unlink (f # names) fs tot deleted =
     (if \<not> is_mp4 f then delete_files unlink names fs tot deleted
      else
        let (tot1, deleted1) = (case lookup f fs of Some (Some n) \<Rightarrow> (tot - n, deleted + 1) | _ \<Rightarrow> (tot, deleted))
        in delete_files unlink names (if unlink f then remove_entry f fs else fs) tot1 deleted1)"

text \<open>The environment of one day: room for the listing, which files can be unlinked.\<close>

fun delete_days ::
  "(string \<Rightarrow> nat option) \<Rightarrow> (string \<Rightarrow> string \<Rightarrow> bool) \<Rightarrow> int \<Rightarrow> string list \<Rightarrow>
     (string \<times> entry) list \<Rightarrow> int \<Rightarrow> int \<Rightarrow> (string \<times> entry) list \<times> int \<times> int" where
  "delete_days room unlink max_bytes [] fs tot deleted = (fs, tot, deleted)"
| "delete_days room unlink max_bytes (d # days) fs tot deleted =
     (if \<not> max_bytes < tot then (fs, tot, deleted)
      else
        case lookup d fs of
          Some (Day ents) \<Rightarrow>
            (let (ents1, tot1, deleted1) =
               (case scan_dir_sorted (room d) (map fst ents) of
                  None \<Rightarrow> (ents, tot, deleted)
                | Some names \<Rightarrow> delete_files (unlink d) names ents tot deleted)
             in delete_days room unlink max_bytes days
                  (if ents1 = [] then remove_entry d fs else set_entry d (Day ents1) fs) tot1 deleted1)
        | _ \<Rightarrow> delete_days room unlink max_bytes days fs tot deleted)"

definition rmr_storage_enforce_limit ::
  "nat option \<Rightarrow> (string \<Rightarrow> nat option) \<Rightarrow> (string \<Rightarrow> string \<Rightarrow> bool) \<Rightarrow> rmr_storage \<Rightarrow>
     (string \<times> entry) list \<Rightarrow> int \<times> (string \<times> entry) list" where
  "rmr_storage_enforce_limit base_room room unlink st fs =
     (if max_storage_mb st \<le> 0 then (0, fs)
      else
        case scan_dir_sorted base_room (map fst fs) of
          None \<Rightarrow> (0, fs)
        | Some days \<Rightarrow>
            (let tot = sum_list (map (\<lambda>d. case lookup d fs of Some e \<Rightarrow> entry_size e | None \<Rightarrow> 0) days);
                 (fs1, tot1, deleted) = delete_days room unlink (max_storage_mb st * 1024 * 1024) days fs tot 0
             in (deleted, fs1)))"

subsection \<open>Names sort by date\<close>

lemma digit_0: "CHR ''0'' = digit 0"
  by code_simp

lemma zero_padded_2: "n < 100 \<Longrightarrow> zero_padded 2 n = [digit (n div 10), digit (n mod 10)]"
  by (cases "n < 10") (simp_all add: zero_padded_def decimal_small decimal_step digit_0)

lemma zero_padded_4:
  assumes "n < 10000"
  shows "zero_padded 4 n = [digit (n div 1000), digit (n div 100 mod 10), digit (n div 10 mod 10), digit (n mod 10)]"
proof -
  consider "n < 10" | "10 \<le> n" "n < 100" | "100 \<le> n" "n < 1000" | "1000 \<le> n" using assms by linarith
  then show ?thesis using assms
    by cases (simp_all add: zero_padded_def decimal_small decimal_step digit_0 numeral_3_eq_3 div_mult2_eq [symmetric])
qed

lemma digit_less: "a < 10 \<Longrightarrow> b < 10 \<Longrightarrow> digit a < digit b \<longleftrightarrow> a < b"
  by (simp add: digit_def less_char_def)

lemma digit_eq: "a < 10 \<Longrightarrow> b < 10 \<Longrightarrow> digit a = digit b \<longleftrightarrow> a = b"
  by (metis digit_less less_irrefl linorder_neqE_nat)

lemma append_less: "length u = length v \<Longrightarrow> u @ x < v @ y \<longleftrightarrow> u < v \<or> u = v \<and> x < (y :: 'a :: order list)"
  by (induction u v rule: list_induct2) auto

lemma length_zero_padded [simp]:
  "n < 100 \<Longrightarrow> length (zero_padded 2 n) = 2" "n < 10000 \<Longrightarrow> length (zero_padded 4 n) = 4"
  by (simp_all add: zero_padded_2 zero_padded_4)

lemma less_by_digits:
  assumes "0 < k"
  shows "(n :: nat) < m \<longleftrightarrow> n div k < m div k \<or> n div k = m div k \<and> n mod k < m mod k"
proof (cases "n div k = m div k")
  case True
  then show ?thesis
    using div_mult_mod_eq [of n k] div_mult_mod_eq [of m k] by (metis nat_add_left_cancel_less less_irrefl)
next
  case False
  then show ?thesis by (metis div_le_mono le_antisym less_imp_le linorder_not_less)
qed

lemma eq_by_digits: "(n :: nat) = m \<longleftrightarrow> n div k = m div k \<and> n mod k = m mod k"
  by (metis div_mult_mod_eq)

lemma zero_padded_2_less: "n < 100 \<Longrightarrow> m < 100 \<Longrightarrow> zero_padded 2 n < zero_padded 2 m \<longleftrightarrow> n < m"
  unfolding less_by_digits [of 10 n m, simplified]
  by (simp add: zero_padded_2 digit_less digit_eq)

lemma zero_padded_4_less:
  assumes "n < 10000" and "m < 10000"
  shows "zero_padded 4 n < zero_padded 4 m \<longleftrightarrow> n < m"
proof -
  have "n < m \<longleftrightarrow> n div 1000 < m div 1000 \<or> n div 1000 = m div 1000 \<and>
      (n div 100 mod 10 < m div 100 mod 10 \<or> n div 100 mod 10 = m div 100 mod 10 \<and>
      (n div 10 mod 10 < m div 10 mod 10 \<or> n div 10 mod 10 = m div 10 mod 10 \<and> n mod 10 < m mod 10))"
    using less_by_digits [of 10 n m] less_by_digits [of 10 "n div 10" "m div 10"]
      less_by_digits [of 10 "n div 100" "m div 100"] eq_by_digits [of "n div 10" "m div 10" 10]
      eq_by_digits [of "n div 100" "m div 100" 10]
    by (simp add: div_mult2_eq [symmetric]) blast
  then show ?thesis using assms by (simp add: zero_padded_4 digit_less digit_eq)
qed

lemma zero_padded_eq:
  "n < 100 \<Longrightarrow> m < 100 \<Longrightarrow> zero_padded 2 n = zero_padded 2 m \<longleftrightarrow> n = m"
  "n < 10000 \<Longrightarrow> m < 10000 \<Longrightarrow> zero_padded 4 n = zero_padded 4 m \<longleftrightarrow> n = m"
  by (metis zero_padded_2_less less_irrefl linorder_neqE_nat) (metis zero_padded_4_less less_irrefl linorder_neqE_nat)

definition calendar :: "tm \<Rightarrow> bool" where
  "calendar t \<longleftrightarrow> tm_year t + 1900 < 10000 \<and> tm_mon t < 12 \<and> tm_mday t \<le> 31"

lemma day_name_less:
  assumes "calendar a" and "calendar b"
  shows "day_name a < day_name b \<longleftrightarrow>
    tm_year a < tm_year b \<or> tm_year a = tm_year b \<and>
      (tm_mon a < tm_mon b \<or> tm_mon a = tm_mon b \<and> tm_mday a < tm_mday b)"
  using assms
  by (auto simp: day_name_def calendar_def append_less zero_padded_2_less zero_padded_4_less zero_padded_eq)

subsection \<open>The rotation grid\<close>

lemma int_le_div_iff:
  assumes "0 < (p :: int)"
  shows "a * p \<le> n \<longleftrightarrow> a \<le> n div p"
proof
  assume "a * p \<le> n"
  from zdiv_mono1 [OF this assms] show "a \<le> n div p" using assms by simp
next
  assume "a \<le> n div p"
  then have "a * p \<le> n div p * p" using assms by simp
  also have "\<dots> \<le> n" using assms by (simp add: minus_mod_eq_div_mult [symmetric])
  finally show "a * p \<le> n" .
qed

text \<open>
  C31. With the clock past the epoch, a segment is rotated exactly when it has lasted five
  seconds and the clock is in a later period of the grid of segment lengths than the one the
  segment was opened in, however many periods were skipped and whatever the clock did between.
\<close>

theorem rotation_grid:
  assumes "0 \<le> start" and "0 < rmr_storage_segment_len_sec (Some st)"
  defines "period \<equiv> rmr_storage_segment_len_sec (Some st) * 1000000"
  shows "rmr_storage_should_rotate_at (Some st) start now \<longleftrightarrow>
    start + 5000000 \<le> now \<and> start div period < now div period"
proof -
  have P: "0 < period" using assms(2) by (simp add: period_def)
  have "rmr_storage_next_boundary start (rmr_storage_segment_len_sec (Some st)) = (start div period + 1) * period"
    using assms(1) P by (simp add: rmr_storage_next_boundary_def period_def cdiv_nonneg Let_def)
  moreover have "(start div period + 1) * period \<le> now \<longleftrightarrow> start div period + 1 \<le> now div period"
    by (rule int_le_div_iff [OF P])
  ultimately show ?thesis
    by (auto simp: rmr_storage_should_rotate_at_def RMR_MIN_SEGMENT_US_def)
qed

text \<open>Witness of C1: five-minute segments, a segment opened at 00:04:58 is rotated at 00:05:03.\<close>

theorem rotation_grid_witness:
  "rmr_storage_segment_len_sec (Some (rmr_storage_create \<lparr>cfg_base_path = ''/mnt'', cfg_segment_minutes = 0, cfg_segment_seconds = 0, cfg_max_storage_mb = 0\<rparr>)) = 300 \<and>
   \<not> rmr_storage_should_rotate_at (Some (rmr_storage_create \<lparr>cfg_base_path = ''/mnt'', cfg_segment_minutes = 0, cfg_segment_seconds = 0, cfg_max_storage_mb = 0\<rparr>)) 298000000 301000000 \<and>
   rmr_storage_should_rotate_at (Some (rmr_storage_create \<lparr>cfg_base_path = ''/mnt'', cfg_segment_minutes = 0, cfg_segment_seconds = 0, cfg_max_storage_mb = 0\<rparr>)) 298000000 303000000"
proof -
  let ?st = "rmr_storage_create \<lparr>cfg_base_path = ''/mnt'', cfg_segment_minutes = 0, cfg_segment_seconds = 0, cfg_max_storage_mb = 0\<rparr>"
  have "rmr_storage_segment_len_sec (Some ?st) = 300"
    by (simp add: rmr_storage_segment_len_sec_def rmr_storage_create_def)
  then show ?thesis
    using rotation_grid [of 298000000 ?st 301000000] rotation_grid [of 298000000 ?st 303000000] by simp
qed

subsection \<open>Nothing is created on the root filesystem\<close>

definition ancestor :: "string \<Rightarrow> string \<Rightarrow> bool" where
  "ancestor p path \<longleftrightarrow> p = path \<or> prefix (p @ ''/'') path"

lemma strrchr_found: "\<exists>i. strrchr c (p @ c # q) = Some i"
  by (induction p) (auto split: option.splits)

lemma strrchr_last: "strrchr c (p @ c # q) = Some i \<Longrightarrow> length p \<le> i"
proof (induction p arbitrary: i)
  case (Cons x p)
  then show ?case using strrchr_found [of c p q] by (auto split: option.splits)
qed simp

lemma ancestor_take:
  assumes "ancestor p anc" and "p \<noteq> anc" and "strrchr CHR ''/'' anc = Some i"
  shows "ancestor p (take i anc)"
proof -
  obtain q where anc: "anc = p @ CHR ''/'' # q" using assms(1,2) by (auto simp: ancestor_def prefix_def)
  have "length p \<le> i" using assms(3) strrchr_last by (simp add: anc)
  show ?thesis
  proof (cases "i = length p")
    case False
    then obtain k where "i - length p = Suc k" using \<open>length p \<le> i\<close> by (metis Suc_diff_Suc Suc_le_eq order_le_less diff_Suc_Suc)
    then show ?thesis by (auto simp: anc ancestor_def prefix_def)
  qed (simp add: anc ancestor_def)
qed

lemma find_ancestor_deepest:
  assumes "find_ancestor stat path = Some anc"
  shows "prefix anc path" and "ancestor p path \<Longrightarrow> length anc < length p \<Longrightarrow> stat p = None"
  using assms
proof (induction stat path arbitrary: p rule: find_ancestor.induct)
  case (1 stat path)
  { case 1
    show ?case
    proof (cases "stat path = None")
      case True
      then obtain i where i: "strrchr CHR ''/'' path = Some i" "i = 0 \<Longrightarrow> anc = take 1 path"
        "i \<noteq> 0 \<Longrightarrow> find_ancestor stat (take i path) = Some anc"
        using \<open>find_ancestor stat path = Some anc\<close> by (subst (asm) find_ancestor.simps) (auto split: option.splits if_splits)
      then show ?thesis using "1.IH"(1) [of i] True
        by (cases "i = 0") (auto simp: take_is_prefix intro: prefix_order.trans)
    qed (use 1 in \<open>subst (asm) find_ancestor.simps, simp\<close>)
  next
    case 2
    show ?case
    proof (cases "stat path = None")
      case True
      then obtain i where i: "strrchr CHR ''/'' path = Some i" "i = 0 \<Longrightarrow> anc = take 1 path"
        "i \<noteq> 0 \<Longrightarrow> find_ancestor stat (take i path) = Some anc"
        using \<open>find_ancestor stat path = Some anc\<close> by (subst (asm) find_ancestor.simps) (auto split: option.splits if_splits)
      show ?thesis
      proof (cases "p = path")
        case False
        with ancestor_take [OF 2(1) _ i(1)] have a: "ancestor p (take i path)" by simp
        show ?thesis
        proof (cases "i = 0")
          case True
          with a 2(2) show ?thesis by (simp add: ancestor_def)
        next
          case False
          with "1.IH"(2) [of i p] \<open>stat path = None\<close> i a 2(2) show ?thesis by auto
        qed
      qed (use True in simp)
    next
      case False
      then have "anc = path" using 2(3) by (subst (asm) find_ancestor.simps) simp
      then show ?thesis using 2(1,2) by (auto simp: ancestor_def dest: prefix_length_le)
    qed
  }
qed

text \<open>
  C30. The recorder changes the file system, when it looks for its storage, only if the deepest
  ancestor of the storage path that exists is on another device than the root directory; with
  the card out, the mount point is on the root device and nothing is written to flash.
\<close>

theorem storage_spares_rootfs:
  assumes "rmr_storage_available stat access_w mkdir_p now st w = (ok, st', w')" and "w' \<noteq> w"
  shows "\<exists>anc dev root. prefix anc (base_path st) \<and>
    (\<forall>p. ancestor p (base_path st) \<longrightarrow> length anc < length p \<longrightarrow> stat w p = None) \<and>
    stat w anc = Some dev \<and> stat w ''/'' = Some root \<and> dev \<noteq> root \<and> w' = mkdir_p (base_path st) w"
proof -
  have "\<not> access_w (base_path st) w" and "snd (snd (storage_try_create stat access_w mkdir_p st w)) = w'"
    using assms by (auto simp: rmr_storage_available_def Let_def split: if_splits prod.splits)
  with assms(2) obtain anc dev root where *: "find_ancestor (stat w) (base_path st) = Some anc"
    "stat w anc = Some dev" "stat w ''/'' = Some root" "dev \<noteq> root" "w' = mkdir_p (base_path st) w"
    by (auto simp: storage_try_create_def Let_def split: option.splits if_splits)
  show ?thesis
    using find_ancestor_deepest [OF *(1)] *(2-5) by blast
qed

text \<open>Witness of C1: a card mounted at \<^verbatim>\<open>/mnt/sd\<close>; the world is the list of directories made.\<close>

theorem storage_spares_rootfs_witness:
  defines "stat \<equiv> \<lambda>w p. if p \<in> set w then Some (2 :: nat) else if p = ''/'' \<or> p = ''/mnt'' then Some 1 else None"
  shows "rmr_storage_available stat (\<lambda>p w. p \<in> set w) (#) 0
      (rmr_storage_create \<lparr>cfg_base_path = ''/mnt/sd/raptor'', cfg_segment_minutes = 5, cfg_segment_seconds = 0, cfg_max_storage_mb = 0\<rparr>) [''/mnt/sd'']
    = (True, rmr_storage_create \<lparr>cfg_base_path = ''/mnt/sd/raptor'', cfg_segment_minutes = 5, cfg_segment_seconds = 0, cfg_max_storage_mb = 0\<rparr>,
       [''/mnt/sd/raptor'', ''/mnt/sd'']) \<and>
    (\<exists>anc. prefix anc ''/mnt/sd/raptor'' \<and> stat [''/mnt/sd''] anc = Some 2)"
proof -
  let ?st = "rmr_storage_create \<lparr>cfg_base_path = ''/mnt/sd/raptor'', cfg_segment_minutes = 5, cfg_segment_seconds = 0, cfg_max_storage_mb = 0\<rparr>"
  have run: "rmr_storage_available stat (\<lambda>p w. p \<in> set w) (#) 0 ?st [''/mnt/sd''] = (True, ?st, [''/mnt/sd/raptor'', ''/mnt/sd''])"
    unfolding stat_def by code_simp
  from storage_spares_rootfs [OF run] obtain anc dev
    where "prefix anc (base_path ?st)" "stat [''/mnt/sd''] anc = Some dev" "stat [''/mnt/sd''] ''/'' \<noteq> Some dev"
    by auto
  then have "prefix anc ''/mnt/sd/raptor'' \<and> stat [''/mnt/sd''] anc = Some 2"
    by (auto simp: stat_def rmr_storage_create_def split: if_splits)
  with run show ?thesis by blast
qed

subsection \<open>The cleanup keeps the newest days\<close>

text \<open>Removing the recordings of a set of days.\<close>

definition purge_files :: "files \<Rightarrow> files" where
  "purge_files ents = filter (\<lambda>(n, _). \<not> is_mp4 n) ents"

definition purge_entry :: "string set \<Rightarrow> string \<times> entry \<Rightarrow> (string \<times> entry) list" where
  "purge_entry D = (\<lambda>(n, e). case e of
     Day ents \<Rightarrow> if n \<notin> D then [(n, e)] else if purge_files ents = [] then [] else [(n, Day (purge_files ents))]
   | Other \<Rightarrow> [(n, e)])"

definition purged :: "string set \<Rightarrow> (string \<times> entry) list \<Rightarrow> (string \<times> entry) list" where
  "purged D fs = concat (map (purge_entry D) fs)"

definition visible :: "(string \<times> 'a) list \<Rightarrow> string list" where
  "visible fs = filter (\<lambda>e. \<not> hidden e) (map fst fs)"

definition usage :: "(string \<times> entry) list \<Rightarrow> int" where
  "usage fs = sum_list (map (\<lambda>(n, e). if hidden n then 0 else entry_size e) fs)"

definition tidy_entry :: "entry \<Rightarrow> bool" where
  "tidy_entry e = (case e of Other \<Rightarrow> True
     | Day ents \<Rightarrow> distinct (map fst ents) \<and> list_all (\<lambda>(n, _). \<not> (is_mp4 n \<and> hidden n)) ents)"

definition tidy :: "(string \<times> entry) list \<Rightarrow> bool" where
  "tidy fs \<longleftrightarrow> distinct (map fst fs) \<and> list_all (tidy_entry \<circ> snd) fs"

definition file_size :: "files \<Rightarrow> string \<Rightarrow> int" where
  "file_size fs f = (if is_mp4 f then (case lookup f fs of Some (Some n) \<Rightarrow> n | _ \<Rightarrow> 0) else 0)"

definition day_size :: "(string \<times> entry) list \<Rightarrow> string \<Rightarrow> int" where
  "day_size fs d = (case lookup d fs of Some e \<Rightarrow> entry_size e | None \<Rightarrow> 0)"

lemma sum_list_sort: "sum_list (map g (sort xs)) = sum_list (map g xs :: int list)"
  by (metis mset_map mset_sort sum_mset_sum_list)

lemma lookup_remove [simp]: "d \<noteq> f \<Longrightarrow> lookup d (remove_entry f fs) = lookup d fs"
  by (induction fs) (auto simp: lookup_def remove_entry_def)

lemma lookup_set [simp]: "d \<noteq> f \<Longrightarrow> lookup d (set_entry f e fs) = lookup d fs"
  by (induction fs) (auto simp: lookup_def set_entry_def)

lemma delete_files_all:
  assumes "distinct names"
  shows "\<exists>n. delete_files (\<lambda>_. True) names fs tot deleted =
    (filter (\<lambda>(f, _). \<not> (is_mp4 f \<and> f \<in> set names)) fs, tot - sum_list (map (file_size fs) names), n)"
  using assms
proof (induction names arbitrary: fs tot deleted)
  case Nil
  then show ?case by simp
next
  case (Cons f names)
  have same: "sum_list (map (file_size (remove_entry f fs)) names) = sum_list (map (file_size fs) names)"
  proof (intro arg_cong [of _ _ sum_list] map_cong)
    fix x assume "x \<in> set names"
    then have "x \<noteq> f" using Cons.prems by auto
    then show "file_size (remove_entry f fs) x = file_size fs x" by (simp add: file_size_def)
  qed simp
  show ?case
  proof (cases "is_mp4 f")
    case True
    have "filter (\<lambda>(g, _). \<not> (is_mp4 g \<and> g \<in> set names)) (remove_entry f fs) =
        filter (\<lambda>(g, _). \<not> (is_mp4 g \<and> g \<in> set (f # names))) fs"
      using True by (auto simp: remove_entry_def filter_filter intro!: filter_cong)
    moreover have "\<exists>d. (case lookup f fs of Some (Some n) \<Rightarrow> (tot - n, deleted + 1) | _ \<Rightarrow> (tot, deleted)) = (tot - file_size fs f, d)"
      using True by (auto simp: file_size_def split: option.splits)
    ultimately show ?thesis
      using True Cons.IH [of "remove_entry f fs" "tot - file_size fs f"] Cons.prems same
      by (force simp: diff_diff_eq split: prod.splits)
  next
    case False
    then have "filter (\<lambda>(g, _). \<not> (is_mp4 g \<and> g \<in> set (f # names))) fs = filter (\<lambda>(g, _). \<not> (is_mp4 g \<and> g \<in> set names)) fs"
      by (auto intro!: filter_cong)
    with False Cons show ?thesis by (simp add: file_size_def)
  qed
qed

lemma file_sizes: "distinct (map fst ents) \<Longrightarrow> sum_list (map (file_size ents) (map fst ents)) = dir_mp4_size ents"
proof (induction ents)
  case (Cons e ents)
  have "sum_list (map (file_size (e # ents)) (map fst ents)) = sum_list (map (file_size ents) (map fst ents))"
  proof (intro arg_cong [of _ _ sum_list] map_cong)
    fix x assume "x \<in> set (map fst ents)"
    then have "x \<noteq> fst e" using Cons.prems by (auto simp: image_iff)
    then show "file_size (e # ents) x = file_size ents x" by (simp add: file_size_def lookup_def)
  qed simp_all
  moreover have "file_size (e # ents) (fst e) = (if is_mp4 (fst e) then (case snd e of Some n \<Rightarrow> n | None \<Rightarrow> 0) else 0)"
    by (cases e; cases "snd e") (simp_all add: file_size_def lookup_def)
  ultimately show ?case using Cons
    by (cases e) simp
qed simp

lemma purge_day:
  assumes "distinct (map fst ents)" and "list_all (\<lambda>(n, _). \<not> (is_mp4 n \<and> hidden n)) ents"
    and "scan_dir_sorted room (map fst ents) = Some names" and "room = Some k" and "length ents \<le> k"
  shows "\<exists>n. delete_files (\<lambda>_. True) names ents tot deleted = (purge_files ents, tot - dir_mp4_size ents, n)"
proof -
  have names: "names = sort (filter (\<lambda>e. \<not> hidden e) (map fst ents))"
    using assms(3-5) le_trans [OF length_filter_le, of "map fst ents" k] by (simp add: scan_dir_sorted_def)
  have "filter (\<lambda>(f, _). \<not> (is_mp4 f \<and> f \<in> set names)) ents = purge_files ents"
    using assms(2) by (auto simp: names purge_files_def list_all_iff image_iff intro!: filter_cong)
  moreover have "sum_list (map (file_size ents) (filter (\<lambda>e. \<not> hidden e) (map fst ents))) = sum_list (map (file_size ents) (map fst ents))"
    using assms(2) by (intro sum_list_map_filter) (auto simp: file_size_def list_all_iff)
  moreover have "distinct names" using assms(1) by (simp add: names)
  ultimately show ?thesis
    using delete_files_all [of names ents tot deleted] file_sizes [OF assms(1)]
    by (simp add: names sum_list_sort)
qed

definition ample :: "nat \<Rightarrow> (string \<times> entry) list \<Rightarrow> bool" where
  "ample k fs \<longleftrightarrow> length fs \<le> k \<and> list_all (\<lambda>(_, e). case e of Other \<Rightarrow> True | Day ents \<Rightarrow> length ents \<le> k) fs"

lemma purged_Nil [simp]: "purged D [] = []"
  by (simp add: purged_def)

lemma purged_Cons [simp]: "purged D (e # fs) = purge_entry D e @ purged D fs"
  by (simp add: purged_def)

lemma purged_empty [simp]: "purged {} fs = fs"
  by (induction fs) (auto simp: purge_entry_def split: entry.split)

lemma purge_files_idem [simp]: "purge_files (purge_files ents) = purge_files ents"
  by (simp add: purge_files_def)

lemma purged_insert: "purged D (purged {d} fs) = purged (insert d D) fs"
  by (induction fs) (auto simp: purge_entry_def purged_def split: entry.splits)

lemma purge_entry_forms: "purge_entry D (n, e) = [] \<or> (\<exists>e'. purge_entry D (n, e) = [(n, e')] \<and> (tidy_entry e \<longrightarrow> tidy_entry e'))"
  by (cases e) (auto simp: purge_entry_def tidy_entry_def purge_files_def list_all_iff distinct_map_filter)

lemma purged_names: "set (map fst (purged D fs)) \<subseteq> set (map fst fs)"
proof (induction fs)
  case (Cons e fs)
  then show ?case using purge_entry_forms [of D "fst e" "snd e"] by auto
qed simp

lemma purged_tidy: "tidy fs \<Longrightarrow> tidy (purged D fs)"
proof (induction fs)
  case (Cons e fs)
  have "fst e \<notin> set (map fst (purged D fs))" using Cons.prems purged_names [of D fs] by (auto simp: tidy_def)
  moreover have "tidy (purged D fs)" using Cons by (simp add: tidy_def)
  ultimately show ?case using Cons.prems purge_entry_forms [of D "fst e" "snd e"]
    by (auto simp: tidy_def image_iff)
qed (simp add: tidy_def)

lemma purged_ample: "ample k fs \<Longrightarrow> ample k (purged D fs)"
proof -
  have "length (purged D fs) \<le> length fs" for fs
    by (induction fs) (auto simp: purge_entry_def split: entry.splits)
  moreover have "list_all (\<lambda>(_, e). case e of Other \<Rightarrow> True | Day ents \<Rightarrow> length ents \<le> k) fs \<Longrightarrow>
      list_all (\<lambda>(_, e). case e of Other \<Rightarrow> True | Day ents \<Rightarrow> length ents \<le> k) (purged D fs)" for fs
    by (induction fs) (auto simp: purge_entry_def purge_files_def split: entry.splits intro: le_trans [OF length_filter_le])
  ultimately show "ample k fs \<Longrightarrow> ample k (purged D fs)" unfolding ample_def by (meson le_trans)
qed

lemma lookup_purged: "d \<notin> D \<Longrightarrow> lookup d (purged D fs) = lookup d fs"
  by (induction fs) (auto simp: lookup_def purge_entry_def split: entry.splits)

lemma lookup_mem: "lookup d fs = Some e \<Longrightarrow> (d, e) \<in> set fs"
  by (simp add: lookup_def map_of_SomeD)

lemma purge_other:
  assumes "distinct (map fst fs)" and "\<And>ents. lookup d fs \<noteq> Some (Day ents)"
  shows "purged {d} fs = fs"
  using assms
proof (induction fs)
  case (Cons e fs)
  obtain n v where e: "e = (n, v)" by (cases e)
  show ?case
  proof (cases "n = d")
    case True
    then have "d \<notin> fst ` set fs" using Cons.prems(1) e by simp
    then have "purged {d} fs = purged {} fs"
      unfolding purged_def by (intro arg_cong [of _ _ concat] map_cong) (auto simp: purge_entry_def image_iff split: entry.splits)
    with True Cons.prems(2) show ?thesis by (cases v) (auto simp: e lookup_def purge_entry_def)
  next
    case False
    then show ?thesis using Cons by (auto simp: e lookup_def purge_entry_def split: entry.splits)
  qed
qed simp

lemma purge_one:
  assumes "distinct (map fst fs)" and "lookup d fs = Some (Day ents)"
  shows "purged {d} fs = (if purge_files ents = [] then remove_entry d fs else set_entry d (Day (purge_files ents)) fs)"
  using assms
proof (induction fs)
  case (Cons e fs)
  obtain n v where e: "e = (n, v)" by (cases e)
  show ?case
  proof (cases "n = d")
    case True
    then have d: "d \<notin> fst ` set fs" using Cons.prems(1) e by simp
    then have "purged {d} fs = purged {} fs"
      unfolding purged_def by (intro arg_cong [of _ _ concat] map_cong) (auto simp: purge_entry_def image_iff split: entry.splits)
    moreover have "remove_entry d fs = fs" "set_entry d x fs = fs" for x
      using d by (auto simp: remove_entry_def set_entry_def filter_id_conv image_iff intro!: map_idI)
    ultimately show ?thesis using True Cons.prems(2)
      by (auto simp: e lookup_def purge_entry_def remove_entry_def set_entry_def)
  next
    case False
    then show ?thesis using Cons by (auto simp: e lookup_def purge_entry_def remove_entry_def set_entry_def split: entry.splits)
  qed
qed (simp add: lookup_def)

lemma delete_days_prefix:
  assumes "tidy fs" and "ample k fs" and "distinct days"
  shows "\<exists>j n. j \<le> length days \<and>
    delete_days (\<lambda>_. Some k) (\<lambda>_ _. True) mx days fs tot deleted =
      (purged (set (take j days)) fs, tot - sum_list (map (day_size fs) (take j days)), n) \<and>
    (j = length days \<or> tot - sum_list (map (day_size fs) (take j days)) \<le> mx) \<and>
    (\<forall>i<j. mx < tot - sum_list (map (day_size fs) (take i days)))"
  using assms
proof (induction days arbitrary: fs tot deleted)
  case (Cons d days)
  show ?case
  proof (cases "mx < tot")
    case False
    then show ?thesis by (intro exI [of _ 0] exI [of _ deleted]) simp
  next
    case True
    let ?fs = "purged {d} fs"
    have "\<exists>n. delete_days (\<lambda>_. Some k) (\<lambda>_ _. True) mx (d # days) fs tot deleted =
        delete_days (\<lambda>_. Some k) (\<lambda>_ _. True) mx days ?fs (tot - day_size fs d) n"
    proof (cases "\<exists>ents. lookup d fs = Some (Day ents)")
      case True
      then obtain ents where l: "lookup d fs = Some (Day ents)" by blast
      from lookup_mem [OF l] Cons.prems(1,2) have "tidy_entry (Day ents)" "length ents \<le> k"
        by (auto simp: tidy_def ample_def list_all_iff)
      then have e: "distinct (map fst ents)"
        "list_all (\<lambda>(n, _). \<not> (is_mp4 n \<and> hidden n)) ents" "length ents \<le> k"
        by (simp_all add: tidy_entry_def)
      obtain names where names: "scan_dir_sorted (Some k) (map fst ents) = Some names"
        by (simp add: scan_dir_sorted_def)
      from purge_day [OF e(1,2) names refl e(3)] obtain n
        where "delete_files (\<lambda>_. True) names ents tot deleted = (purge_files ents, tot - dir_mp4_size ents, n)" by blast
      then show ?thesis
        using \<open>mx < tot\<close> purge_one [OF _ l] Cons.prems(1)
        by (auto simp: l names day_size_def entry_size_def tidy_def)
    next
      case no: False
      then have "?fs = fs" using Cons.prems(1) by (intro purge_other) (auto simp: tidy_def)
      moreover have "day_size fs d = 0" using no by (auto simp: day_size_def entry_size_def split: option.splits entry.splits)
      ultimately show ?thesis using True no by (auto split: option.splits entry.splits)
    qed
    then obtain n where step: "delete_days (\<lambda>_. Some k) (\<lambda>_ _. True) mx (d # days) fs tot deleted =
        delete_days (\<lambda>_. Some k) (\<lambda>_ _. True) mx days ?fs (tot - day_size fs d) n" by blast
    have sizes: "map (day_size ?fs) (take i days) = map (day_size fs) (take i days)" for i
    proof (intro map_cong)
      fix x assume "x \<in> set (take i days)"
      then have "x \<notin> {d}" using Cons.prems(3) by (auto dest: in_set_takeD)
      then show "day_size ?fs x = day_size fs x" by (simp add: day_size_def lookup_purged)
    qed simp
    from Cons.IH [OF purged_tidy [OF Cons.prems(1)] purged_ample [OF Cons.prems(2)], of "{d}" "tot - day_size fs d" n] Cons.prems(3)
    obtain j n' where j: "j \<le> length days"
      "delete_days (\<lambda>_. Some k) (\<lambda>_ _. True) mx days ?fs (tot - day_size fs d) n =
        (purged (set (take j days)) ?fs, tot - day_size fs d - sum_list (map (day_size fs) (take j days)), n')"
      "j = length days \<or> tot - day_size fs d - sum_list (map (day_size fs) (take j days)) \<le> mx"
      "\<forall>i<j. mx < tot - day_size fs d - sum_list (map (day_size fs) (take i days))"
      unfolding sizes by auto
    have least: "\<forall>i<Suc j. mx < tot - sum_list (map (day_size fs) (take i (d # days)))"
    proof (intro allI impI)
      fix i assume "i < Suc j"
      then show "mx < tot - sum_list (map (day_size fs) (take i (d # days)))"
        using True j(4) by (cases i) (auto simp: diff_diff_eq)
    qed
    show ?thesis
      using j(1-3) least step by (intro exI [of _ "Suc j"] exI [of _ n']) (simp add: purged_insert diff_diff_eq)
  qed
qed auto

lemma usage_visible:
  assumes "distinct (map fst fs)"
  shows "usage fs = sum_list (map (day_size fs) (visible fs))"
proof -
  have "day_size fs n = entry_size e" if "(n, e) \<in> set fs" for n e
    using that assms by (simp add: day_size_def lookup_def)
  then have "map (\<lambda>(n, e). if hidden n then 0 else entry_size e) fs = map (\<lambda>n. if hidden n then 0 else day_size fs n) (map fst fs)"
    by auto
  moreover have "sum_list (map (\<lambda>n. if hidden n then 0 else f n) xs) = sum_list (map f (filter (\<lambda>n. \<not> hidden n) xs))"
    for f :: "string \<Rightarrow> int" and xs
    by (induction xs) auto
  ultimately show ?thesis unfolding usage_def visible_def by (simp only:)
qed

lemma purge_entry_size: "(\<Sum>(n, e)\<leftarrow>purge_entry D (n, e). if hidden n then 0 else entry_size e) =
    (if hidden n \<or> n \<in> D then 0 else entry_size e)"
proof -
  have "dir_mp4_size (purge_files ents) = 0" for ents
    by (induction ents) (auto simp: purge_files_def)
  then show ?thesis by (auto simp: purge_entry_def entry_size_def split: entry.splits)
qed

lemma usage_purged: "usage (purged D fs) = sum_list (map (\<lambda>(n, e). if hidden n \<or> n \<in> D then 0 else entry_size e) fs)"
proof (induction fs)
  case (Cons e fs)
  then show ?case using purge_entry_size [of D "fst e" "snd e"] by (simp add: usage_def split_beta)
qed (simp add: usage_def)

lemma usage_purged_days:
  assumes "distinct (map fst fs)" and "set days \<subseteq> set (visible fs)" and "distinct days"
  shows "usage (purged (set days) fs) = usage fs - sum_list (map (day_size fs) days)"
  using assms(2,3)
proof (induction days)
  case (Cons d days)
  have d: "d \<in> set (map fst fs)" "\<not> hidden d" using Cons.prems(1) by (auto simp: visible_def)
  have "sum_list (map (\<lambda>(n, e). if hidden n \<or> n \<in> insert d (set days) then 0 else entry_size e) fs) =
    sum_list (map (\<lambda>(n, e). if hidden n \<or> n \<in> set days then 0 else entry_size e) fs) - day_size fs d"
    using assms(1) d Cons.prems(2)
  proof (induction fs)
    case (Cons e fs)
    show ?case
    proof (cases "fst e = d")
      case True
      then have "d \<notin> fst ` set fs" using Cons.prems(1) by auto
      then have "sum_list (map (\<lambda>e. if hidden (fst e) \<or> fst e = d \<or> fst e \<in> set days then 0 else entry_size (snd e)) fs) =
        sum_list (map (\<lambda>e. if hidden (fst e) \<or> fst e \<in> set days then 0 else entry_size (snd e)) fs)"
        by (intro arg_cong [of _ _ sum_list] map_cong) auto
      with True Cons.prems show ?thesis by (auto simp: day_size_def lookup_def split_beta)
    next
      case False
      with Cons show ?thesis by (auto simp: day_size_def lookup_def split_beta)
    qed
  qed simp
  with Cons show ?case by (simp add: usage_purged)
qed simp



end
