(* ===== verification/Rmr_Timelapse.thy ===== *)
theory Rmr_Timelapse
  imports Raptor_Prelude
begin

text \<open>
  The timelapse sampler, \<^verbatim>\<open>rmr/rmr_timelapse.c\<close>: cadence, claiming of keyframes, rotation and
  the decode times of samples. Time, ring sequence numbers and dates are injected, as in the
  code. Microseconds are integers; \<^verbatim>\<open>frame_idx\<close> and the ring sequence are unsigned counters.
\<close>

record rmr_tl =
  interval_us :: int
  playback_fps :: nat
  file_frames :: nat
  want_sample :: bool
  next_due_us :: int
  last_seq :: nat
  file_day :: int
  frames_in_file :: nat
  frame_idx :: nat

definition clamp_interval :: "int \<Rightarrow> int" where
  "clamp_interval interval_sec = (if interval_sec < 2 then 2 else interval_sec)"

definition clamp_fps :: "int \<Rightarrow> int" where
  "clamp_fps fps = (let f = (if fps < 1 then 1 else fps) in if 120 < f then 120 else f)"

text \<open>A negative count is clamped like a small one; zero selects daily rotation.\<close>

definition rmr_tl_init :: "int \<Rightarrow> int \<Rightarrow> int \<Rightarrow> rmr_tl" where
  "rmr_tl_init interval_sec fps frames =
     \<lparr>interval_us = clamp_interval interval_sec * 1000000, playback_fps = nat (clamp_fps fps),
      file_frames = nat (if frames \<noteq> 0 \<and> frames < 60 then 60 else frames), want_sample = False,
      next_due_us = 0, last_seq = 0, file_day = 0, frames_in_file = 0, frame_idx = 0\<rparr>"

definition rmr_tl_set_interval :: "int \<Rightarrow> rmr_tl \<Rightarrow> rmr_tl" where
  "rmr_tl_set_interval interval_sec t = t\<lparr>interval_us := clamp_interval interval_sec * 1000000\<rparr>"

definition rmr_tl_set_playback_fps :: "int \<Rightarrow> rmr_tl \<Rightarrow> bool \<times> rmr_tl" where
  "rmr_tl_set_playback_fps fps t =
     (let f = nat (clamp_fps fps) in if f = playback_fps t then (False, t) else (True, t\<lparr>playback_fps := f\<rparr>))"

definition rmr_tl_tick :: "int \<Rightarrow> rmr_tl \<Rightarrow> rmr_tl" where
  "rmr_tl_tick now_us t =
     (if next_due_us t = 0 then t\<lparr>want_sample := True, next_due_us := now_us + interval_us t\<rparr>
      else if now_us < next_due_us t then t
      else
        let due = next_due_us t + interval_us t
        in t\<lparr>want_sample := True, next_due_us := (if due \<le> now_us then now_us + interval_us t else due)\<rparr>)"

definition rmr_tl_force :: "rmr_tl \<Rightarrow> rmr_tl" where
  "rmr_tl_force t = t\<lparr>want_sample := True\<rparr>"

definition rmr_tl_take :: "nat \<Rightarrow> rmr_tl \<Rightarrow> bool \<times> rmr_tl" where
  "rmr_tl_take seq t =
     (if \<not> want_sample t \<or> seq \<le> last_seq t then (False, t)
      else (True, t\<lparr>last_seq := seq, want_sample := False\<rparr>))"

definition rmr_tl_ring_reset :: "rmr_tl \<Rightarrow> rmr_tl" where
  "rmr_tl_ring_reset t = t\<lparr>last_seq := 0\<rparr>"

definition rmr_tl_needs_rotate :: "int \<Rightarrow> rmr_tl \<Rightarrow> bool" where
  "rmr_tl_needs_rotate sample_day t =
     (if file_day t = 0 then True
      else if file_frames t \<noteq> 0 then file_frames t \<le> frames_in_file t
      else sample_day \<noteq> file_day t)"

definition rmr_tl_file_opened :: "int \<Rightarrow> rmr_tl \<Rightarrow> rmr_tl" where
  "rmr_tl_file_opened sample_day t = t\<lparr>file_day := sample_day, frames_in_file := 0, frame_idx := 0\<rparr>"

text \<open>The product is 64 bits wide.\<close>

definition rmr_tl_sample_dts90 :: "rmr_tl \<Rightarrow> int \<times> rmr_tl" where
  "rmr_tl_sample_dts90 t =
     (sint (word_of_nat ((frame_idx t * 90000) mod 2 ^ 64 div playback_fps t) :: u64),
      t\<lparr>frame_idx := frame_idx t + 1, frames_in_file := frames_in_file t + 1\<rparr>)"

subsection \<open>Cadence\<close>

text \<open>What the frame loop does with the sampler, and the times of the samples it takes.\<close>

datatype tl_event = Frame int bool nat | Force | RingReset

fun tl_step :: "tl_event \<Rightarrow> rmr_tl \<times> int list \<Rightarrow> rmr_tl \<times> int list" where
  "tl_step (Frame now is_key seq) (t, taken) =
     (let t1 = rmr_tl_tick now t in
      if is_key then let (ok, t2) = rmr_tl_take seq t1 in (t2, if ok then taken @ [now] else taken)
      else (t1, taken))"
| "tl_step Force (t, taken) = (rmr_tl_force t, taken)"
| "tl_step RingReset (t, taken) = (rmr_tl_ring_reset t, taken)"

definition tl_run :: "tl_event list \<Rightarrow> rmr_tl \<Rightarrow> rmr_tl \<times> int list" where
  "tl_run es t = fold tl_step es (t, [])"

fun frame_times :: "tl_event list \<Rightarrow> int list" where
  "frame_times [] = []"
| "frame_times (Frame now is_key seq # es) = now # frame_times es"
| "frame_times (_ # es) = frame_times es"

definition forced :: "tl_event list \<Rightarrow> nat" where
  "forced es = length (filter (\<lambda>e. e = Force) es)"

text \<open>
  \<open>k\<close> samples were due so far, the first of them at \<open>t0\<close>; every one but the last advanced the
  schedule by an interval, and the schedule is at most one interval ahead of the clock.
\<close>

definition cadence :: "int \<Rightarrow> int \<Rightarrow> nat \<Rightarrow> nat \<Rightarrow> rmr_tl \<times> int list \<Rightarrow> bool" where
  "cadence t0 now f k s \<longleftrightarrow> (case s of (t, taken) \<Rightarrow>
     next_due_us t \<noteq> 0 \<and> t0 + int k * interval_us t \<le> next_due_us t \<and> next_due_us t \<le> now + interval_us t \<and>
     length taken + (if want_sample t then 1 else 0) \<le> k + f)"

lemma tl_step_interval [simp]: "interval_us (fst (tl_step e s)) = interval_us (fst s)"
  by (cases s; cases e) (auto simp: rmr_tl_tick_def rmr_tl_take_def rmr_tl_force_def rmr_tl_ring_reset_def Let_def)

lemma cadence_step:
  assumes "cadence t0 now f k s" and "0 < interval_us (fst s)" and "0 < now"
    and "case e of Frame n _ _ \<Rightarrow> now \<le> n \<and> now' = n | _ \<Rightarrow> now' = now"
  shows "\<exists>k'. cadence t0 now' (if e = Force then Suc f else f) k' (tl_step e s)"
proof (cases e)
  case (Frame n is_key seq)
  obtain t taken where s: "s = (t, taken)" by (cases s)
  have n: "now \<le> n" "now' = n" using assms(4) by (simp_all add: Frame)
  have c: "next_due_us t \<noteq> 0" "t0 + int k * interval_us t \<le> next_due_us t" "next_due_us t \<le> now + interval_us t"
    "length taken + (if want_sample t then 1 else 0) \<le> k + f" "0 < interval_us t"
    using assms by (simp_all add: cadence_def s)
  show ?thesis
  proof (cases "n < next_due_us t")
    case True
    then have "cadence t0 now' f k (tl_step e s)"
      using c n by (auto simp: cadence_def s Frame rmr_tl_tick_def rmr_tl_take_def)
    then show ?thesis by (auto simp: Frame)
  next
    case False
    let ?d = "if next_due_us t + interval_us t \<le> n then n + interval_us t else next_due_us t + interval_us t"
    have "t0 + int (Suc k) * interval_us t \<le> ?d" "?d \<le> n + interval_us t" "?d \<noteq> 0"
      using c False n assms(3) by (auto simp: distrib_right)
    then have "cadence t0 now' f (Suc k) (tl_step e s)"
      using c False n by (auto simp: cadence_def s Frame rmr_tl_tick_def rmr_tl_take_def Let_def split: if_splits)
    then show ?thesis by (auto simp: Frame)
  qed
next
  case Force
  then show ?thesis using assms
    by (cases s) (auto simp: cadence_def rmr_tl_force_def split: if_splits intro!: exI [of _ k])
next
  case RingReset
  then show ?thesis using assms
    by (cases s) (auto simp: cadence_def rmr_tl_ring_reset_def split: if_splits intro!: exI [of _ k])
qed

lemma cadence_run:
  assumes "cadence t0 now f k s" and "0 < interval_us (fst s)" and "0 < now" and "sorted (now # frame_times es)"
  shows "\<exists>k'. cadence t0 (last (now # frame_times es)) (f + forced es) k' (fold tl_step es s)"
  using assms
proof (induction es arbitrary: now f k s)
  case (Cons e es)
  define now' where "now' = (case e of Frame n _ _ \<Rightarrow> n | _ \<Rightarrow> now)"
  have "case e of Frame n _ _ \<Rightarrow> now \<le> n \<and> now' = n | _ \<Rightarrow> now' = now"
    using Cons.prems(4) by (cases e) (auto simp: now'_def)
  from cadence_step [OF Cons.prems(1-3) this] obtain k'
    where k': "cadence t0 now' (if e = Force then Suc f else f) k' (tl_step e s)" by blast
  have "0 < now'" "sorted (now' # frame_times es)"
    using Cons.prems(3,4) by (cases e; auto simp: now'_def)+
  from Cons.IH [OF k' _ this] Cons.prems(2)
  obtain k'' where "cadence t0 (last (now' # frame_times es)) ((if e = Force then Suc f else f) + forced es) k'' (fold tl_step es (tl_step e s))"
    by auto
  moreover have "last (now' # frame_times es) = last (now # frame_times (e # es))"
    by (cases e) (auto simp: now'_def)
  moreover have "(if e = Force then Suc f else f) + forced es = f + forced (e # es)"
    by (auto simp: forced_def)
  ultimately show ?case by auto
qed (auto simp: forced_def)



end
