(* ===== verification/Rmr_Main.thy ===== *)
theory Rmr_Main
  imports Rmr_Mux Rmr_Nal Rmr_Sign Rmr_Prebuf Rmr_Storage Rmr_Timelapse
begin

text \<open>
  The recorder itself, \<^verbatim>\<open>rmr/rmr_main.c\<close>: the three write callbacks, the management of
  continuous segments, motion clips and timelapse files, the steering of audio decode times, the
  replay of the pre-buffer, the control commands and one iteration of the main loop.

  The file system is a world: the contents of each open file and the results that the next
  system calls will give. A list of results that has run out means success from then on. The
  rings, the clocks and the shared library are inputs of an iteration; each clock is read once
  per iteration.
\<close>

subsection \<open>The world\<close>

datatype write_result = Wrote nat | Interrupted | Failed bool

text \<open>\<^term>\<open>Failed True\<close> is a full card. \<open>opens\<close> are the results of opening segments, \<open>muxes\<close> those of allocating a muxer.\<close>

record rmr_world =
  disk :: "int \<Rightarrow> byte list"
  writes :: "write_result list"
  opens :: "int list"
  open_fds :: "int list"
  closed :: "byte list list"
  muxes :: "bool list"
  idr_requests :: nat
  cleanups :: nat

datatype write_end = Written | Write_Error bool

fun write_loop :: "int \<Rightarrow> byte list \<Rightarrow> write_result list \<Rightarrow> (int \<Rightarrow> byte list) \<Rightarrow> nat \<Rightarrow>
    write_end \<times> nat \<times> write_result list \<times> (int \<Rightarrow> byte list)" where
  "write_loop fd p [] d n = (Written, n + length p, [], d(fd := d fd @ p))"
| "write_loop fd p (r # rs) d n =
     (if p = [] then (Written, n, r # rs, d)
      else case r of
        Wrote k \<Rightarrow> write_loop fd (drop k p) rs (d(fd := d fd @ take k p)) (n + min k (length p))
      | Interrupted \<Rightarrow> write_loop fd p rs d n
      | Failed full \<Rightarrow> (Write_Error full, n, rs, d))"

definition write_world :: "int \<Rightarrow> byte list \<Rightarrow> rmr_world \<Rightarrow> write_end \<times> nat \<times> rmr_world" where
  "write_world fd p w =
     (let (e, n, rs, d) = write_loop fd p (writes w) (disk w) 0 in (e, n, w\<lparr>writes := rs, disk := d\<rparr>))"

text \<open>
  Opening a segment truncates the file. The system never returns a descriptor that is in use:
  an expected one that is gives way to a new one. Closing a file keeps what it holds in the list of
  closed files.
\<close>

definition fresh_fd :: "int \<Rightarrow> int list \<Rightarrow> int" where
  "fresh_fd fd used = (if fd \<in> set used then foldr max used 0 + 1 else fd)"

definition open_segment :: "rmr_world \<Rightarrow> int \<times> rmr_world" where
  "open_segment w = (case opens w of
     [] \<Rightarrow> (-1, w)
   | e # es \<Rightarrow>
       if e < 0 then (-1, w\<lparr>opens := es\<rparr>)
       else let fd = fresh_fd e (open_fds w) in (fd, w\<lparr>opens := es, open_fds := fd # open_fds w, disk := (disk w)(fd := [])\<rparr>))"

definition close_fd :: "int \<Rightarrow> rmr_world \<Rightarrow> rmr_world" where
  "close_fd fd w = (if 0 \<le> fd then w\<lparr>open_fds := removeAll fd (open_fds w), closed := closed w @ [disk w fd]\<rparr> else w)"

definition alloc_mux :: "rmr_world \<Rightarrow> rmr_mux option \<times> rmr_world" where
  "alloc_mux w = (case muxes w of
     [] \<Rightarrow> (rmr_mux_create (\<lambda>_. True) True, w)
   | ok # oks \<Rightarrow> (rmr_mux_create (\<lambda>_. True) ok, w\<lparr>muxes := oks\<rparr>))"

definition request_idr :: "rmr_world \<Rightarrow> rmr_world" where
  "request_idr w = w\<lparr>idr_requests := idr_requests w + 1\<rparr>"

subsection \<open>State\<close>

record rmr_state =
  audio_enabled :: bool
  mode :: nat
  sei_timecode :: bool
  sign_enabled :: bool
  sign_key :: rmr_sign_key
  sign_seg :: rmr_sign_stream
  sign_clip :: rmr_sign_stream
  sign_tl :: rmr_sign_stream
  video_ring :: bool
  audio_ring :: bool
  video_read_seq :: nat
  video_codec :: int
  width :: u32
  height :: u32
  audio_codec :: u32
  audio_sample_rate :: u32
  audio_aot :: byte
  params :: rmr_codec_params
  mux :: "rmr_mux option"
  storage :: "rmr_storage option"
  segment_fd :: int
  segment_start_us :: int
  segment_start_rt_us :: int
  segment_boundary_rt_us :: int
  segment_idr_requested :: bool
  video_pb :: "rmr_prebuf option"
  audio_pb :: "rmr_prebuf option"
  prebuffer_sec :: int
  clip_length_sec :: int
  clip_storage :: bool
  clip_mux :: "rmr_mux option"
  clip_fd :: int
  clip_v_ts_base :: int
  clip_a_dts :: int
  clip_a_ts_base :: int
  clip_start_us :: int
  clip_bytes :: nat
  tl_enabled :: bool
  tl :: rmr_tl
  tl_storage :: bool
  tl_mux :: "rmr_mux option"
  tl_fd :: int
  tl_bytes :: nat
  tl_frames_total :: nat
  tl_last_err_us :: int
  frame_buf_size :: nat
  avcc_buf_size :: nat
  rec_on :: bool
  clip_recording :: bool
  frames_written :: nat
  frames_dropped :: nat
  st_bytes_written :: nat
  frames_since_flush :: nat
  world :: rmr_world

definition RMR_MODE_MOTION :: nat where "RMR_MODE_MOTION = 1"
definition RMR_MODE_BOTH :: nat where "RMR_MODE_BOTH = 2"

subsection \<open>Write callbacks\<close>

definition direct_write :: "rmr_state write_fn" where
  "direct_write buf st =
     (if buf = [] then (0, st)
      else if segment_fd st < 0 then (-1, st)
      else
        let (e, n, w) = write_world (segment_fd st) buf (world st);
            st1 = st\<lparr>world := w, st_bytes_written := st_bytes_written st + n\<rparr>
        in case e of
             Write_Error full \<Rightarrow> (-1, if full then st1\<lparr>rec_on := False\<rparr> else st1)
           | Written \<Rightarrow> (0, if sign_enabled st then st1\<lparr>sign_seg := rmr_sign_stream_update buf (sign_seg st1)\<rparr> else st1))"

definition clip_write :: "rmr_state write_fn" where
  "clip_write buf st =
     (if buf = [] then (0, st)
      else if clip_fd st < 0 then (-1, st)
      else
        let (e, n, w) = write_world (clip_fd st) buf (world st);
            st1 = st\<lparr>world := w, clip_bytes := clip_bytes st + n\<rparr>
        in case e of
             Write_Error full \<Rightarrow> (-1, st1)
           | Written \<Rightarrow> (0, if sign_enabled st then st1\<lparr>sign_clip := rmr_sign_stream_update buf (sign_clip st1)\<rparr> else st1))"

definition tl_write :: "rmr_state write_fn" where
  "tl_write buf st =
     (if buf = [] then (0, st)
      else if tl_fd st < 0 then (-1, st)
      else
        let (e, n, w) = write_world (tl_fd st) buf (world st);
            st1 = st\<lparr>world := w, tl_bytes := tl_bytes st + n\<rparr>
        in case e of
             Write_Error full \<Rightarrow> (-1, st1)
           | Written \<Rightarrow> (0, if sign_enabled st then st1\<lparr>sign_tl := rmr_sign_stream_update buf (sign_tl st1)\<rparr> else st1))"

text \<open>
  The primitives outside the repository, carried by one record: SHA-512, Ed25519, the AAC
  configuration and the timecode SEI, which is built within a capacity for a codec, a time and
  a clock status.
\<close>

record prims =
  sha512 :: "byte list \<Rightarrow> byte list"
  ed25519 :: "byte list \<Rightarrow> byte list \<Rightarrow> byte list"
  aac_asc :: asc_fn
  sei_max :: nat
  sei_build :: "nat \<Rightarrow> int \<Rightarrow> int \<Rightarrow> byte \<Rightarrow> byte list option"

definition emit_seg :: "prims \<Rightarrow> bool \<Rightarrow> rmr_state \<Rightarrow> rmr_state" where
  "emit_seg P final st = (if sign_enabled st
     then snd (rmr_sign_stream_emit (sha512 P) (ed25519 P) sign_seg sign_seg_update final direct_write st) else st)"

definition emit_clip :: "prims \<Rightarrow> bool \<Rightarrow> rmr_state \<Rightarrow> rmr_state" where
  "emit_clip P final st = (if sign_enabled st
     then snd (rmr_sign_stream_emit (sha512 P) (ed25519 P) sign_clip sign_clip_update final clip_write st) else st)"

definition emit_tl :: "prims \<Rightarrow> bool \<Rightarrow> rmr_state \<Rightarrow> rmr_state" where
  "emit_tl P final st = (if sign_enabled st
     then snd (rmr_sign_stream_emit (sha512 P) (ed25519 P) sign_tl sign_tl_update final tl_write st) else st)"

subsection \<open>Segments\<close>

definition setup_mux_video_track_dur :: "rmr_state \<Rightarrow> u32 \<Rightarrow> rmr_mux \<Rightarrow> rmr_mux" where
  "setup_mux_video_track_dur st default_duration m =
     (let vp = \<lparr>vp_codec = (if video_codec st = 2 then RMR_CODEC_MJPEG else if video_codec st = 1 then RMR_CODEC_H265 else 0),
                vp_width = ucast (width st), vp_height = ucast (height st), vp_timescale = 90000,
                vp_default_duration = default_duration\<rparr>
      in if video_codec st = 2 then snd (rmr_mux_set_video vp [] [] [] m)
         else snd (rmr_mux_set_video vp (p_sps (params st)) (p_pps (params st)) (p_vps (params st)) m))"

definition audio_params_of :: "rmr_state \<Rightarrow> rmr_audio_params" where
  "audio_params_of st =
     (let c = audio_codec st;
          (codec, bits) =
            (if c = ucast RMR_AUDIO_PCMU then (RMR_AUDIO_PCMU, 8)
             else if c = ucast RMR_AUDIO_PCMA then (RMR_AUDIO_PCMA, 8)
             else if c = ucast RMR_AUDIO_AAC then (RMR_AUDIO_AAC, 16)
             else if c = ucast RMR_AUDIO_OPUS then (RMR_AUDIO_OPUS, 16)
             else (11, 16))
      in \<lparr>ap_codec = codec, ap_sample_rate = audio_sample_rate st, ap_channels = 1, ap_bits_per_sample = bits, ap_aot = audio_aot st\<rparr>)"

definition setup_mux_tracks :: "rmr_state \<Rightarrow> rmr_mux \<Rightarrow> rmr_mux" where
  "setup_mux_tracks st m =
     (let m1 = setup_mux_video_track_dur st 0 m
      in if audio_ring st then snd (rmr_mux_set_audio (audio_params_of st) m1) else m1)"

text \<open>The clocks and the calendar of one iteration.\<close>

record clock =
  now_us :: int
  now_rt :: int
  local_tm :: tm

definition start_segment :: "prims \<Rightarrow> clock \<Rightarrow> rmr_state \<Rightarrow> int \<times> rmr_state" where
  "start_segment P t st =
     (let (fd, w) = open_segment (world st) in
      if fd < 0 then (-1, st\<lparr>world := w\<rparr>)
      else
        case alloc_mux w of
          (None, w1) \<Rightarrow> (-1, st\<lparr>mux := None, world := close_fd fd w1\<rparr>)
        | (Some m, w1) \<Rightarrow>
            (let st1 = st\<lparr>world := w1, segment_fd := fd\<rparr>;
                 m1 = setup_mux_tracks st1 m;
                 st2 = (if sign_enabled st1 then st1\<lparr>sign_seg := rmr_sign_stream_begin (sign_key st1)\<rparr> else st1);
                 (_, m2, st3) = rmr_mux_start (aac_asc P) direct_write (m1, st2);
                 st4 = emit_seg P False (st3\<lparr>mux := Some m2\<rparr>)
             in (0, st4\<lparr>segment_start_us := now_us t, segment_start_rt_us := now_rt t,
                   segment_boundary_rt_us := rmr_storage_next_boundary (now_rt t) (rmr_storage_segment_len_sec (storage st4)),
                   segment_idr_requested := False\<rparr>)))"

definition close_segment :: "prims \<Rightarrow> rmr_state \<Rightarrow> rmr_state" where
  "close_segment P st =
     (let st1 = (case mux st of
                   None \<Rightarrow> st
                 | Some m \<Rightarrow> (let (_, _, st1) = rmr_mux_finalize direct_write (m, st) in (emit_seg P True st1)\<lparr>mux := None\<rparr>))
      in st1\<lparr>segment_fd := -1, world := close_fd (segment_fd st1) (world st1)\<rparr>)"

subsection \<open>Motion clips\<close>

definition open_clip :: "prims \<Rightarrow> clock \<Rightarrow> rmr_state \<Rightarrow> int \<times> rmr_state" where
  "open_clip P t st =
     (if \<not> clip_storage st then (-1, st)
      else
        let (fd, w) = open_segment (world st) in
        if fd < 0 then (-1, st\<lparr>world := w\<rparr>)
        else
          case alloc_mux w of
            (None, w1) \<Rightarrow> (-1, st\<lparr>clip_mux := None, world := close_fd fd w1\<rparr>)
          | (Some m, w1) \<Rightarrow>
              (let st1 = st\<lparr>world := w1, clip_fd := fd, clip_v_ts_base := -1, clip_a_dts := 0, clip_a_ts_base := -1,
                     clip_start_us := now_us t, clip_bytes := 0\<rparr>;
                   m1 = setup_mux_tracks st1 m;
                   st2 = (if sign_enabled st1 then st1\<lparr>sign_clip := rmr_sign_stream_begin (sign_key st1)\<rparr> else st1);
                   (_, m2, st3) = rmr_mux_start (aac_asc P) clip_write (m1, st2)
               in (0, emit_clip P False (st3\<lparr>clip_mux := Some m2\<rparr>))))"

definition close_clip :: "prims \<Rightarrow> rmr_state \<Rightarrow> rmr_state" where
  "close_clip P st =
     (let st1 = (case clip_mux st of
                   None \<Rightarrow> st
                 | Some m \<Rightarrow> (let (_, _, st1) = rmr_mux_finalize clip_write (m, st) in (emit_clip P True st1)\<lparr>clip_mux := None\<rparr>))
      in if 0 \<le> clip_fd st1 then st1\<lparr>clip_fd := -1, world := close_fd (clip_fd st1) (world st1)\<rparr> else st1)"

subsection \<open>Timelapse files\<close>

definition rmr_local_day :: "tm \<Rightarrow> int" where
  "rmr_local_day t = int ((tm_year t + 1900) * 10000 + (tm_mon t + 1) * 100 + tm_mday t)"

definition close_timelapse :: "prims \<Rightarrow> rmr_state \<Rightarrow> rmr_state" where
  "close_timelapse P st =
     (let st1 = (case tl_mux st of
                   None \<Rightarrow> st
                 | Some m \<Rightarrow> (let (_, _, st1) = rmr_mux_finalize tl_write (m, st) in (emit_tl P True st1)\<lparr>tl_mux := None\<rparr>));
          st2 = (if 0 \<le> tl_fd st1 then st1\<lparr>tl_fd := -1, world := close_fd (tl_fd st1) (world st1)\<rparr> else st1)
      in st2\<lparr>tl := (tl st2)\<lparr>file_day := 0\<rparr>\<rparr>)"

definition open_timelapse :: "prims \<Rightarrow> clock \<Rightarrow> int \<Rightarrow> rmr_state \<Rightarrow> int \<times> rmr_state" where
  "open_timelapse P t day st =
     (if \<not> tl_storage st then (-1, st)
      else
        let (fd, w) = open_segment (world st) in
        if fd < 0 then (-1, st\<lparr>world := w, tl_last_err_us := (if 60000000 \<le> now_us t - tl_last_err_us st then now_us t else tl_last_err_us st)\<rparr>)
        else
          case alloc_mux w of
            (None, w1) \<Rightarrow> (-1, st\<lparr>tl_mux := None, world := close_fd fd w1\<rparr>)
          | (Some m, w1) \<Rightarrow>
              (let st1 = st\<lparr>world := w1, tl_fd := fd, tl_bytes := 0\<rparr>;
                   m1 = setup_mux_video_track_dur st1 (word_of_nat (90000 div playback_fps (tl st1))) m;
                   st2 = (if sign_enabled st1 then st1\<lparr>sign_tl := rmr_sign_stream_begin (sign_key st1)\<rparr> else st1);
                   (_, m2, st3) = rmr_mux_start (aac_asc P) tl_write (m1, st2);
                   st4 = emit_tl P False (st3\<lparr>tl_mux := Some m2\<rparr>)
               in (0, st4\<lparr>tl := rmr_tl_file_opened day (tl st4)\<rparr>)))"

definition timelapse_write_sample :: "prims \<Rightarrow> clock \<Rightarrow> byte list \<Rightarrow> rmr_state \<Rightarrow> rmr_state" where
  "timelapse_write_sample P t bs st =
     (let day = rmr_local_day (local_tm t);
          (failed, st1) =
            (if rmr_tl_needs_rotate day (tl st) then
               let (r, st') = open_timelapse P t day (close_timelapse P st) in (r < 0, st')
             else (False, st))
      in if failed then st1
         else
           case tl_mux st1 of
             None \<Rightarrow> st1
           | Some m \<Rightarrow>
               (let (_, m1, st2) = rmr_mux_flush_fragment tl_write (m, st1);
                    st3 = emit_tl P False st2;
                    (dts, tl') = rmr_tl_sample_dts90 (tl st3);
                    (r, m2) = rmr_mux_write_video \<lparr>vs_data = bs, vs_dts = dts, vs_pts = dts, vs_key = True\<rparr> m1
                in st3\<lparr>tl := tl', tl_mux := Some m2, tl_frames_total := tl_frames_total st3 + (if r = 0 then 1 else 0)\<rparr>))"

subsection \<open>Samples of a clip\<close>

definition clip_write_video :: "prims \<Rightarrow> byte list \<Rightarrow> int \<Rightarrow> bool \<Rightarrow> rmr_state \<Rightarrow> rmr_state" where
  "clip_write_video P avcc_bytes ts key st =
     (case clip_mux st of
        None \<Rightarrow> st
      | Some m \<Rightarrow>
          (let st1 = (if clip_v_ts_base st < 0 then st\<lparr>clip_v_ts_base := ts\<rparr> else st);
               v_dts = cdiv ((ts - clip_v_ts_base st1) * 90) 1000;
               (m1, st2) = (if key then let (_, m1, st2) = rmr_mux_flush_fragment clip_write (m, st1) in (m1, emit_clip P False st2)
                            else (m, st1));
               (_, m2) = rmr_mux_write_video \<lparr>vs_data = avcc_bytes, vs_dts = v_dts, vs_pts = v_dts, vs_key = key\<rparr> m1
           in st2\<lparr>clip_mux := Some m2\<rparr>))"

text \<open>The new decode time and the new base of the mapping.\<close>

definition steer_audio_dts :: "int \<Rightarrow> int \<Rightarrow> int \<Rightarrow> int \<Rightarrow> int \<Rightarrow> int \<times> int" where
  "steer_audio_dts dts ring_ts ts_base samples sample_rate =
     (if sample_rate = 0 then (dts, ts_base)
      else
        let base = (if ts_base < 0 then ring_ts - cdiv (dts * 1000000) sample_rate else ts_base);
            target = cdiv ((ring_ts - base) * sample_rate) 1000000;
            err = target - dts;
            nudge = sample_rate div 1000
        in if samples * 4 < err then (target, base)
           else if err < - samples * 4 then (dts, ring_ts - cdiv (dts * 1000000) sample_rate)
           else if nudge < err then (dts + nudge, base)
           else if err < - nudge then (dts - nudge, base)
           else (dts, base))"

definition clip_write_audio :: "byte list \<Rightarrow> int \<Rightarrow> int \<Rightarrow> rmr_state \<Rightarrow> rmr_state" where
  "clip_write_audio bs samples ring_ts st =
     (case clip_mux st of
        None \<Rightarrow> st
      | Some m \<Rightarrow>
          (let (dts, base) = steer_audio_dts (clip_a_dts st) ring_ts (clip_a_ts_base st) samples (uint (audio_sample_rate st));
               (_, m1) = rmr_mux_write_audio \<lparr>as_data = bs, as_dts = dts\<rparr> m
           in st\<lparr>clip_mux := Some m1, clip_a_dts := dts + samples, clip_a_ts_base := base\<rparr>))"

subsection \<open>Replay of the pre-buffer\<close>

record replay_ctx =
  rc_st :: rmr_state
  rc_samples_per_frame :: int
  rc_bps :: int
  rc_max_frames :: int
  rc_count :: int

definition replay_video_frame :: "prims \<Rightarrow> rmr_prebuf_slot \<Rightarrow> byte list \<Rightarrow> replay_ctx \<Rightarrow> bool \<times> replay_ctx" where
  "replay_video_frame P slot bs rc =
     (False, rc\<lparr>rc_st := clip_write_video P (take (unat (data_length slot)) bs) (timestamp slot) (is_key slot) (rc_st rc),
                rc_count := rc_count rc + 1\<rparr>)"

definition replay_audio_frame :: "rmr_prebuf_slot \<Rightarrow> byte list \<Rightarrow> replay_ctx \<Rightarrow> bool \<times> replay_ctx" where
  "replay_audio_frame slot bs rc =
     (if 0 \<le> rc_max_frames rc \<and> rc_max_frames rc \<le> rc_count rc then (True, rc)
      else
        let samples = (if rc_samples_per_frame rc \<noteq> 0 then rc_samples_per_frame rc else uint (data_length slot) div rc_bps rc)
        in (False, rc\<lparr>rc_st := clip_write_audio (take (unat (data_length slot)) bs) samples (timestamp slot) (rc_st rc),
                      rc_count := rc_count rc + 1\<rparr>))"

text \<open>How many audio frames match a video duration: at least one, at most what is buffered.\<close>

definition audio_replay_count :: "int \<Rightarrow> int \<Rightarrow> u32 \<Rightarrow> rmr_prebuf \<Rightarrow> int" where
  "audio_replay_count v_duration_us samples_per_frame rate pb =
     (let frame_us = (if 0 < samples_per_frame \<and> 0 < rate then samples_per_frame * 1000000 div uint rate else 20000);
          n = (if v_duration_us div frame_us < 1 then 1 else v_duration_us div frame_us)
      in if uint (pb_count pb) < n then uint (pb_count pb) else n)"

definition open_clip_with_prebuffer :: "prims \<Rightarrow> clock \<Rightarrow> int \<Rightarrow> int \<Rightarrow> rmr_state \<Rightarrow> int \<times> rmr_state" where
  "open_clip_with_prebuffer P t samples_per_frame bps st =
     (let (r, st1) = open_clip P t st in
      if r < 0 then (-1, st1)
      else
        case video_pb st1 of
          None \<Rightarrow> (0, st1)
        | Some vpb \<Rightarrow>
            (let vstart = rmr_prebuf_find_keyframe vpb ((prebuffer_sec st1 + 1) * 1000000) in
             if vstart = UINT32_MAX then (0, st1)
             else
               let v_duration_us = rmr_prebuf_timestamp vpb (rmr_prebuf_newest vpb) - rmr_prebuf_timestamp vpb vstart;
                   rc = \<lparr>rc_st = st1, rc_samples_per_frame = samples_per_frame, rc_bps = bps, rc_max_frames = -1, rc_count = 0\<rparr>;
                   (_, rc1) = rmr_prebuf_iterate (replay_video_frame P) vpb vstart rc;
                   st2 = rc_st rc1
               in case audio_pb st2 of
                    None \<Rightarrow> (0, st2)
                  | Some apb \<Rightarrow>
                      if pb_count apb = 0 \<or> v_duration_us \<le> 0 then (0, st2)
                      else
                        let n = audio_replay_count v_duration_us samples_per_frame (audio_sample_rate st2) apb;
                            astart = write_idx apb - word_of_int n;
                            (_, rc2) = rmr_prebuf_iterate replay_audio_frame apb astart (rc1\<lparr>rc_max_frames := n, rc_count := 0\<rparr>)
                        in (0, rc_st rc2)))"

subsection \<open>Control commands\<close>

datatype json = JBool bool | JNum int | JStr string

datatype ctrl_resp = Resp_Ok | Resp_Error string | Resp_Json "(string \<times> json) list" | Resp_Common

text \<open>
  A request as the shared library parses it: whether a common command took it, and its fields.
  Values a command stores in the configuration are the library's.
\<close>

record ctrl_req =
  rq_common :: bool
  rq_cmd :: "string option"
  rq_key :: "string option"
  rq_value :: "int option"

definition hex_byte :: "byte \<Rightarrow> string" where
  "hex_byte b = (let d = (\<lambda>n. char_of (if n < 10 then 48 + n else 87 + n :: nat)) in [d (unat b div 16), d (unat b mod 16)])"

definition timelapse_set :: "prims \<Rightarrow> string \<Rightarrow> int \<Rightarrow> rmr_state \<Rightarrow> ctrl_resp \<times> rmr_state" where
  "timelapse_set P key val st =
     (if key = ''interval'' then (Resp_Ok, st\<lparr>tl := rmr_tl_set_interval val (tl st)\<rparr>)
      else if key = ''playback_fps'' then
        let (changed, tl') = rmr_tl_set_playback_fps val (tl st); st1 = st\<lparr>tl := tl'\<rparr>
        in (Resp_Ok, if changed \<and> tl_mux st1 \<noteq> None then close_timelapse P st1 else st1)
      else (Resp_Error ''unknown key'', st))"

definition rmr_ctrl_handler :: "prims \<Rightarrow> ctrl_req \<Rightarrow> rmr_state \<Rightarrow> ctrl_resp \<times> rmr_state" where
  "rmr_ctrl_handler P rq st =
     (if rq_common rq then (Resp_Common, st)
      else case rq_cmd rq of
        None \<Rightarrow> (Resp_Error ''missing cmd'', st)
      | Some cmd \<Rightarrow>
          if cmd = ''enable'' then
            (Resp_Ok, st\<lparr>rec_on := True, clip_recording := (if mode st = RMR_MODE_BOTH then True else clip_recording st)\<rparr>)
          else if cmd = ''disable'' then (Resp_Ok, st\<lparr>rec_on := False, clip_recording := False\<rparr>)
          else if cmd = ''start'' then
            (Resp_Ok, st\<lparr>rec_on := (if mode st = RMR_MODE_MOTION then True else rec_on st),
                         clip_recording := (if mode st = RMR_MODE_BOTH then True else clip_recording st)\<rparr>)
          else if cmd = ''stop'' then
            (Resp_Ok, st\<lparr>rec_on := (if mode st = RMR_MODE_MOTION then False else rec_on st),
                         clip_recording := (if mode st = RMR_MODE_BOTH then False else clip_recording st)\<rparr>)
          else if cmd = ''status'' then
            (Resp_Json [(''recording'', JBool (rec_on st)), (''clip'', JBool (clip_recording st)),
               (''mode'', JStr ([''continuous'', ''motion'', ''both''] ! mode st)), (''frames'', JNum (int (frames_written st))),
               (''dropped'', JNum (int (frames_dropped st))), (''bytes'', JNum (int (st_bytes_written st))),
               (''sign'', JBool (sign_enabled st)), (''sei_timecode'', JBool (sei_timecode st)), (''timelapse'', JBool (tl_enabled st))], st)
          else if cmd = ''sign-status'' then
            (Resp_Json ([(''enabled'', JBool (sign_enabled st))] @
               (if sign_enabled st then [(''fingerprint'', JStr (concat (map hex_byte (take 8 (fingerprint (sign_key st))))))] else [])), st)
          else if cmd = ''export-pubkey'' then
            (if \<not> sign_enabled st then (Resp_Error ''signing disabled'', st)
             else (Resp_Json [(''pubkey'', JStr (concat (map hex_byte (take 32 (public (sign_key st))))))], st))
          else if cmd = ''timelapse-enable'' then (Resp_Ok, st\<lparr>tl_enabled := True\<rparr>)
          else if cmd = ''timelapse-disable'' then
            (let st1 = st\<lparr>tl_enabled := False\<rparr> in (Resp_Ok, if tl_mux st1 \<noteq> None then close_timelapse P st1 else st1))
          else if cmd = ''timelapse-snap'' then
            (if \<not> tl_enabled st then (Resp_Error ''timelapse disabled'', st)
             else
               let st1 = st\<lparr>tl := rmr_tl_force (tl st)\<rparr>
               in (Resp_Ok, if video_ring st1 \<and> video_codec st1 \<noteq> 2 then st1\<lparr>world := request_idr (world st1)\<rparr> else st1))
          else if cmd = ''timelapse-set'' then
            (case (rq_key rq, rq_value rq) of
               (Some key, Some val) \<Rightarrow> timelapse_set P key val st
             | _ \<Rightarrow> (Resp_Error ''need key and value'', st))
          else if cmd = ''timelapse-status'' then
            (Resp_Json [(''enabled'', JBool (tl_enabled st)), (''interval'', JNum (cdiv (interval_us (tl st)) 1000000)),
               (''playback_fps'', JNum (int (playback_fps (tl st)))), (''file_frames'', JNum (int (file_frames (tl st)))),
               (''frames_in_file'', JNum (int (frames_in_file (tl st)))), (''frames_total'', JNum (int (tl_frames_total st))),
               (''bytes'', JNum (int (tl_bytes st)))], st)
          else (Resp_Error ''unknown command'', st))"

subsection \<open>One iteration of the main loop\<close>

record rmr_loop =
  v_ts_base :: int
  v_wait_key :: bool
  audio_bps :: int
  audio_samples_per_frame :: int
  a_dts_counter :: int
  a_ts_base :: int
  was_recording :: bool
  audio_retry :: nat
  last_video_ws :: nat
  video_idle :: nat
  last_audio_ws :: nat
  audio_idle :: nat
  standby :: bool

record ring_header =
  rh_codec :: u32
  rh_fps_num :: u32
  rh_width :: u32
  rh_height :: u32
  rh_profile :: byte
  rh_write_seq :: nat

datatype video_read = V_Overflow | V_Again nat | V_Error | V_Frame "byte list" int bool nat

datatype audio_read = A_Stop | A_Frame "byte list" int

text \<open>
  What one iteration sees: a control request, the availability of the two destinations at each
  place the loop asks, the rings it may open, what it reads from them, and the clock mapping.
\<close>

record rmr_input =
  i_ctrl :: "ctrl_req option"
  i_clock :: clock
  i_dest :: bool
  i_storage :: bool
  i_clip_storage :: bool
  i_audio_open :: "ring_header option"
  i_video_open :: "(ring_header \<times> nat \<times> bool) option"
  i_video :: video_read
  i_audio :: "audio_read list"
  i_audio_ws :: nat
  i_utc :: "(int \<times> byte) option"

definition bps_of :: "u32 \<Rightarrow> int" where
  "bps_of codec = (if codec = ucast RMR_AUDIO_PCMU \<or> codec = ucast RMR_AUDIO_PCMA then 1 else 2)"

definition samples_per_frame_of :: "u32 \<Rightarrow> u32 \<Rightarrow> u32 \<Rightarrow> int" where
  "samples_per_frame_of codec w rate =
     (if codec = ucast RMR_AUDIO_AAC then (if w \<noteq> 0 then uint w else 1024)
      else if codec = ucast RMR_AUDIO_OPUS then uint (rate div 50) else 0)"

definition loop_start :: "u32 \<Rightarrow> rmr_state \<Rightarrow> rmr_loop" where
  "loop_start hdr_width st =
     \<lparr>v_ts_base = -1, v_wait_key = False, audio_bps = bps_of (audio_codec st),
      audio_samples_per_frame = samples_per_frame_of (audio_codec st) (if audio_ring st then hdr_width else 0) (audio_sample_rate st),
      a_dts_counter = 0, a_ts_base = -1, was_recording = False, audio_retry = 0, last_video_ws = 0, video_idle = 0,
      last_audio_ws = 0, audio_idle = 0, standby = False\<rparr>"

definition enter_standby :: "prims \<Rightarrow> rmr_loop \<times> rmr_state \<Rightarrow> rmr_loop \<times> rmr_state" where
  "enter_standby P s =
     (let (L, st) = s in
      if standby L then (L, st)
      else
        let (L1, st1) = (if mux st \<noteq> None then (L\<lparr>standby := True, was_recording := False\<rparr>, close_segment P st) else (L\<lparr>standby := True\<rparr>, st));
            st2 = (if clip_mux st1 \<noteq> None then close_clip P st1 else st1)
        in (L1, st2\<lparr>video_ring := False, audio_ring := False\<rparr>))"

definition attach_audio :: "rmr_input \<Rightarrow> rmr_loop \<times> rmr_state \<Rightarrow> rmr_loop \<times> rmr_state" where
  "attach_audio i s =
     (let (L, st) = s in
      if audio_enabled st \<and> \<not> audio_ring st then
        let L1 = L\<lparr>audio_retry := audio_retry L + 1\<rparr> in
        if audio_retry L1 < 50 then (L1, st)
        else
          let L2 = L1\<lparr>audio_retry := 0\<rparr> in
          case i_audio_open i of
            None \<Rightarrow> (L2, st)
          | Some h \<Rightarrow>
              (L2\<lparr>audio_bps := bps_of (rh_codec h), audio_samples_per_frame := samples_per_frame_of (rh_codec h) (rh_width h) (rh_fps_num h)\<rparr>,
               st\<lparr>audio_ring := True, audio_codec := rh_codec h, audio_sample_rate := rh_fps_num h, audio_aot := rh_profile h\<rparr>)
      else (L, st))"

definition reconnect_video :: "prims \<Rightarrow> rmr_input \<Rightarrow> rmr_loop \<times> rmr_state \<Rightarrow> rmr_loop \<times> rmr_state" where
  "reconnect_video P i s =
     (let (L, st) = s in
      case i_video_open i of
        None \<Rightarrow> (L, st)
      | Some (h, mfs, alloc_ok) \<Rightarrow>
          if frame_buf_size st < mfs \<and> \<not> alloc_ok then (L, st)
          else
            let st1 = (if frame_buf_size st < mfs then st\<lparr>frame_buf_size := mfs, avcc_buf_size := mfs + sei_max P\<rparr> else st);
                st2 = st1\<lparr>video_ring := True, video_codec := uint (rh_codec h), video_read_seq := 0, params := (params st1)\<lparr>p_ready := False\<rparr>\<rparr>;
                st3 = (if tl_mux st2 \<noteq> None then close_timelapse P st2 else st2)
            in (L\<lparr>video_idle := 0, last_video_ws := 0\<rparr>, st3\<lparr>tl := rmr_tl_ring_reset (tl st3)\<rparr>))"

definition video_idle_step :: "nat \<Rightarrow> rmr_loop \<times> rmr_state \<Rightarrow> rmr_loop \<times> rmr_state" where
  "video_idle_step ws s =
     (let (L, st) = s;
          L1 = L\<lparr>video_idle := (if ws = last_video_ws L then video_idle L + 1 else 0), last_video_ws := ws\<rparr>
      in if 50 \<le> video_idle L1 then (L1\<lparr>video_idle := 0\<rparr>, st\<lparr>video_ring := False\<rparr>) else (L1, st))"

text \<open>
  The sample for the muxers, or \<^const>\<open>None\<close> when the frame is skipped. The check of the first
  length field reads the bytes behind the SEI.
\<close>

definition prepare_frame :: "prims \<Rightarrow> rmr_input \<Rightarrow> byte list \<Rightarrow> int \<Rightarrow> bool \<Rightarrow> rmr_state \<Rightarrow> byte list option \<times> rmr_state" where
  "prepare_frame P i frame ts key st =
     (if video_codec st = 2 then (Some frame, st\<lparr>params := (params st)\<lparr>p_ready := True\<rparr>\<rparr>)
      else
        let st1 = (if key \<and> \<not> p_ready (params st) then st\<lparr>params := rmr_extract_params frame (video_codec st) (params st)\<rparr> else st)
        in if \<not> p_ready (params st1) then (None, st1)
           else
             let sei = (if sei_timecode st1 then
                          (case i_utc i of
                             None \<Rightarrow> []
                           | Some (off, status) \<Rightarrow>
                               (case sei_build P (avcc_buf_size st1) (video_codec st1) (ts + off) status of Some b \<Rightarrow> b | None \<Rightarrow> []))
                        else []);
                 (avcc_len, avcc_bytes) = rmr_annexb_to_avcc frame (avcc_buf_size st1 - length sei) (video_codec st1)
             in if avcc_len \<le> 0 then (None, st1)
                else if 5 \<le> avcc_len \<and> word_of_int avcc_len - 4 < rd32 avcc_bytes then (None, st1)
                else (Some (sei @ avcc_bytes), st1))"

record audio_frame =
  af_data :: "byte list"
  af_samples :: int
  af_ts :: int

text \<open>The burst of at most four audio frames, each pushed to the pre-buffer and kept.\<close>

fun read_audio :: "nat \<Rightarrow> audio_read list \<Rightarrow> audio_frame list \<Rightarrow> rmr_loop \<times> rmr_state \<Rightarrow> audio_frame list \<times> rmr_loop \<times> rmr_state" where
  "read_audio 0 rs acc s = (acc, s)"
| "read_audio (Suc n) [] acc s = (acc, s)"
| "read_audio (Suc n) (A_Stop # rs) acc s = (acc, s)"
| "read_audio (Suc n) (A_Frame bs ts # rs) acc (L, st) =
     read_audio n rs
       (acc @ [\<lparr>af_data = bs, af_samples = (if audio_samples_per_frame L \<noteq> 0 then audio_samples_per_frame L else int (length bs) div audio_bps L), af_ts = ts\<rparr>])
       (L\<lparr>audio_idle := 0\<rparr>, st\<lparr>audio_pb := map_option (rmr_prebuf_push bs ts False) (audio_pb st)\<rparr>)"

definition audio_burst :: "rmr_input \<Rightarrow> rmr_loop \<times> rmr_state \<Rightarrow> audio_frame list \<times> rmr_loop \<times> rmr_state" where
  "audio_burst i s =
     (if \<not> audio_ring (snd s) then ([], s)
      else
        let (frames, L, st) = read_audio 4 (i_audio i) [] s;
            L1 = L\<lparr>audio_idle := (if i_audio_ws i = last_audio_ws L then audio_idle L + 1 else 0), last_audio_ws := i_audio_ws i\<rparr>
        in if 100 \<le> audio_idle L1 then (frames, L1\<lparr>audio_idle := 0\<rparr>, st\<lparr>audio_ring := False\<rparr>) else (frames, L1, st))"

subsubsection \<open>Continuous recording\<close>

definition flush_segment :: "prims \<Rightarrow> rmr_mux \<Rightarrow> rmr_state \<Rightarrow> rmr_state" where
  "flush_segment P m st =
     (let (_, m1, st1) = rmr_mux_flush_fragment direct_write (m, st)
      in (emit_seg P False (st1\<lparr>mux := Some m1\<rparr>))\<lparr>frames_since_flush := 0\<rparr>)"

text \<open>With a segment open: the request of a keyframe at the boundary, the flush and the rotation.\<close>

definition segment_tick :: "prims \<Rightarrow> clock \<Rightarrow> bool \<Rightarrow> rmr_mux \<Rightarrow> rmr_state \<Rightarrow> rmr_state" where
  "segment_tick P t key m st =
     (let st1 = st\<lparr>frames_since_flush := frames_since_flush st + 1\<rparr>;
          st2 = (if \<not> segment_idr_requested st1 \<and> \<not> key \<and> segment_boundary_rt_us st1 \<le> now_rt t
                 then st1\<lparr>world := request_idr (world st1), segment_idr_requested := True\<rparr> else st1)
      in if key then
           let st3 = flush_segment P m st2
           in if rmr_storage_should_rotate_at (storage st3) (segment_start_rt_us st3) (now_rt t)
              then let st4 = close_segment P st3 in st4\<lparr>world := (world st4)\<lparr>cleanups := cleanups (world st4) + 1\<rparr>\<rparr>
              else st3
         else if 10 \<le> frames_since_flush st2 then flush_segment P m st2
         else st2)"

fun write_audio_frames :: "audio_frame list \<Rightarrow> int \<Rightarrow> rmr_loop \<times> rmr_mux \<Rightarrow> rmr_loop \<times> rmr_mux" where
  "write_audio_frames [] rate s = s"
| "write_audio_frames (f # fs) rate (L, m) =
     (let (dts, base) = steer_audio_dts (a_dts_counter L) (af_ts f) (a_ts_base L) (af_samples f) rate;
          (_, m1) = rmr_mux_write_audio \<lparr>as_data = af_data f, as_dts = dts\<rparr> m
      in write_audio_frames fs rate (L\<lparr>a_dts_counter := dts + af_samples f, a_ts_base := base\<rparr>, m1))"

definition write_samples :: "byte list \<Rightarrow> int \<Rightarrow> bool \<Rightarrow> audio_frame list \<Rightarrow> rmr_mux \<Rightarrow> rmr_loop \<times> rmr_state \<Rightarrow> rmr_loop \<times> rmr_state" where
  "write_samples mux_data ts key frames m s =
     (let (L, st) = s;
          L1 = (if v_ts_base L < 0 then L\<lparr>v_ts_base := ts\<rparr> else L);
          v_dts = cdiv ((ts - v_ts_base L1) * 90) 1000;
          (r, m1) = rmr_mux_write_video \<lparr>vs_data = mux_data, vs_dts = v_dts, vs_pts = v_dts, vs_key = key\<rparr> m;
          st1 = (if r = 0 then st\<lparr>frames_written := frames_written st + 1\<rparr> else st\<lparr>frames_dropped := frames_dropped st + 1\<rparr>);
          (L2, m2) = write_audio_frames frames (uint (audio_sample_rate st1)) (L1, m1)
      in (L2, st1\<lparr>mux := Some m2\<rparr>))"

definition record_continuous :: "prims \<Rightarrow> rmr_input \<Rightarrow> byte list \<Rightarrow> int \<Rightarrow> bool \<Rightarrow> audio_frame list \<Rightarrow> rmr_loop \<times> rmr_state \<Rightarrow> rmr_loop \<times> rmr_state" where
  "record_continuous P i mux_data ts key frames s =
     (let (L, st) = s;
          (L1, st1) = (if was_recording L \<and> \<not> rec_on st
                       then (L\<lparr>was_recording := False, v_ts_base := -1, a_dts_counter := 0, a_ts_base := -1\<rparr>, close_segment P st) else (L, st))
      in if \<not> rec_on st then (L1, st1)
         else if \<not> i_storage i then (L1, st1)
         else
           let st2 = (case mux st1 of Some m \<Rightarrow> segment_tick P (i_clock i) key m st1 | None \<Rightarrow> st1)
           in case mux st2 of
                Some m \<Rightarrow> write_samples mux_data ts key frames m (L1, st2)
              | None \<Rightarrow>
                  if \<not> key then (L1, st2)
                  else
                    let (r, st3) = start_segment P (i_clock i) st2
                    in if r < 0 then (L1, st3)
                       else
                         case mux st3 of
                           Some m \<Rightarrow> write_samples mux_data ts key frames m
                             (L1\<lparr>v_ts_base := -1, a_dts_counter := 0, a_ts_base := -1, was_recording := True\<rparr>,
                              st3\<lparr>frames_written := 0, st_bytes_written := 0\<rparr>)
                         | None \<Rightarrow> (L1, st3))"

subsubsection \<open>Clips and timelapse\<close>

definition clip_rotate :: "prims \<Rightarrow> clock \<Rightarrow> bool \<Rightarrow> rmr_state \<Rightarrow> rmr_state" where
  "clip_rotate P t clip_want st =
     (if 0 < clip_length_sec st \<and> clip_length_sec st * 1000000 \<le> now_us t - clip_start_us st then
        let st1 = close_clip P st in if clip_want then snd (open_clip P t st1) else st1
      else st)"

definition record_clip :: "prims \<Rightarrow> rmr_input \<Rightarrow> byte list \<Rightarrow> int \<Rightarrow> bool \<Rightarrow> audio_frame list \<Rightarrow> rmr_loop \<times> rmr_state \<Rightarrow> rmr_state" where
  "record_clip P i mux_data ts key frames s =
     (let (L, st) = s in
      if mode st = RMR_MODE_MOTION \<or> mode st = RMR_MODE_BOTH then
        let clip_want = (if mode st = RMR_MODE_BOTH then clip_recording st else rec_on st);
            st1 = (if clip_want \<and> clip_mux st = None \<and> i_clip_storage i
                   then snd (open_clip_with_prebuffer P (i_clock i) (audio_samples_per_frame L) (audio_bps L) st) else st);
            st2 = (if clip_mux st1 \<noteq> None then
                     clip_rotate P (i_clock i) clip_want
                       (fold (\<lambda>f. clip_write_audio (af_data f) (af_samples f) (af_ts f)) frames (clip_write_video P mux_data ts key st1))
                   else st1)
        in if \<not> clip_want \<and> clip_mux st2 \<noteq> None then close_clip P st2 else st2
      else st)"

definition sample_timelapse :: "prims \<Rightarrow> rmr_input \<Rightarrow> byte list \<Rightarrow> bool \<Rightarrow> rmr_state \<Rightarrow> rmr_state" where
  "sample_timelapse P i mux_data key st =
     (if tl_enabled st \<and> (p_ready (params st) \<or> video_codec st = 2) then
        let was_armed = want_sample (tl st);
            st1 = st\<lparr>tl := rmr_tl_tick (now_us (i_clock i)) (tl st)\<rparr>;
            st2 = (if \<not> was_armed \<and> want_sample (tl st1) \<and> video_codec st1 \<noteq> 2 then st1\<lparr>world := request_idr (world st1)\<rparr> else st1);
            tl_key = key \<or> video_codec st2 = 2
        in if tl_key then
             let (ok, tl') = rmr_tl_take (video_read_seq st2) (tl st2); st3 = st2\<lparr>tl := tl'\<rparr>
             in if ok then timelapse_write_sample P (i_clock i) mux_data st3 else st3
           else st2
      else st)"

definition process_frame :: "prims \<Rightarrow> rmr_input \<Rightarrow> byte list \<Rightarrow> int \<Rightarrow> bool \<Rightarrow> rmr_loop \<times> rmr_state \<Rightarrow> rmr_loop \<times> rmr_state" where
  "process_frame P i frame ts key s =
     (let (L, st) = s in
      case prepare_frame P i frame ts key st of
        (None, st1) \<Rightarrow> (L, st1)
      | (Some mux_data, st1) \<Rightarrow>
          (let st2 = st1\<lparr>video_pb := map_option (rmr_prebuf_push mux_data ts key) (video_pb st1)\<rparr>;
               (frames, L3, st3) = audio_burst i (L, st2);
               (L4, st4) = record_continuous P i mux_data ts key frames (L3, st3);
               st5 = record_clip P i mux_data ts key frames (L4, st4)
           in (L4, sample_timelapse P i mux_data key st5)))"

definition record_iter :: "prims \<Rightarrow> rmr_input \<Rightarrow> rmr_loop \<times> rmr_state \<Rightarrow> rmr_loop \<times> rmr_state" where
  "record_iter P i s =
     (let (L, st0) = s;
          st = (case i_ctrl i of Some rq \<Rightarrow> snd (rmr_ctrl_handler P rq st0) | None \<Rightarrow> st0)
      in if \<not> i_dest i then enter_standby P (L, st)
         else
           let (L1, st1) = attach_audio i (L\<lparr>standby := False\<rparr>, st)
           in if \<not> video_ring st1 then reconnect_video P i (L1, st1)
              else case i_video i of
                V_Overflow \<Rightarrow>
                  (L1\<lparr>v_wait_key := True\<rparr>, st1\<lparr>world := request_idr (world st1), frames_dropped := frames_dropped st1 + 1\<rparr>)
              | V_Again ws \<Rightarrow> video_idle_step ws (L1, st1)
              | V_Error \<Rightarrow> (L1, st1)
              | V_Frame frame ts key seq \<Rightarrow>
                  (let L2 = L1\<lparr>video_idle := 0\<rparr>; st2 = st1\<lparr>video_read_seq := seq\<rparr>
                   in if v_wait_key L2 \<and> \<not> key then (L2, st2\<lparr>frames_dropped := frames_dropped st2 + 1\<rparr>)
                      else process_frame P i frame ts key (L2\<lparr>v_wait_key := False\<rparr>, st2)))"

definition record_shutdown :: "prims \<Rightarrow> rmr_state \<Rightarrow> rmr_state" where
  "record_shutdown P st =
     (let st1 = (if mux st \<noteq> None then close_segment P st else st)
      in if clip_mux st1 \<noteq> None then close_clip P st1 else st1)"

definition record_loop :: "prims \<Rightarrow> u32 \<Rightarrow> rmr_input list \<Rightarrow> rmr_state \<Rightarrow> rmr_state" where
  "record_loop P hdr_width is st = record_shutdown P (snd (fold (record_iter P) is (loop_start hdr_width st, st)))"

definition next_pow2 :: "u32 \<Rightarrow> u32" where
  "next_pow2 n =
     (if n = 0 then 1
      else
        let n0 = n - 1;
            n1 = n0 OR drop_bit 1 n0;
            n2 = n1 OR drop_bit 2 n1;
            n3 = n2 OR drop_bit 4 n2;
            n4 = n3 OR drop_bit 8 n3;
            n5 = n4 OR drop_bit 16 n4
        in n5 + 1)"

subsection \<open>Starting and stopping the daemon\<close>

text \<open>
  The configuration as read, with its defaults applied, and what the start meets: the key file,
  the attempts to open the video ring with the largest frame of the ring, the audio ring, the
  allocations and the storage objects.
\<close>

record rmr_config =
  cf_rec_enabled :: bool
  cf_tl_enabled :: bool
  cf_tl_interval :: int
  cf_tl_fps :: int
  cf_tl_file_frames :: int
  cf_audio :: bool
  cf_sei_timecode :: bool
  cf_sign :: bool
  cf_mode :: string
  cf_prebuffer_sec :: int
  cf_clip_length_sec :: int
  cf_bitrate :: int
  cf_storage :: rmr_storage_config

record rmr_env =
  e_key :: "rmr_sign_key option"
  e_video_tries :: "(ring_header \<times> nat) option list"
  e_buffers :: bool
  e_audio :: "ring_header option"
  e_video_region :: "byte list option"
  e_audio_region :: "byte list option"
  e_storage :: bool
  e_clip_storage :: bool
  e_tl_storage :: bool
  e_world :: rmr_world

definition rmr_state_zero :: "rmr_world \<Rightarrow> rmr_state" where
  "rmr_state_zero w =
     (let key = \<lparr>secret = [], public = [], fingerprint = []\<rparr>;
          ss = \<lparr>ss_key = None, ss_hash = [], prev_sig = replicate 64 0, span_bytes = 0, emitting = False\<rparr>
      in \<lparr>audio_enabled = False, mode = 0, sei_timecode = False, sign_enabled = False, sign_key = key, sign_seg = ss,
          sign_clip = ss, sign_tl = ss, video_ring = False, audio_ring = False, video_read_seq = 0, video_codec = 0,
          width = 0, height = 0, audio_codec = 0, audio_sample_rate = 0, audio_aot = 0,
          params = \<lparr>p_sps = [], p_pps = [], p_vps = [], p_ready = False\<rparr>, mux = None, storage = None, segment_fd = 0,
          segment_start_us = 0, segment_start_rt_us = 0, segment_boundary_rt_us = 0, segment_idr_requested = False,
          video_pb = None, audio_pb = None, prebuffer_sec = 0, clip_length_sec = 0, clip_storage = False, clip_mux = None,
          clip_fd = 0, clip_v_ts_base = 0, clip_a_dts = 0, clip_a_ts_base = 0, clip_start_us = 0, clip_bytes = 0,
          tl_enabled = False,
          tl = \<lparr>interval_us = 0, playback_fps = 0, file_frames = 0, want_sample = False, next_due_us = 0, last_seq = 0,
                file_day = 0, frames_in_file = 0, frame_idx = 0\<rparr>,
          tl_storage = False, tl_mux = None, tl_fd = 0, tl_bytes = 0, tl_frames_total = 0, tl_last_err_us = 0,
          frame_buf_size = 0, avcc_buf_size = 0, rec_on = False, clip_recording = False, frames_written = 0,
          frames_dropped = 0, st_bytes_written = 0, frames_since_flush = 0, world = w\<rparr>)"

definition configure :: "rmr_config \<Rightarrow> rmr_env \<Rightarrow> rmr_state" where
  "configure cf e =
     (let st = rmr_state_zero (e_world e);
          sec = cf_prebuffer_sec cf;
          st1 = st\<lparr>segment_fd := -1, clip_fd := -1, tl_fd := -1, tl_enabled := cf_tl_enabled cf,
            tl := rmr_tl_init (cf_tl_interval cf) (cf_tl_fps cf) (cf_tl_file_frames cf), audio_enabled := cf_audio cf,
            sei_timecode := cf_sei_timecode cf, sign_enabled := cf_sign cf,
            mode := (if cf_mode cf = ''motion'' then RMR_MODE_MOTION else if cf_mode cf = ''both'' then RMR_MODE_BOTH else 0),
            prebuffer_sec := (if sec < 0 then 0 else if 5 < sec then 5 else sec), clip_length_sec := cf_clip_length_sec cf\<rparr>
      in if sign_enabled st1 then
           (case e_key e of Some k \<Rightarrow> st1\<lparr>sign_key := k\<rparr> | None \<Rightarrow> st1\<lparr>sign_enabled := False\<rparr>)
         else st1)"

definition open_video :: "prims \<Rightarrow> rmr_env \<Rightarrow> rmr_state \<Rightarrow> (u32 \<times> rmr_state) option" where
  "open_video P e st =
     (case List.find (\<lambda>r. r \<noteq> None) (take 30 (e_video_tries e)) of
        Some (Some (h, mfs)) \<Rightarrow>
          if e_buffers e then
            Some (rh_fps_num h, st\<lparr>video_ring := True, video_codec := uint (rh_codec h), width := rh_width h, height := rh_height h,
              frame_buf_size := mfs, avcc_buf_size := mfs + sei_max P\<rparr>)
          else None
      | _ \<Rightarrow> None)"

definition open_audio :: "rmr_env \<Rightarrow> rmr_state \<Rightarrow> rmr_state" where
  "open_audio e st =
     (if audio_enabled st then
        (case e_audio e of
           Some h \<Rightarrow> st\<lparr>audio_ring := True, audio_codec := rh_codec h, audio_sample_rate := rh_fps_num h, audio_aot := rh_profile h\<rparr>
         | None \<Rightarrow> st)
      else st)"

text \<open>The sizes of the pre-buffers: slots for the frames of the window and one more second, and the data region.\<close>

definition video_slots :: "u32 \<Rightarrow> int \<Rightarrow> u32" where
  "video_slots fps_num sec = (let fps = (if 0 < fps_num then fps_num else 25) in next_pow2 (fps * word_of_int sec + fps))"

definition video_region :: "int \<Rightarrow> int \<Rightarrow> u32" where
  "video_region bitrate sec =
     (let d = uint (word_of_int bitrate :: u32) * sec * 5 div 2 div 8;
          d1 = (if d < 1024 * 1024 then 1024 * 1024 else d)
      in word_of_int (if 10 * 1024 * 1024 < d1 then 10 * 1024 * 1024 else d1))"

definition audio_slots :: "int \<Rightarrow> u32" where
  "audio_slots sec = next_pow2 (50 * word_of_int sec + 50)"

definition audio_region :: "int \<Rightarrow> u32" where
  "audio_region sec = (let d = audio_slots sec * 1024 in if d < 128 * 1024 then 128 * 1024 else d)"

definition create_prebufs :: "rmr_config \<Rightarrow> rmr_env \<Rightarrow> u32 \<Rightarrow> rmr_state \<Rightarrow> rmr_state" where
  "create_prebufs cf e fps_num st =
     (if 0 < prebuffer_sec st \<and> (mode st = RMR_MODE_MOTION \<or> mode st = RMR_MODE_BOTH) then
        let sec = prebuffer_sec st;
            st1 = st\<lparr>video_pb := rmr_prebuf_create (e_video_region e) (video_slots fps_num sec) (video_region (cf_bitrate cf) sec)\<rparr>
        in if audio_ring st1 then st1\<lparr>audio_pb := rmr_prebuf_create (e_audio_region e) (audio_slots sec) (audio_region sec)\<rparr> else st1
      else st)"

text \<open>Everything before the loop; \<^const>\<open>False\<close> when a step jumps to the cleanup.\<close>

definition rmr_setup :: "prims \<Rightarrow> rmr_config \<Rightarrow> rmr_env \<Rightarrow> bool \<times> rmr_state" where
  "rmr_setup P cf e =
     (let st = configure cf e in
      case open_video P e st of
        None \<Rightarrow> (False, st)
      | Some (fps_num, st1) \<Rightarrow>
          let st2 = create_prebufs cf e fps_num (open_audio e st1)
          in if \<not> e_storage e then (False, st2)
             else
               (True, st2\<lparr>storage := Some (rmr_storage_create (cf_storage cf)),
                  clip_storage := (mode st2 = RMR_MODE_BOTH \<or> mode st2 = RMR_MODE_MOTION) \<and> e_clip_storage e,
                  tl_storage := e_tl_storage e, rec_on := cf_rec_enabled cf \<and> mode st2 \<noteq> RMR_MODE_MOTION\<rparr>))"

definition rmr_cleanup :: "prims \<Rightarrow> rmr_state \<Rightarrow> rmr_state" where
  "rmr_cleanup P st =
     (let st1 = (if clip_mux st \<noteq> None then close_clip P st else st);
          st2 = (if tl_mux st1 \<noteq> None then close_timelapse P st1 else st1)
      in st2\<lparr>tl_storage := False, clip_storage := False, storage := None, video_ring := False, audio_ring := False,
             video_pb := None, audio_pb := None\<rparr>)"

definition rmr_main :: "prims \<Rightarrow> rmr_config \<Rightarrow> rmr_env \<Rightarrow> rmr_input list \<Rightarrow> rmr_world" where
  "rmr_main P cf e is =
     (if \<not> cf_rec_enabled cf \<and> \<not> cf_tl_enabled cf then e_world e
      else
        let (ok, st) = rmr_setup P cf e
        in world (rmr_cleanup P (if ok then record_loop P (case e_audio e of Some h \<Rightarrow> rh_width h | None \<Rightarrow> 0) is st else st)))"

end
