(* ===== verification/Rverify.thy ===== *)
theory Rverify
  imports Rmr_Sign
begin

text \<open>
  The verifier of signed recordings, \<^verbatim>\<open>rverify/rverify.c\<close>: the walk over the top-level boxes of
  a file, the check of each signature box, the final verdict, the scan for embedded
  timecodes and the parsing of a public key. The two crypto functions it calls are the
  arguments \<open>sha512\<close> and \<open>ed25519_check\<close>, from a signature, a public key and a message to whether
  it verifies. The lines it prints for each box are the log of the walk.
\<close>

subsection \<open>The public key argument\<close>

definition hex_nibble :: "char \<Rightarrow> int" where
  "hex_nibble c = (let n = (of_char c :: int) in
     if 48 \<le> n \<and> n \<le> 57 then n - 48
     else if 97 \<le> n \<and> n \<le> 102 then n - 97 + 10
     else if 65 \<le> n \<and> n \<le> 70 then n - 65 + 10
     else -1)"

fun parse_hex :: "nat \<Rightarrow> string \<Rightarrow> byte list option" where
  "parse_hex 0 cs = Some []"
| "parse_hex (Suc k) (c # d # cs) =
     (let hi = hex_nibble c; lo = hex_nibble d in
      if hi < 0 \<or> lo < 0 then None
      else map_option ((#) (word_of_int (hi * 16 + lo))) (parse_hex k cs))"
| "parse_hex (Suc k) _ = None"

text \<open>A 64-character argument is the key itself, any other one names a file, whose first 64 bytes are read.\<close>

definition parse_pubkey :: "string \<Rightarrow> string option \<Rightarrow> byte list option" where
  "parse_pubkey arg file =
     (if length arg = 64 then parse_hex 32 arg
      else case file of
        None \<Rightarrow> None
      | Some text \<Rightarrow> if length text < 64 then None else parse_hex 32 (take 64 text))"

subsection \<open>The walk\<close>

datatype verdict = FAIL_hash | FAIL_sig | VERDICT_OK | VERDICT_nokey

record log_line =
  ln_pos :: nat
  ln_span :: nat
  ln_version :: byte
  ln_final :: bool
  ln_verdict :: verdict
  ln_after_final :: bool

record walk_state =
  w_prev_sig :: "byte list"
  span_start :: nat
  w_failures :: nat
  saw_final :: bool
  w_log :: "log_line list"

text \<open>The number of signature boxes seen is the length of the log.\<close>

definition w_box_count :: "walk_state \<Rightarrow> nat" where
  "w_box_count w = length (w_log w)"

definition bytes_at :: "byte list \<Rightarrow> nat \<Rightarrow> nat \<Rightarrow> byte list" where
  "bytes_at d off n = take n (drop off d)"

text \<open>Size and header length of the box at \<open>pos\<close>; \<^const>\<open>None\<close> ends the walk.\<close>

definition box_at :: "byte list \<Rightarrow> nat \<Rightarrow> nat option" where
  "box_at data pos =
     (let len = length data;
          size32 = unat (rd32 (drop pos data));
          r = (if size32 = 1 then
                 if len < pos + 16 then None else Some (unat (rd64 (drop (pos + 8) data)), 16)
               else if size32 = 0 then Some (len - pos, 8)
               else Some (size32, 8))
      in case r of
           None \<Rightarrow> None
         | Some (box_size, hdr) \<Rightarrow> if box_size < hdr \<or> len - pos < box_size then None else Some box_size)"

definition is_sign_box :: "byte list \<Rightarrow> nat \<Rightarrow> nat \<Rightarrow> bool" where
  "is_sign_box data pos box_size \<longleftrightarrow>
     bytes_at data (pos + 4) 4 = fourcc ''uuid'' \<and> box_size = RMR_SIGN_BOX_SIZE \<and>
     pos + RMR_SIGN_BOX_SIZE \<le> length data \<and> bytes_at data (pos + 8) 16 = sign_uuid"

definition verify_box :: "(byte list \<Rightarrow> byte list) \<Rightarrow> (byte list \<Rightarrow> byte list \<Rightarrow> byte list \<Rightarrow> bool) \<Rightarrow>
    byte list option \<Rightarrow> byte list \<Rightarrow> nat \<Rightarrow> walk_state \<Rightarrow> walk_state" where
  "verify_box sha512 ed25519_check pub data pos w =
     (let box = bytes_at data pos RMR_SIGN_BOX_SIZE;
          version = box ! 24;
          flags = box ! 25;
          stored_hash = bytes_at box 36 64;
          sig = bytes_at box 100 64;
          span = bytes_at data (span_start w) (pos - span_start w);
          hash_ok = (sha512 span = stored_hash);
          sig_ok = (case pub of None \<Rightarrow> True | Some k \<Rightarrow> ed25519_check sig k (stored_hash @ w_prev_sig w));
          verdict = (if \<not> hash_ok then FAIL_hash else if \<not> sig_ok then FAIL_sig
                     else if pub \<noteq> None then VERDICT_OK else VERDICT_nokey);
          final = (flags AND 1 \<noteq> 0)
      in \<lparr>w_prev_sig = sig, span_start = pos + RMR_SIGN_BOX_SIZE,
          w_failures = w_failures w + (if saw_final w then 1 else 0) + (if \<not> hash_ok \<or> \<not> sig_ok then 1 else 0),
          saw_final = saw_final w \<or> final,
          w_log = w_log w @ [\<lparr>ln_pos = pos, ln_span = pos - span_start w, ln_version = version, ln_final = final,
            ln_verdict = verdict, ln_after_final = saw_final w\<rparr>]\<rparr>)"

function walk :: "(byte list \<Rightarrow> byte list) \<Rightarrow> (byte list \<Rightarrow> byte list \<Rightarrow> byte list \<Rightarrow> bool) \<Rightarrow>
    byte list option \<Rightarrow> byte list \<Rightarrow> nat \<Rightarrow> walk_state \<Rightarrow> walk_state" where
  "walk sha512 ed25519_check pub data pos w =
     (if pos + 8 \<le> length data then
        (case box_at data pos of
           None \<Rightarrow> w
         | Some box_size \<Rightarrow>
             walk sha512 ed25519_check pub data (pos + box_size)
               (if is_sign_box data pos box_size then verify_box sha512 ed25519_check pub data pos w else w))
      else w)"
  by pat_completeness auto
termination
  by (relation "measure (\<lambda>(s, e, p, data, pos, w). length data - pos)")
    (auto simp: box_at_def Let_def split: if_splits)

declare walk.simps [simp del]

definition walk_start :: walk_state where
  "walk_start = \<lparr>w_prev_sig = replicate 64 0, span_start = 0, w_failures = 0, saw_final = False, w_log = []\<rparr>"

text \<open>The exit code, and the walk behind it; a JPEG is handed to another verifier.\<close>

definition is_jpeg :: "byte list \<Rightarrow> bool" where
  "is_jpeg data \<longleftrightarrow> 4 \<le> length data \<and> data ! 0 = 0xff \<and> data ! 1 = 0xd8"

definition rverify_mp4 :: "(byte list \<Rightarrow> byte list) \<Rightarrow> (byte list \<Rightarrow> byte list \<Rightarrow> byte list \<Rightarrow> bool) \<Rightarrow>
    byte list option \<Rightarrow> byte list \<Rightarrow> int \<times> walk_state" where
  "rverify_mp4 sha512 ed25519_check pub data =
     (let w = walk sha512 ed25519_check pub data 0 walk_start in
      if w_box_count w = 0 then (2, w)
      else
        let trailing = length data - span_start w;
            failures = w_failures w + (if 0 < trailing \<and> saw_final w then 1 else 0)
        in (if failures \<noteq> 0 then 1 else 0, w))"

text \<open>The command line: usage errors and unreadable files give 2.\<close>

definition rverify_main :: "(byte list \<Rightarrow> byte list) \<Rightarrow> (byte list \<Rightarrow> byte list \<Rightarrow> byte list \<Rightarrow> bool) \<Rightarrow>
    (byte list \<Rightarrow> byte list option \<Rightarrow> int) \<Rightarrow> (string \<times> string option) option \<Rightarrow> byte list option \<Rightarrow> int" where
  "rverify_main sha512 ed25519_check verify_jpeg key_arg file =
     (case (case key_arg of None \<Rightarrow> Some None | Some (arg, f) \<Rightarrow> map_option Some (parse_pubkey arg f)) of
        None \<Rightarrow> 2
      | Some pub \<Rightarrow>
          (case file of
             None \<Rightarrow> 2
           | Some data \<Rightarrow>
               if data = [] then 2
               else if is_jpeg data then verify_jpeg data pub
               else fst (rverify_mp4 sha512 ed25519_check pub data)))"

subsection \<open>Embedded timecodes\<close>

definition misp_uuid_h264 :: "byte list" where
  "misp_uuid_h264 = fourcc ''MISPmicrosectime''"

definition misp_uuid_h265 :: "byte list" where
  "misp_uuid_h265 = [0xa8, 0x68, 0x7d, 0xd4, 0xd7, 0x59, 0x37, 0x58, 0xa5, 0xce, 0xf0, 0x33, 0x8b, 0x65, 0x45, 0xf1]"

text \<open>The time in the SEI payload at \<open>i\<close>, when there is one.\<close>

definition timecode_at :: "byte list \<Rightarrow> nat \<Rightarrow> u64 option" where
  "timecode_at data i =
     (let h264 = (bytes_at data i 16 = misp_uuid_h264);
          h265 = (\<not> h264 \<and> bytes_at data i 16 = misp_uuid_h265)
      in if \<not> h264 \<and> \<not> h265 then None
         else if h264 \<and> (i < 3 \<or> bytes_at data (i - 3) 3 \<noteq> [0x06, 0x05, 0x1c]) then None
         else if h265 \<and> (i < 4 \<or> bytes_at data (i - 4) 4 \<noteq> [0x4e, 0x01, 0x05, 0x1c]) then None
         else
           let d = drop (i + 16) data in
           if d ! 3 \<noteq> 0xff \<or> d ! 6 \<noteq> 0xff \<or> d ! 9 \<noteq> 0xff then None
           else Some (rd64 [d ! 1, d ! 2, d ! 4, d ! 5, d ! 7, d ! 8, d ! 10, d ! 11]))"

record timecodes =
  tc_first :: u64
  tc_last :: u64
  tc_count :: nat
  tc_backwards :: nat

definition note_timecode :: "u64 \<Rightarrow> timecodes \<Rightarrow> timecodes" where
  "note_timecode utc t =
     t\<lparr>tc_first := (if tc_count t = 0 then utc else tc_first t),
       tc_backwards := tc_backwards t + (if tc_count t \<noteq> 0 \<and> utc < tc_last t then 1 else 0),
       tc_last := utc, tc_count := tc_count t + 1\<rparr>"

definition dump_timecodes :: "byte list \<Rightarrow> timecodes" where
  "dump_timecodes data =
     fold (\<lambda>i t. if i + 16 + 12 \<le> length data then
                   (case timecode_at data i of None \<Rightarrow> t | Some utc \<Rightarrow> note_timecode utc t) else t)
       [0..<length data] \<lparr>tc_first = 0, tc_last = 0, tc_count = 0, tc_backwards = 0\<rparr>"

subsection \<open>Walking over boxes\<close>

text \<open>What a recording puts between its signatures: boxes of other types.\<close>

definition plain :: "string \<times> byte list \<Rightarrow> bool" where
  "plain b \<longleftrightarrow> length (fst b) = 4 \<and> fst b \<noteq> ''uuid'' \<and> box_fits (snd b)"

definition box_seq :: "(string \<times> byte list) list \<Rightarrow> byte list" where
  "box_seq bs = concat (map (\<lambda>b. box (fst b) (snd b)) bs)"

lemma box_seq_simps [simp]:
  "box_seq [] = []" "box_seq ((cc, p) # bs) = box cc p @ box_seq bs"
  by (simp_all add: box_seq_def)

lemma bytes_at_mid [simp]: "bytes_at (pre @ x @ rest) (length pre) (length x) = x"
  by (simp add: bytes_at_def)

lemma box_at_size:
  assumes "drop pos data = box cc p @ rest" and "box_fits p" and "length cc = 4"
  shows "box_at data pos = Some (8 + length p)"
proof -
  have "unat (rd32 (box cc p @ rest)) = 8 + length p"
    using assms(2) unat_of_nat_u32 [of "8 + length p"] by (simp add: box_def box_fits_def)
  moreover have "length data - pos = length (box cc p @ rest)"
    using arg_cong [OF assms(1), of length] by simp
  ultimately show ?thesis
    using assms(1,3) by (simp add: box_at_def)
qed

lemma walk_box:
  assumes "data = pre @ box cc p @ rest" and "box_fits p" and "length cc = 4"
  shows "walk sha chk pub data (length pre) w =
    walk sha chk pub data (length (pre @ box cc p))
      (if is_sign_box data (length pre) (8 + length p) then verify_box sha chk pub data (length pre) w else w)"
proof -
  have "box_at data (length pre) = Some (8 + length p)"
    using assms by (intro box_at_size) auto
  moreover have "length pre + 8 \<le> length data" using assms by simp
  ultimately show ?thesis
    using assms(3) by (subst walk.simps) (simp add: add.commute)
qed

lemma not_sign_box:
  assumes "data = pre @ box cc p @ rest" and "plain (cc, p)"
  shows "\<not> is_sign_box data (length pre) n"
proof -
  have "bytes_at data (length pre + 4) 4 = fourcc cc"
    using assms by (simp add: bytes_at_def box_def plain_def)
  then show ?thesis using assms(2) by (simp add: is_sign_box_def plain_def)
qed

lemma walk_plain:
  "data = pre @ box_seq bs @ rest \<Longrightarrow> list_all plain bs \<Longrightarrow>
     walk sha chk pub data (length pre) w = walk sha chk pub data (length (pre @ box_seq bs)) w"
proof (induction bs arbitrary: pre)
  case (Cons b bs)
  obtain cc p where b: "b = (cc, p)" by (cases b)
  have d: "data = pre @ box cc p @ (box_seq bs @ rest)" and pl: "plain (cc, p)"
    using Cons.prems by (simp_all add: b)
  have "walk sha chk pub data (length pre) w = walk sha chk pub data (length (pre @ box cc p)) w"
    using walk_box [OF d] not_sign_box [OF d pl] pl by (simp add: plain_def)
  also have "\<dots> = walk sha chk pub data (length ((pre @ box cc p) @ box_seq bs)) w"
    using Cons.prems by (intro Cons.IH) (simp_all add: b)
  finally show ?case by (simp add: b)
qed simp

text \<open>A box cut short ends the walk.\<close>

lemma walk_cut_box:
  assumes "data = pre @ take n (box cc p @ rest)" and "n < 8 + length p" and "box_fits p" and "length cc = 4"
  shows "walk sha chk pub data (length pre) w = w"
proof (cases "n < 8")
  case True
  then show ?thesis using assms(1) by (subst walk.simps) simp
next
  case False
  have n: "length data = length pre + n" using assms by simp
  have "drop (length pre) data = be32 (word_of_nat (8 + length p)) @ take (n - 4) (fourcc cc @ p)"
    using assms False by (simp add: box_def)
  then have "unat (rd32 (drop (length pre) data)) = 8 + length p"
    using assms(3) unat_of_nat_u32 [of "8 + length p"] by (simp add: box_fits_def)
  then have "box_at data (length pre) = None"
    using n assms(2) by (simp add: box_at_def Let_def)
  then show ?thesis using n False by (subst walk.simps) simp
qed

lemma walk_cut:
  assumes "data = pre @ take n (box_seq bs @ box cc p @ rest)" and "list_all plain bs"
    and "n < length (box_seq bs) + 8 + length p" and "box_fits p" and "length cc = 4"
  shows "walk sha chk pub data (length pre) w = w"
  using assms(1-3)
proof (induction bs arbitrary: pre n)
  case Nil
  then show ?case using assms(4,5) by (intro walk_cut_box [of data pre n cc p rest]) simp_all
next
  case (Cons b bs)
  obtain cc' p' where b: "b = (cc', p')" by (cases b)
  have pl: "plain (cc', p')" "list_all plain bs" using Cons.prems by (simp_all add: b)
  show ?case
  proof (cases "n < 8 + length p'")
    case True
    show ?thesis
      by (rule walk_cut_box [of data pre n cc' p' "box_seq bs @ box cc p @ rest"])
        (use Cons.prems True pl in \<open>simp_all add: b plain_def\<close>)
  next
    case False
    have d: "data = pre @ box cc' p' @ take (n - (8 + length p')) (box_seq bs @ box cc p @ rest)"
      using Cons.prems(1) False pl by (simp add: b plain_def)
    have "walk sha chk pub data (length pre) w = walk sha chk pub data (length (pre @ box cc' p')) w"
      using walk_box [OF d] not_sign_box [OF d pl(1)] pl by (simp add: plain_def)
    also have "\<dots> = w"
      using d Cons.prems False pl by (intro Cons.IH [where n = "n - (8 + length p')"]) (simp_all add: b plain_def)
    finally show ?thesis .
  qed
qed

subsection \<open>Signature boxes\<close>

definition checked :: "(byte list \<Rightarrow> byte list) \<Rightarrow> (byte list \<Rightarrow> byte list \<Rightarrow> byte list \<Rightarrow> bool) \<Rightarrow>
    byte list option \<Rightarrow> byte list \<Rightarrow> byte list \<Rightarrow> byte list \<Rightarrow> byte list \<Rightarrow> bool" where
  "checked sha chk pub span h s prev \<longleftrightarrow> sha span = h \<and> (case pub of None \<Rightarrow> True | Some k \<Rightarrow> chk s k (h @ prev))"

lemma walk_sign_box:
  assumes "data = pre @ span @ sign_box fp final h s @ rest" and "length fp = 8" and "length h = 64" and "length s = 64"
    and "span_start w = length pre"
  shows "\<exists>w'. walk sha chk pub data (length (pre @ span)) w =
      walk sha chk pub data (length (pre @ span @ sign_box fp final h s)) w' \<and>
    w_prev_sig w' = s \<and> span_start w' = length (pre @ span @ sign_box fp final h s) \<and>
    saw_final w' = (saw_final w \<or> final) \<and> length (w_log w') = length (w_log w) + 1 \<and>
    w_failures w' = w_failures w + (if saw_final w then 1 else 0) +
      (if checked sha chk pub span h s (w_prev_sig w) then 0 else 1)"
proof -
  define fb :: byte where "fb = (if final then 1 else 0)"
  have fb: "fb AND 1 \<noteq> 0 \<longleftrightarrow> final" by (simp add: fb_def)
  let ?q = "pre @ span" and ?p = "sign_uuid @ [1, fb, 0, 0] @ fp @ h @ s"
  have sb: "sign_box fp final h s = box ''uuid'' ?p" unfolding fb_def using assms(2-4) by (rule sign_box_box)
  have d: "data = ?q @ box ''uuid'' ?p @ rest" using assms(1) by (simp add: sb)
  have fits: "box_fits ?p" using assms(2-4) by (simp add: box_fits_def)
  have size: "8 + length ?p = RMR_SIGN_BOX_SIZE" using assms(2-4) by (simp add: RMR_SIGN_BOX_SIZE_def)
  have at: "bytes_at data (length ?q + 4) 4 = fourcc ''uuid''" "bytes_at data (length ?q + 8) 16 = sign_uuid"
    by (simp_all add: d bytes_at_def box_def)
  define B where "B = box ''uuid'' ?p"
  have whole: "bytes_at data (length ?q) RMR_SIGN_BOX_SIZE = B"
    unfolding d B_def using bytes_at_mid [of ?q "box ''uuid'' ?p" rest] size by simp
  from at have is_sb: "is_sign_box data (length ?q) (8 + length ?p)"
    using size assms(2-4) by (simp add: is_sign_box_def d RMR_SIGN_BOX_SIZE_def)
  have bx: "B ! 25 = fb" "bytes_at B 36 64 = h" "bytes_at B 100 64 = s" "length (sign_box fp final h s) = 164"
    using assms(2-4) by (simp_all add: B_def box_def bytes_at_def sign_uuid_def be32_def fourcc_def nth_append)
  have span: "bytes_at data (span_start w) (length ?q - span_start w) = span"
    using assms(1,5) by (simp add: bytes_at_def)
  let ?w' = "verify_box sha chk pub data (length ?q) w"
  have "walk sha chk pub data (length ?q) w = walk sha chk pub data (length (pre @ span @ sign_box fp final h s)) ?w'"
    using walk_box [OF d fits] is_sb by (simp add: sb)
  moreover have "w_prev_sig ?w' = s" "span_start ?w' = length (pre @ span @ sign_box fp final h s)"
    "saw_final ?w' = (saw_final w \<or> final)" "length (w_log ?w') = length (w_log w) + 1"
    "w_failures ?w' = w_failures w + (if saw_final w then 1 else 0) +
      (if checked sha chk pub span h s (w_prev_sig w) then 0 else 1)"
    unfolding verify_box_def whole span
    using assms(2-4) by (cases pub; simp add: Let_def bx fb RMR_SIGN_BOX_SIZE_def checked_def)+
  ultimately show ?thesis by blast
qed

subsection \<open>Signed recordings verify\<close>

text \<open>
  What is assumed of the primitives for a key pair: lengths, and that a signature made with
  the secret key verifies with the public one.
\<close>

definition key_pair :: "(byte list \<Rightarrow> byte list) \<Rightarrow> (byte list \<Rightarrow> byte list \<Rightarrow> byte list) \<Rightarrow>
    (byte list \<Rightarrow> byte list \<Rightarrow> byte list \<Rightarrow> bool) \<Rightarrow> rmr_sign_key \<Rightarrow> bool" where
  "key_pair sha edsign chk key \<longleftrightarrow> (\<forall>m. length (sha m) = 64) \<and> (\<forall>m. length (edsign (secret key) m) = 64) \<and>
     (\<forall>m. chk (edsign (secret key) m) (public key) m) \<and> length (fingerprint key) = 8"

text \<open>Spans of boxes, the last of which may be the final one.\<close>

definition recording :: "((string \<times> byte list) list \<times> bool) list \<Rightarrow> bool" where
  "recording xs \<longleftrightarrow> list_all (\<lambda>x. list_all plain (fst x)) xs \<and> list_all (\<lambda>x. \<not> snd x) (butlast xs)"

definition spans_of :: "((string \<times> byte list) list \<times> bool) list \<Rightarrow> (byte list \<times> bool) list" where
  "spans_of xs = map (\<lambda>x. (box_seq (fst x), snd x)) xs"

lemma spans_of_simps [simp]:
  "spans_of [] = []" "spans_of ((bs, f) # xs) = (box_seq bs, f) # spans_of xs"
  by (simp_all add: spans_of_def)

lemma walk_signed_prefix:
  assumes "key_pair sha edsign chk key" and "pub = None \<or> pub = Some (public key)"
    and "recording xs" and "data = pre @ take n (signed_spans sha edsign key prev (spans_of xs))"
    and "span_start w = length pre" and "w_prev_sig w = prev" and "\<not> saw_final w"
  shows "\<exists>k \<le> length xs. \<exists>w'. walk sha chk pub data (length pre) w = w' \<and>
    w_failures w' = w_failures w \<and> length (w_log w') = length (w_log w) + k \<and>
    (saw_final w' \<longrightarrow> span_start w' = length data) \<and> span_start w' \<le> length data \<and>
    (length (signed_spans sha edsign key prev (spans_of xs)) \<le> n \<longrightarrow>
       k = length xs \<and> span_start w' = length data \<and> (saw_final w' \<longleftrightarrow> xs \<noteq> [] \<and> snd (last xs)))"
  using assms(3-7)
proof (induction xs arbitrary: pre n prev w)
  case Nil
  then have "walk sha chk pub data (length pre) w = w" by (subst walk.simps) simp
  then show ?case using Nil by simp
next
  case (Cons x xs)
  obtain bs f where x: "x = (bs, f)" by (cases x)
  let ?span = "box_seq bs" and ?h = "sha (box_seq bs)"
  define s where "s = chain_sig sha edsign (secret key) prev ?span"
  let ?sb = "sign_box (fingerprint key) f ?h s" and ?rest = "signed_spans sha edsign key s (spans_of xs)"
  have lens: "length (fingerprint key) = 8" "length ?h = 64" "length s = 64"
    using assms(1) by (simp_all add: key_pair_def s_def chain_sig_def)
  have plains: "list_all plain bs" and rec: "recording xs" and nf: "xs \<noteq> [] \<Longrightarrow> \<not> f"
    using Cons.prems(1) by (auto simp: recording_def x split: if_splits)
  have data: "data = pre @ take n (?span @ ?sb @ ?rest)"
    using Cons.prems(2) by (simp add: x s_def Let_def)
  have total: "signed_spans sha edsign key prev (spans_of (x # xs)) = ?span @ ?sb @ ?rest"
    by (simp add: x s_def Let_def)
  show ?case
  proof (cases "n < length ?span + 164")
    case True
    let ?p = "sign_uuid @ [1, if f then 1 else 0, 0, 0] @ fingerprint key @ ?h @ s"
    have "?sb = box ''uuid'' ?p" using lens by (rule sign_box_box)
    then have "walk sha chk pub data (length pre) w = w"
      using data True plains lens
      by (intro walk_cut [where n = n and bs = bs and cc = "''uuid''" and p = ?p and rest = ?rest])
        (simp_all add: box_fits_def)
    moreover have "\<not> length (signed_spans sha edsign key prev (spans_of (x # xs))) \<le> n"
      unfolding total using True lens by simp
    moreover have "span_start w \<le> length data" using Cons.prems by simp
    ultimately show ?thesis
      using Cons.prems(5) by (intro exI [of _ 0]) simp
  next
    case False
    let ?n = "n - (length ?span + 164)"
    have d1: "data = pre @ ?span @ ?sb @ take ?n ?rest"
      using data False lens by simp
    then have d2: "data = (pre @ ?span @ ?sb) @ take ?n ?rest" by simp
    have step1: "walk sha chk pub data (length pre) w = walk sha chk pub data (length (pre @ ?span)) w"
      using walk_plain [OF d1 plains] .
    obtain w1 where w1: "walk sha chk pub data (length (pre @ ?span)) w = walk sha chk pub data (length (pre @ ?span @ ?sb)) w1"
      "w_prev_sig w1 = s" "span_start w1 = length (pre @ ?span @ ?sb)" "saw_final w1 = (saw_final w \<or> f)"
      "length (w_log w1) = length (w_log w) + 1"
      "w_failures w1 = w_failures w + (if saw_final w then 1 else 0) +
        (if checked sha chk pub ?span ?h s (w_prev_sig w) then 0 else 1)"
      using walk_sign_box [OF d1 lens Cons.prems(3)] by blast
    have "checked sha chk pub ?span ?h s (w_prev_sig w)"
      using assms(1,2) Cons.prems(4) by (auto simp: checked_def key_pair_def s_def chain_sig_def)
    then have fl: "w_failures w1 = w_failures w" using w1(6) Cons.prems(5) by simp
    show ?thesis
    proof (cases "xs = []")
      case True
      then have dl: "length data = length (pre @ ?span @ ?sb)" using d2 by simp
      have "walk sha chk pub data (length (pre @ ?span @ ?sb)) w1 = w1"
        using dl by (subst walk.simps) simp
      then show ?thesis
        using step1 w1 fl dl Cons.prems(5) True
        by (intro exI [of _ 1]) (simp add: x)
    next
      case F: False
      obtain k w' where "k \<le> length xs" "walk sha chk pub data (length (pre @ ?span @ ?sb)) w1 = w'"
        "w_failures w' = w_failures w1" "length (w_log w') = length (w_log w1) + k"
        "saw_final w' \<longrightarrow> span_start w' = length data" "span_start w' \<le> length data"
        "length ?rest \<le> ?n \<longrightarrow> k = length xs \<and> span_start w' = length data \<and> (saw_final w' \<longleftrightarrow> xs \<noteq> [] \<and> snd (last xs))"
        using Cons.IH [OF rec d2 w1(3,2)] w1(4) Cons.prems(5) nf [OF F] by auto
      then show ?thesis
        unfolding total using step1 w1 fl F False lens
        by (intro exI [of _ "k + 1"]) (auto simp: x)
    qed
  qed
qed

lemma signed_spans_verify:
  assumes "key_pair sha edsign chk key" and "pub = None \<or> pub = Some (public key)" and "recording xs"
  defines "file \<equiv> signed_spans sha edsign key (replicate 64 0) (spans_of xs)"
  shows "let (r, w) = rverify_mp4 sha chk pub (take n file)
    in w_failures w = 0 \<and> r = (if w_box_count w = 0 then 2 else 0) \<and> w_box_count w \<le> length xs \<and>
       (if length file \<le> n then w_box_count w = length xs \<and> (saw_final w \<longleftrightarrow> xs \<noteq> [] \<and> snd (last xs)) else True)"
proof -
  have "take n file = [] @ take n (signed_spans sha edsign key (replicate 64 0) (spans_of xs))" by (simp add: file_def)
  moreover have "span_start walk_start = length []" "w_prev_sig walk_start = replicate 64 0" "\<not> saw_final walk_start"
    "w_failures walk_start = 0" "w_log walk_start = []"
    by (simp_all add: walk_start_def)
  ultimately obtain k w' where w: "k \<le> length xs" "walk sha chk pub (take n file) (length []) walk_start = w'"
    "w_failures w' = 0" "length (w_log w') = k" "saw_final w' \<longrightarrow> span_start w' = length (take n file)"
    "length file \<le> n \<longrightarrow> k = length xs \<and> span_start w' = length (take n file) \<and> (saw_final w' \<longleftrightarrow> xs \<noteq> [] \<and> snd (last xs))"
    using walk_signed_prefix [OF assms(1-3), of "take n file" "[]" n "replicate 64 0" walk_start]
    unfolding file_def by (metis add_0 list.size(3))
  have "walk sha chk pub (take n file) 0 walk_start = w'" using w(2) by simp
  moreover have "\<not> (0 < length (take n file) - span_start w' \<and> saw_final w')" using w(5) by auto
  ultimately show ?thesis
    using w(1,3,4,6) by (simp add: rverify_mp4_def Let_def w_box_count_def del: length_take) auto
qed

text \<open>
  C26. A signed recording verifies, cut off anywhere: whatever prefix of the file is left,
  the verifier reports no failure and exits with 0, or with 2 when no complete signature
  is left; the whole file shows all its signatures, and the closing mark exactly when the
  last span was signed as final.
\<close>

theorem signed_recording_verifies:
  assumes "key_pair sha edsign chk key" and "pub = None \<or> pub = Some (public key)" and "recording xs"
  defines "file \<equiv> signed_spans sha edsign key (replicate 64 0) (spans_of xs)"
  shows "let (r, w) = rverify_mp4 sha chk pub (take n file)
    in w_failures w = 0 \<and> r = (if w_box_count w = 0 then 2 else 0) \<and> w_box_count w \<le> length xs \<and>
       (if length file \<le> n then w_box_count w = length xs \<and> (saw_final w \<longleftrightarrow> xs \<noteq> [] \<and> snd (last xs)) else True)"
  unfolding file_def using assms(1-3) by (rule signed_spans_verify)

text \<open>A stand-in for the primitives, for examples: hashes and signatures of the right length.\<close>

definition demo_sha :: "byte list \<Rightarrow> byte list" where
  "demo_sha m = take 64 (m @ replicate 64 0)"

definition demo_sign :: "byte list \<Rightarrow> byte list \<Rightarrow> byte list" where
  "demo_sign sk m = 7 # take 63 (m @ replicate 63 0)"

definition demo_check :: "byte list \<Rightarrow> byte list \<Rightarrow> byte list \<Rightarrow> bool" where
  "demo_check s pk m \<longleftrightarrow> s = demo_sign pk m"

definition demo_key :: rmr_sign_key where
  "demo_key = \<lparr>secret = [], public = [], fingerprint = replicate 8 5\<rparr>"

lemma demo_key_pair: "key_pair demo_sha demo_sign demo_check demo_key"
  by (simp add: key_pair_def demo_sha_def demo_sign_def demo_check_def demo_key_def min_def)

theorem signed_recording_verifies_witness:
  "fst (rverify_mp4 demo_sha demo_check (Some [])
     (signed_spans demo_sha demo_sign demo_key (replicate 64 0) [(box ''ftyp'' [1], False), (box ''mfra'' [], True)])) = 0"
proof -
  have rec: "recording [([(''ftyp'', [1])], False), ([(''mfra'', [])], True)]"
    by (simp add: recording_def plain_def box_fits_def)
  have spans: "spans_of [([(''ftyp'', [1])], False), ([(''mfra'', [])], True)] = [(box ''ftyp'' [1], False), (box ''mfra'' [], True)]"
    by (simp add: spans_of_def)
  let ?file = "signed_spans demo_sha demo_sign demo_key (replicate 64 0) [(box ''ftyp'' [1], False), (box ''mfra'' [], True)]"
  from signed_recording_verifies [OF demo_key_pair, of "Some []" "[([(''ftyp'', [1])], False), ([(''mfra'', [])], True)]" "length ?file"]
  show ?thesis
    unfolding spans using rec by (simp add: demo_key_def case_prod_beta Let_def del: signed_spans.simps)
qed

subsection \<open>A verified file is a recording of the device\<close>

definition log_spans :: "byte list \<Rightarrow> walk_state \<Rightarrow> byte list list" where
  "log_spans data w = map (\<lambda>l. bytes_at data (ln_pos l - ln_span l) (ln_span l)) (w_log w)"

text \<open>The signature after a sequence of spans; a new file starts from zero bytes.\<close>

definition csig :: "(byte list \<Rightarrow> byte list) \<Rightarrow> (byte list \<Rightarrow> byte list \<Rightarrow> byte list) \<Rightarrow> byte list \<Rightarrow>
    byte list list \<Rightarrow> byte list" where
  "csig sha edsign sk spans = foldl (chain_sig sha edsign sk) (replicate 64 0) spans"

text \<open>The messages a device that made the recordings \<open>recs\<close> has signed.\<close>

definition device_msgs :: "(byte list \<Rightarrow> byte list) \<Rightarrow> (byte list \<Rightarrow> byte list \<Rightarrow> byte list) \<Rightarrow> byte list \<Rightarrow>
    byte list list set \<Rightarrow> byte list set" where
  "device_msgs sha edsign sk recs =
     {m. \<exists>r \<in> recs. \<exists>i < length r. m = sha (r ! i) @ csig sha edsign sk (take i r)}"

text \<open>
  What is assumed of the primitives: fixed lengths; a signature verifies only if the device
  made it, on that message; its signatures on different messages differ and are not zero;
  no two of the spans in question have the same hash.
\<close>

definition unforgeable :: "(byte list \<Rightarrow> byte list) \<Rightarrow> (byte list \<Rightarrow> byte list \<Rightarrow> byte list) \<Rightarrow>
    (byte list \<Rightarrow> byte list \<Rightarrow> byte list \<Rightarrow> bool) \<Rightarrow> rmr_sign_key \<Rightarrow> byte list list set \<Rightarrow> byte list set \<Rightarrow> bool" where
  "unforgeable sha edsign chk key recs spans \<longleftrightarrow>
     (\<forall>m. length (sha m) = 64) \<and>
     (\<forall>s m. chk s (public key) m \<longrightarrow> m \<in> device_msgs sha edsign (secret key) recs \<and> s = edsign (secret key) m) \<and>
     inj_on (edsign (secret key)) (device_msgs sha edsign (secret key) recs) \<and>
     replicate 64 0 \<notin> edsign (secret key) ` device_msgs sha edsign (secret key) recs \<and>
     inj_on sha (\<Union> (set ` recs) \<union> spans)"

lemma csig_snoc [simp]: "csig sha edsign sk (xs @ [x]) = chain_sig sha edsign sk (csig sha edsign sk xs) x"
  by (simp add: csig_def)

lemma csig_take_Suc:
  "i < length r \<Longrightarrow> csig sha edsign sk (take (Suc i) r) = edsign sk (sha (r ! i) @ csig sha edsign sk (take i r))"
  by (simp add: take_Suc_conv_app_nth chain_sig_def)

lemma device_msgI:
  "r \<in> recs \<Longrightarrow> i < length r \<Longrightarrow> sha (r ! i) @ csig sha edsign sk (take i r) \<in> device_msgs sha edsign sk recs"
  by (auto simp: device_msgs_def)

lemma span_in_recs: "r \<in> recs \<Longrightarrow> i < length r \<Longrightarrow> r ! i \<in> \<Union> (set ` recs)"
  using nth_mem by fastforce

lemma csig_prefix_inject:
  assumes "unforgeable sha edsign chk key recs S" and "r \<in> recs" and "r' \<in> recs"
    and "i \<le> length r" and "j \<le> length r'"
    and "csig sha edsign (secret key) (take i r) = csig sha edsign (secret key) (take j r')"
  shows "take i r = take j r'"
  using assms(4-6)
proof (induction i arbitrary: j)
  case 0
  show ?case
  proof (cases j)
    case (Suc k)
    then have "csig sha edsign (secret key) (take j r') \<in> edsign (secret key) ` device_msgs sha edsign (secret key) recs"
      using 0 assms(3) device_msgI [of r' recs k] by (simp add: csig_take_Suc)
    then show ?thesis using 0 assms(1) by (simp add: unforgeable_def csig_def)
  qed simp
next
  case (Suc i)
  let ?D = "device_msgs sha edsign (secret key) recs" and ?c = "csig sha edsign (secret key)"
  have m: "sha (r ! i) @ ?c (take i r) \<in> ?D" using Suc.prems assms(2) by (intro device_msgI) simp_all
  have ti: "?c (take (Suc i) r) = edsign (secret key) (sha (r ! i) @ ?c (take i r))"
    using Suc.prems by (simp add: csig_take_Suc)
  show ?case
  proof (cases j)
    case 0
    then have "replicate 64 0 \<in> edsign (secret key) ` ?D"
      using Suc.prems(3) ti m by (metis csig_def foldl_Nil image_eqI take0)
    then show ?thesis using assms(1) by (simp add: unforgeable_def)
  next
    case (Suc k)
    have k: "k < length r'" using Suc.prems Suc by simp
    have m': "sha (r' ! k) @ ?c (take k r') \<in> ?D" using k assms(3) by (intro device_msgI)
    have "?c (take (Suc k) r') = edsign (secret key) (sha (r' ! k) @ ?c (take k r'))"
      using k by (simp add: csig_take_Suc)
    then have "sha (r ! i) @ ?c (take i r) = sha (r' ! k) @ ?c (take k r')"
      using Suc.prems(3) ti m m' assms(1) unfolding Suc unforgeable_def by (metis inj_onD)
    moreover have "length (sha (r ! i)) = length (sha (r' ! k))" using assms(1) by (simp add: unforgeable_def)
    ultimately have "sha (r ! i) = sha (r' ! k)" "?c (take i r) = ?c (take k r')" by simp_all
    moreover have "r ! i \<in> \<Union> (set ` recs)" by (rule span_in_recs [OF assms(2)]) (use Suc.prems in simp)
    moreover have "r' ! k \<in> \<Union> (set ` recs)" by (rule span_in_recs [OF assms(3) k])
    ultimately have "r ! i = r' ! k" "take i r = take k r'"
      using assms(1) Suc.IH [of k] Suc.prems k by (auto simp: unforgeable_def dest: inj_onD)
    then show ?thesis using Suc Suc.prems k by (simp add: take_Suc_conv_app_nth)
  qed
qed

text \<open>A chain of valid signatures follows one of the recordings.\<close>

inductive valid_chain :: "(byte list \<Rightarrow> byte list) \<Rightarrow> (byte list \<Rightarrow> byte list \<Rightarrow> byte list \<Rightarrow> bool) \<Rightarrow> byte list \<Rightarrow>
    byte list list \<Rightarrow> byte list \<Rightarrow> bool" for sha chk pk where
  vc_Nil: "valid_chain sha chk pk [] (replicate 64 0)"
| vc_snoc: "valid_chain sha chk pk spans prev \<Longrightarrow> chk s pk (sha x @ prev) \<Longrightarrow> valid_chain sha chk pk (spans @ [x]) s"

lemma valid_chain_prefix:
  assumes "valid_chain sha chk (public key) spans s" and "unforgeable sha edsign chk key recs S" and "set spans \<subseteq> S"
    and "spans \<noteq> []"
  shows "\<exists>r \<in> recs. length spans \<le> length r \<and> spans = take (length spans) r \<and> s = csig sha edsign (secret key) spans"
  using assms(1,3,4)
proof (induction rule: valid_chain.induct)
  case vc_Nil
  then show ?case by simp
next
  case (vc_snoc spans prev s x)
  let ?c = "csig sha edsign (secret key)"
  obtain r i where ri: "r \<in> recs" "i < length r" "sha x @ prev = sha (r ! i) @ ?c (take i r)" "s = edsign (secret key) (sha x @ prev)"
    using vc_snoc.hyps(2) assms(2) unfolding unforgeable_def device_msgs_def by blast
  moreover have "length (sha x) = length (sha (r ! i))" using assms(2) by (simp add: unforgeable_def)
  ultimately have eq: "sha x = sha (r ! i)" "prev = ?c (take i r)" by simp_all
  have "x \<in> \<Union> (set ` recs) \<union> S" "r ! i \<in> \<Union> (set ` recs) \<union> S" using vc_snoc.prems span_in_recs [OF ri(1,2)] by auto
  then have x: "x = r ! i" using eq(1) assms(2) by (auto simp: unforgeable_def dest: inj_onD)
  have "spans = take i r"
  proof (cases "spans = []")
    case True
    then have "prev = replicate 64 0" using vc_snoc.hyps(1) by (auto elim: valid_chain.cases)
    then have "?c (take 0 r) = ?c (take i r)" using eq(2) by (simp add: csig_def)
    then have "take 0 r = take i r" using ri by (intro csig_prefix_inject [OF assms(2)]) simp_all
    then show ?thesis using True by simp
  next
    case False
    then obtain r' where r': "r' \<in> recs" "length spans \<le> length r'" "spans = take (length spans) r'" "prev = ?c spans"
      using vc_snoc.IH vc_snoc.prems by auto
    then have "take (length spans) r' = take i r"
      using ri eq(2) by (intro csig_prefix_inject [OF assms(2)]) simp_all
    then show ?thesis using r'(3) by simp
  qed
  then have "spans @ [x] = take (Suc i) r" using ri(2) x by (simp add: take_Suc_conv_app_nth)
  moreover have "length (spans @ [x]) = Suc i" using calculation ri(2) by (metis Suc_leI length_take min_absorb2)
  moreover have "s = ?c (spans @ [x])" using ri(4) eq(2) \<open>spans = take i r\<close> by (simp add: chain_sig_def)
  ultimately show ?case using ri(1,2) by (metis Suc_leI)
qed

text \<open>What the walk has established when it has counted no failure.\<close>

definition walk_inv :: "(byte list \<Rightarrow> byte list) \<Rightarrow> (byte list \<Rightarrow> byte list \<Rightarrow> byte list \<Rightarrow> bool) \<Rightarrow> byte list \<Rightarrow>
    byte list \<Rightarrow> nat \<Rightarrow> walk_state \<Rightarrow> bool" where
  "walk_inv sha chk pk data pos w \<longleftrightarrow> span_start w \<le> pos \<and>
     (w_failures w = 0 \<longrightarrow> valid_chain sha chk pk (log_spans data w) (w_prev_sig w) \<and>
       (\<exists>bs. length bs = w_box_count w \<and> list_all (\<lambda>b. length b = RMR_SIGN_BOX_SIZE) bs \<and>
          take (span_start w) data = concat (map2 (@) (log_spans data w) bs)))"

lemma verify_box_inv:
  assumes "walk_inv sha chk pk data pos w" and "pos + RMR_SIGN_BOX_SIZE \<le> length data"
  shows "walk_inv sha chk pk data (pos + RMR_SIGN_BOX_SIZE) (verify_box sha chk (Some pk) data pos w)"
proof -
  let ?w' = "verify_box sha chk (Some pk) data pos w"
  let ?span = "bytes_at data (span_start w) (pos - span_start w)" and ?box = "bytes_at data pos RMR_SIGN_BOX_SIZE"
  have ss: "span_start w \<le> pos" using assms(1) by (simp add: walk_inv_def)
  have start: "span_start ?w' = pos + RMR_SIGN_BOX_SIZE" by (simp add: verify_box_def Let_def)
  have spans: "log_spans data ?w' = log_spans data w @ [?span]"
    using ss by (simp add: verify_box_def Let_def log_spans_def)
  have count: "w_box_count ?w' = w_box_count w + 1" by (simp add: verify_box_def Let_def w_box_count_def)
  show ?thesis
  proof (cases "w_failures ?w' = 0")
    case True
    then have f: "w_failures w = 0" "sha ?span = bytes_at ?box 36 64"
        "chk (bytes_at ?box 100 64) pk (sha ?span @ w_prev_sig w)"
      by (auto simp: verify_box_def Let_def split: if_splits)
    have "w_prev_sig ?w' = bytes_at ?box 100 64" by (simp add: verify_box_def Let_def)
    then have vc: "valid_chain sha chk pk (log_spans data ?w') (w_prev_sig ?w')"
      using assms(1) f by (auto simp: spans walk_inv_def intro: vc_snoc)
    obtain bs where bs: "length bs = w_box_count w" "list_all (\<lambda>b. length b = RMR_SIGN_BOX_SIZE) bs"
        "take (span_start w) data = concat (map2 (@) (log_spans data w) bs)"
      using assms(1) f(1) by (auto simp: walk_inv_def)
    have "take (pos + RMR_SIGN_BOX_SIZE) data = take (span_start w) data @ ?span @ ?box"
    proof -
      obtain d where d: "pos = span_start w + d" using ss le_Suc_ex by blast
      show ?thesis by (simp add: d bytes_at_def take_add)
    qed
    moreover have "length (log_spans data w) = length bs" by (simp add: bs log_spans_def w_box_count_def)
    ultimately have "take (span_start ?w') data = concat (map2 (@) (log_spans data ?w') (bs @ [?box]))"
      by (simp add: start spans bs(3))
    moreover have "length ?box = RMR_SIGN_BOX_SIZE" using assms(2) by (simp add: bytes_at_def)
    ultimately show ?thesis
      using vc bs count by (auto simp: walk_inv_def start intro!: exI [of _ "bs @ [?box]"])
  next
    case False
    then show ?thesis by (simp add: walk_inv_def start)
  qed
qed

lemma walk_inv_walk:
  assumes "walk_inv sha chk pk data pos w"
  shows "\<exists>pos'. walk_inv sha chk pk data pos' (walk sha chk (Some pk) data pos w)"
  using assms
proof (induction "length data - pos" arbitrary: pos w rule: less_induct)
  case less
  show ?case
  proof (cases "pos + 8 \<le> length data \<and> box_at data pos \<noteq> None")
    case True
    then obtain n where n: "box_at data pos = Some n" by auto
    let ?w = "if is_sign_box data pos n then verify_box sha chk (Some pk) data pos w else w"
    have "8 \<le> n" using n by (auto simp: box_at_def Let_def split: if_splits)
    then have "length data - (pos + n) < length data - pos" using True by linarith
    moreover have "walk_inv sha chk pk data (pos + n) ?w"
    proof (cases "is_sign_box data pos n")
      case True
      then show ?thesis using verify_box_inv [OF less.prems] by (simp add: is_sign_box_def)
    next
      case False
      then show ?thesis using less.prems by (simp add: walk_inv_def)
    qed
    moreover have "walk sha chk (Some pk) data pos w = walk sha chk (Some pk) data (pos + n) ?w"
      using True n by (subst walk.simps) simp
    ultimately show ?thesis using less.hyps by metis
  next
    case False
    then have "walk sha chk (Some pk) data pos w = w" by (subst walk.simps) auto
    then show ?thesis using less.prems by auto
  qed
qed


text \<open>A device that has made one recording, of a single span.\<close>

definition demo_span :: "byte list" where
  "demo_span = box ''ftyp'' []"

definition demo_only :: "byte list \<Rightarrow> byte list \<Rightarrow> byte list \<Rightarrow> bool" where
  "demo_only s pk m \<longleftrightarrow> m = demo_sha demo_span @ replicate 64 0 \<and> s = demo_sign pk m"

definition demo_file :: "byte list" where
  "demo_file = signed_spans demo_sha demo_sign demo_key (replicate 64 0) [(demo_span, False)]"

lemma demo_file_verified:
  "fst (rverify_mp4 demo_sha demo_only (Some []) demo_file) = 0 \<and>
   log_spans demo_file (snd (rverify_mp4 demo_sha demo_only (Some []) demo_file)) = [demo_span]"
  by code_simp


subsection \<open>What the signatures do not cover\<close>

lemma walk_signed_unmarked:
  assumes "key_pair sha edsign chk key" and "list_all (\<lambda>x. list_all plain (fst x) \<and> \<not> snd x) xs"
    and "data = pre @ signed_spans sha edsign key prev (spans_of xs) @ rest"
    and "span_start w = length pre" and "w_prev_sig w = prev" and "\<not> saw_final w"
  shows "\<exists>w'. walk sha chk (Some (public key)) data (length pre) w =
      walk sha chk (Some (public key)) data (length (pre @ signed_spans sha edsign key prev (spans_of xs))) w' \<and>
    w_failures w' = w_failures w \<and> length (w_log w') = length (w_log w) + length xs \<and> \<not> saw_final w'"
  using assms(2-6)
proof (induction xs arbitrary: pre prev w)
  case Nil
  then show ?case by auto
next
  case (Cons x xs)
  obtain bs where x: "x = (bs, False)" using Cons.prems(1) by (cases x) auto
  let ?span = "box_seq bs" and ?h = "sha (box_seq bs)"
  define s where "s = chain_sig sha edsign (secret key) prev ?span"
  let ?sb = "sign_box (fingerprint key) False ?h s" and ?more = "signed_spans sha edsign key s (spans_of xs)"
  have lens: "length (fingerprint key) = 8" "length ?h = 64" "length s = 64"
    using assms(1) by (simp_all add: key_pair_def s_def chain_sig_def)
  have d1: "data = pre @ ?span @ ?sb @ (?more @ rest)"
    using Cons.prems(2) by (simp add: x s_def Let_def)
  then have d2: "data = (pre @ ?span @ ?sb) @ ?more @ rest" by simp
  have plains: "list_all plain bs" using Cons.prems(1) by (simp add: x)
  obtain w1 where w1: "walk sha chk (Some (public key)) data (length (pre @ ?span)) w =
        walk sha chk (Some (public key)) data (length (pre @ ?span @ ?sb)) w1"
      "w_prev_sig w1 = s" "span_start w1 = length (pre @ ?span @ ?sb)" "saw_final w1 = (saw_final w \<or> False)"
      "length (w_log w1) = length (w_log w) + 1"
      "w_failures w1 = w_failures w + (if saw_final w then 1 else 0) +
        (if checked sha chk (Some (public key)) ?span ?h s (w_prev_sig w) then 0 else 1)"
    using walk_sign_box [OF d1 lens Cons.prems(3)] by blast
  have "checked sha chk (Some (public key)) ?span ?h s (w_prev_sig w)"
    using assms(1) Cons.prems(4) by (simp add: checked_def key_pair_def s_def chain_sig_def)
  then have "w_failures w1 = w_failures w" using w1(6) Cons.prems(5) by simp
  moreover obtain w2 where "walk sha chk (Some (public key)) data (length (pre @ ?span @ ?sb)) w1 =
        walk sha chk (Some (public key)) data (length ((pre @ ?span @ ?sb) @ ?more)) w2"
      "w_failures w2 = w_failures w1" "length (w_log w2) = length (w_log w1) + length xs" "\<not> saw_final w2"
    using Cons.IH [OF _ d2 w1(3,2)] w1(4) Cons.prems(1,5) by auto
  moreover have "walk sha chk (Some (public key)) data (length pre) w = walk sha chk (Some (public key)) data (length (pre @ ?span)) w"
    using walk_plain [OF d1 plains] .
  ultimately show ?case
    using w1(1,5) by (intro exI [of _ w2]) (simp add: x s_def Let_def)
qed

lemma signed_spans_append:
  "signed_spans sha edsign key prev (xs @ [(span, f)]) = signed_spans sha edsign key prev xs @ span @
     sign_box (fingerprint key) f (sha span)
       (chain_sig sha edsign (secret key) (foldl (chain_sig sha edsign (secret key)) prev (map fst xs)) span)"
  by (induction xs arbitrary: prev) (auto simp: Let_def)

lemma sign_box_unmark:
  "length fp = 8 \<Longrightarrow> length h = 64 \<Longrightarrow> length s = 64 \<Longrightarrow> (sign_box fp True h s)[25 := 0] = sign_box fp False h s"
  by (simp add: sign_box_def sign_uuid_def fourcc_def)

text \<open>
  C27. The closing mark is not covered by any signature. In a cleanly closed recording the
  flags byte of the last box can be cleared and further boxes appended; with the device's
  public key the verifier then still exits with 0 and reports the file as verified.
\<close>

theorem closing_mark_not_signed:
  fixes xs :: "((string \<times> byte list) list \<times> bool) list"
  assumes "key_pair sha edsign chk key" and "list_all (\<lambda>x. list_all plain (fst x) \<and> \<not> snd x) xs"
    and "list_all plain bs" and "list_all plain tail"
  defines "file \<equiv> signed_spans sha edsign key (replicate 64 0) (spans_of (xs @ [(bs, True)]))"
  shows "let (r, w) = rverify_mp4 sha chk (Some (public key)) (file[length file - 139 := 0] @ box_seq tail)
    in r = 0 \<and> w_box_count w = length xs + 1 \<and> \<not> saw_final w"
proof -
  define sp where "sp = spans_of xs"
  define prev where "prev = foldl (chain_sig sha edsign (secret key)) (replicate 64 0) (map fst sp)"
  define s where "s = chain_sig sha edsign (secret key) prev (box_seq bs)"
  let ?a = "signed_spans sha edsign key (replicate 64 0) sp" and ?h = "sha (box_seq bs)"
  have lens: "length (fingerprint key) = 8" "length ?h = 64" "length s = 64"
    using assms(1) by (simp_all add: key_pair_def s_def chain_sig_def)
  have app: "spans_of (xs @ [(bs, f)]) = sp @ [(box_seq bs, f)]" for f by (simp add: spans_of_def sp_def)
  have file_eq: "file = (?a @ box_seq bs) @ sign_box (fingerprint key) True ?h s"
    unfolding file_def app signed_spans_append by (simp add: s_def prev_def)
  have idx: "length file - 139 = length (?a @ box_seq bs) + 25" using lens by (simp add: file_eq)
  have "file[length file - 139 := 0] = file[length (?a @ box_seq bs) + 25 := 0]" by (simp only: idx)
  also have "\<dots> = (?a @ box_seq bs) @ (sign_box (fingerprint key) True ?h s)[25 := 0]"
    unfolding file_eq list_update_append by simp
  also have "\<dots> = (?a @ box_seq bs) @ sign_box (fingerprint key) False ?h s"
    using sign_box_unmark [OF lens] by simp
  also have "\<dots> = signed_spans sha edsign key (replicate 64 0) (spans_of (xs @ [(bs, False)]))"
    unfolding app signed_spans_append by (simp add: s_def prev_def)
  finally have edited: "file[length file - 139 := 0] = signed_spans sha edsign key (replicate 64 0) (spans_of (xs @ [(bs, False)]))" .
  let ?data = "file[length file - 139 := 0] @ box_seq tail"
  have ok: "list_all (\<lambda>x. list_all plain (fst x) \<and> \<not> snd x) (xs @ [(bs, False)])" using assms(2,3) by simp
  have d: "?data = [] @ signed_spans sha edsign key (replicate 64 0) (spans_of (xs @ [(bs, False)])) @ box_seq tail"
    by (simp add: edited)
  obtain w where w: "walk sha chk (Some (public key)) ?data (length []) walk_start =
        walk sha chk (Some (public key)) ?data (length ([] @ signed_spans sha edsign key (replicate 64 0) (spans_of (xs @ [(bs, False)])))) w"
      "w_failures w = w_failures walk_start" "length (w_log w) = length (w_log walk_start) + length (xs @ [(bs, False)])" "\<not> saw_final w"
    using walk_signed_unmarked [OF assms(1) ok d, of walk_start] by (auto simp: walk_start_def)
  have "?data = signed_spans sha edsign key (replicate 64 0) (spans_of (xs @ [(bs, False)])) @ box_seq tail @ []"
    by (simp add: edited)
  from walk_plain [OF this assms(4)]
  have "walk sha chk (Some (public key)) ?data (length (signed_spans sha edsign key (replicate 64 0) (spans_of (xs @ [(bs, False)])))) w =
      walk sha chk (Some (public key)) ?data (length ?data) w"
    by (simp add: edited)
  also have "\<dots> = w" by (subst walk.simps) simp
  finally have "walk sha chk (Some (public key)) ?data 0 walk_start = w" using w(1) by simp
  moreover have "w_failures w = 0" "length (w_log w) = length xs + 1" "w_log w \<noteq> []"
    using w(2,3) by (auto simp: walk_start_def)
  ultimately show ?thesis
    using w(4) by (simp add: rverify_mp4_def Let_def w_box_count_def)
qed

theorem closing_mark_not_signed_witness:
  "fst (rverify_mp4 demo_sha demo_check (Some [])
     ((signed_spans demo_sha demo_sign demo_key (replicate 64 0) [(box ''ftyp'' [], True)])[33 := 0] @ box ''free'' [1, 2, 3])) = 0"
proof -
  let ?f = "signed_spans demo_sha demo_sign demo_key (replicate 64 0) [(box ''ftyp'' [], True)]"
  have len: "length ?f - 139 = 33"
    using demo_key_pair by (simp add: Let_def key_pair_def chain_sig_def)
  have "list_all plain [(''ftyp'', [])]" "list_all plain [(''free'', [1, 2, 3])]" by (simp_all add: plain_def box_fits_def)
  from closing_mark_not_signed [OF demo_key_pair, of "[]", OF _ this]
  show ?thesis
    using len by (simp add: demo_key_def case_prod_beta Let_def del: signed_spans.simps)
qed

end
