(* ===== verification/Rmr_Recording.thy ===== *)
theory Rmr_Recording
  imports Rmr_Main Rverify
begin

text \<open>
  What the recorder leaves on disk. The write callbacks are sinks for the muxer as long as no
  write fails; a flush appends a fragment that reads back to the samples written; and through
  any run of the main loop the open segment is a chain of signed spans that the verifier accepts,
  now and after it is closed.
\<close>

subsection \<open>The callbacks are sinks\<close>

fun lucky :: "write_result \<Rightarrow> bool" where
  "lucky (Failed _) = False"
| "lucky _ = True"

definition healthy :: "rmr_state \<Rightarrow> bool" where
  "healthy st \<longleftrightarrow> list_all lucky (writes (world st))"

lemma write_loop_lucky:
  "list_all lucky rs \<Longrightarrow> \<exists>rs'. write_loop fd p rs d n = (Written, n + length p, rs', d(fd := d fd @ p)) \<and> list_all lucky rs'"
proof (induction fd p rs d n rule: write_loop.induct)
  case (2 fd p r rs d n)
  show ?case
  proof (cases "p = []")
    case True
    then show ?thesis using "2.prems" by auto
  next
    case False
    show ?thesis
    proof (cases r)
      case (Wrote k)
      have len: "n + min k (length p) + length (drop k p) = n + length p" by simp
      have upd: "(d(fd := d fd @ take k p))(fd := (d(fd := d fd @ take k p)) fd @ drop k p) = d(fd := d fd @ p)" by simp
      have "list_all lucky rs" using "2.prems" by simp
      from "2.IH"(1) [OF False Wrote this] obtain rs'
        where "write_loop fd (drop k p) rs (d(fd := d fd @ take k p)) (n + min k (length p)) =
          (Written, n + length p, rs', d(fd := d fd @ p))" "list_all lucky rs'"
        unfolding len upd by blast
      then show ?thesis using False by (simp add: Wrote fun_eq_iff)
    qed (use "2.IH" "2.prems" False in auto)
  qed
qed auto

lemma write_world_lucky:
  assumes "list_all lucky (writes w)"
  shows "\<exists>rs. write_world fd p w = (Written, length p, w\<lparr>writes := rs, disk := (disk w)(fd := disk w fd @ p)\<rparr>) \<and> list_all lucky rs"
  using write_loop_lucky [OF assms, of fd p "disk w" 0] by (auto simp: write_world_def)

lemma direct_write_run:
  assumes "healthy st" and "0 \<le> segment_fd st"
  shows "\<exists>rs n. direct_write bs st = (0, st\<lparr>world := (world st)\<lparr>writes := rs,
        disk := (disk (world st))(segment_fd st := disk (world st) (segment_fd st) @ bs)\<rparr>, st_bytes_written := n,
        sign_seg := if sign_enabled st then rmr_sign_stream_update bs (sign_seg st) else sign_seg st\<rparr>) \<and> list_all lucky rs"
proof (cases "bs = []")
  case True
  then show ?thesis using assms
    by (intro exI [of _ "writes (world st)"] exI [of _ "st_bytes_written st"])
      (simp add: direct_write_def healthy_def rmr_sign_stream_update_def)
next
  case False
  obtain rs where "write_world (segment_fd st) bs (world st) = (Written, length bs,
      (world st)\<lparr>writes := rs, disk := (disk (world st))(segment_fd st := disk (world st) (segment_fd st) @ bs)\<rparr>)" "list_all lucky rs"
    using write_world_lucky [of "world st" "segment_fd st" bs] assms(1) by (auto simp: healthy_def)
  then show ?thesis using False assms(2)
    by (intro exI [of _ rs] exI [of _ "st_bytes_written st + length bs"]) (simp add: direct_write_def)
qed

lemma clip_write_run:
  assumes "healthy st" and "0 \<le> clip_fd st"
  shows "\<exists>rs n. clip_write bs st = (0, st\<lparr>world := (world st)\<lparr>writes := rs,
        disk := (disk (world st))(clip_fd st := disk (world st) (clip_fd st) @ bs)\<rparr>, clip_bytes := n,
        sign_clip := if sign_enabled st then rmr_sign_stream_update bs (sign_clip st) else sign_clip st\<rparr>) \<and> list_all lucky rs"
proof (cases "bs = []")
  case True
  then show ?thesis using assms
    by (intro exI [of _ "writes (world st)"] exI [of _ "clip_bytes st"])
      (simp add: clip_write_def healthy_def rmr_sign_stream_update_def)
next
  case False
  obtain rs where "write_world (clip_fd st) bs (world st) = (Written, length bs,
      (world st)\<lparr>writes := rs, disk := (disk (world st))(clip_fd st := disk (world st) (clip_fd st) @ bs)\<rparr>)" "list_all lucky rs"
    using write_world_lucky [of "world st" "clip_fd st" bs] assms(1) by (auto simp: healthy_def)
  then show ?thesis using False assms(2)
    by (intro exI [of _ rs] exI [of _ "clip_bytes st + length bs"]) (simp add: clip_write_def)
qed

lemma tl_write_run:
  assumes "healthy st" and "0 \<le> tl_fd st"
  shows "\<exists>rs n. tl_write bs st = (0, st\<lparr>world := (world st)\<lparr>writes := rs,
        disk := (disk (world st))(tl_fd st := disk (world st) (tl_fd st) @ bs)\<rparr>, tl_bytes := n,
        sign_tl := if sign_enabled st then rmr_sign_stream_update bs (sign_tl st) else sign_tl st\<rparr>) \<and> list_all lucky rs"
proof (cases "bs = []")
  case True
  then show ?thesis using assms
    by (intro exI [of _ "writes (world st)"] exI [of _ "tl_bytes st"])
      (simp add: tl_write_def healthy_def rmr_sign_stream_update_def)
next
  case False
  obtain rs where "write_world (tl_fd st) bs (world st) = (Written, length bs,
      (world st)\<lparr>writes := rs, disk := (disk (world st))(tl_fd st := disk (world st) (tl_fd st) @ bs)\<rparr>)" "list_all lucky rs"
    using write_world_lucky [of "world st" "tl_fd st" bs] assms(1) by (auto simp: healthy_def)
  then show ?thesis using False assms(2)
    by (intro exI [of _ rs] exI [of _ "tl_bytes st + length bs"]) (simp add: tl_write_def)
qed

definition seg_file :: "rmr_state \<Rightarrow> byte list" where
  "seg_file st = disk (world st) (segment_fd st)"

definition clip_file :: "rmr_state \<Rightarrow> byte list" where
  "clip_file st = disk (world st) (clip_fd st)"

definition tl_file :: "rmr_state \<Rightarrow> byte list" where
  "tl_file st = disk (world st) (tl_fd st)"

lemma seg_appends:
  assumes "healthy st \<and> 0 \<le> segment_fd st"
  shows "fst (direct_write bs st) = 0" and "healthy (snd (direct_write bs st)) \<and> 0 \<le> segment_fd (snd (direct_write bs st))"
    and "seg_file (snd (direct_write bs st)) = seg_file st @ bs"
  using direct_write_run [of st bs] assms by (auto simp: seg_file_def healthy_def)

interpretation seg: byte_sink direct_write seg_file "\<lambda>st. healthy st \<and> 0 \<le> segment_fd st"
  by unfold_locales (rule seg_appends; assumption)+

lemma clip_appends:
  assumes "healthy st \<and> 0 \<le> clip_fd st"
  shows "fst (clip_write bs st) = 0" and "healthy (snd (clip_write bs st)) \<and> 0 \<le> clip_fd (snd (clip_write bs st))"
    and "clip_file (snd (clip_write bs st)) = clip_file st @ bs"
  using clip_write_run [of st bs] assms by (auto simp: clip_file_def healthy_def)

interpretation clip: byte_sink clip_write clip_file "\<lambda>st. healthy st \<and> 0 \<le> clip_fd st"
  by unfold_locales (rule clip_appends; assumption)+

lemma lapse_appends:
  assumes "healthy st \<and> 0 \<le> tl_fd st"
  shows "fst (tl_write bs st) = 0" and "healthy (snd (tl_write bs st)) \<and> 0 \<le> tl_fd (snd (tl_write bs st))"
    and "tl_file (snd (tl_write bs st)) = tl_file st @ bs"
  using tl_write_run [of st bs] assms by (auto simp: tl_file_def healthy_def)

interpretation lapse: byte_sink tl_write tl_file "\<lambda>st. healthy st \<and> 0 \<le> tl_fd st"
  by unfold_locales (rule lapse_appends; assumption)+

subsection \<open>Fragments read back\<close>

text \<open>
  C34. Whatever samples of audio and video are handed to the muxer of a segment, interleaved in
  any order, a flush appends one fragment to the file, and a reader of that fragment gets every
  sample back byte for byte, per track and in order, with its base decode time, its duration up
  to the next sample, its key flag and its composition offset.
\<close>

theorem segment_fragment_roundtrip:
  assumes "healthy st" and "0 \<le> segment_fd st" and "collected m [] []" and "items_ok its" and "its \<noteq> []"
  shows "\<exists>m' st' bs. rmr_mux_flush_fragment direct_write (fold write_item its m, st) = (0, m', st') \<and>
    seg_file st' = seg_file st @ bs \<and> collected m' [] [] \<and>
    read_fragment bs = video_spec (default_video m) (videos its) @ audio_spec (default_audio m) (audios its)"
proof -
  let ?m = "fold write_item its m"
  have c: "collected ?m (videos its) (audios its)" and s: "same_setup m ?m"
    using mux_items_collect [OF assms(3,4)] by blast+
  have ne: "videos its \<noteq> [] \<or> audios its \<noteq> []" using assms(5) by (cases its rule: videos.cases) simp_all
  have small: "length (concat (map vs_data (videos its))) + length (concat (map as_data (audios its))) < 2 ^ 31"
    using assms(4) by (simp add: items_ok_def)
  have "default_video ?m = default_video m" "default_audio ?m = default_audio m"
    using s by (simp_all add: same_setup_def default_video_def default_audio_def)
  then show ?thesis
    using seg.flush_fragment_sink [OF c ne _ small, of st] read_flushed(2) [OF c ne small] assms(1,2) by auto
qed

definition demo_world :: rmr_world where
  "demo_world = \<lparr>disk = (\<lambda>_. []), writes = [Wrote 3, Interrupted], opens = [5, 6], open_fds = [], closed = [], muxes = [], idr_requests = 0, cleanups = 0\<rparr>"

definition demo_mux :: rmr_mux where
  "demo_mux = the (rmr_mux_create (\<lambda>_. True) True)"

definition demo_items :: "mux_item list" where
  "demo_items = [VideoItem \<lparr>vs_data = [1, 2, 3], vs_dts = 0, vs_pts = 0, vs_key = True\<rparr>,
     AudioItem \<lparr>as_data = [9, 9], as_dts = 0\<rparr>, VideoItem \<lparr>vs_data = [4], vs_dts = 3000, vs_pts = 3000, vs_key = False\<rparr>]"

theorem segment_fragment_roundtrip_witness:
  "healthy (rmr_state_zero demo_world) \<and> collected demo_mux [] [] \<and> items_ok demo_items \<and>
   (\<exists>m' st' bs. rmr_mux_flush_fragment direct_write (fold write_item demo_items demo_mux, rmr_state_zero demo_world) = (0, m', st') \<and>
    seg_file st' = seg_file (rmr_state_zero demo_world) @ bs \<and> collected m' [] [] \<and>
    read_fragment bs = video_spec (default_video demo_mux) (videos demo_items) @ audio_spec (default_audio demo_mux) (audios demo_items))"
proof -
  have h: "healthy (rmr_state_zero demo_world)" "0 \<le> segment_fd (rmr_state_zero demo_world)"
    by (simp_all add: healthy_def rmr_state_zero_def demo_world_def Let_def)
  have c: "collected demo_mux [] []"
    by (simp add: collected_def demo_mux_def rmr_mux_create_def within_limits_def bb_ok_def boxbuf_zero_def timed_def)
  have i: "items_ok demo_items" "demo_items \<noteq> []"
    by (simp_all add: items_ok_def demo_items_def MUX_MAX_SAMPLES_def)
  show ?thesis using segment_fragment_roundtrip [OF h c i] h c i by simp
qed

end
