(* ===== verification/Rmr_Signed.thy ===== *)
theory Rmr_Signed
  imports Rmr_Recording
begin

text \<open>
  The signed files of the recorder, through any run of its main loop. Between two iterations every
  open segment, clip and timelapse file is a chain of signed spans of boxes; a closed file ends
  with a span marked final. One locale says what the three write callbacks have in common and
  carries the muxer's operations and the signature boxes over to each of them.
\<close>

subsection \<open>Chains of spans\<close>

definition file_of :: "prims \<Rightarrow> rmr_sign_key \<Rightarrow> ((string \<times> byte list) list \<times> bool) list \<Rightarrow> byte list" where
  "file_of P key xs = signed_spans (sha512 P) (ed25519 P) key (replicate 64 0) (spans_of xs)"

definition sig_of :: "prims \<Rightarrow> rmr_sign_key \<Rightarrow> ((string \<times> byte list) list \<times> bool) list \<Rightarrow> byte list" where
  "sig_of P key xs = csig (sha512 P) (ed25519 P) (secret key) (map fst (spans_of xs))"

definition stream_at :: "rmr_sign_key \<Rightarrow> byte list \<Rightarrow> byte list \<Rightarrow> rmr_sign_stream" where
  "stream_at key prev h = \<lparr>ss_key = Some key, ss_hash = h, prev_sig = prev, span_bytes = length h, emitting = False\<rparr>"

text \<open>A file with signed spans, followed by the boxes of a span that is not signed yet.\<close>

definition spanned :: "prims \<Rightarrow> rmr_sign_key \<Rightarrow> (string \<times> byte list) list \<Rightarrow> rmr_sign_stream \<Rightarrow> byte list \<Rightarrow> bool" where
  "spanned P key bs ss f \<longleftrightarrow> (\<exists>xs. recording xs \<and> list_all (\<lambda>x. \<not> snd x) xs \<and> list_all plain bs \<and>
     f = file_of P key xs @ box_seq bs \<and> ss = stream_at key (sig_of P key xs) (box_seq bs))"

definition complete :: "prims \<Rightarrow> rmr_sign_key \<Rightarrow> byte list \<Rightarrow> bool" where
  "complete P key f \<longleftrightarrow> (\<exists>xs. recording xs \<and> xs \<noteq> [] \<and> snd (last xs) \<and> f = file_of P key xs)"

lemma file_of_snoc:
  "file_of P key (xs @ [(bs, final)]) = file_of P key xs @ box_seq bs @ sign_box (fingerprint key) final (sha512 P (box_seq bs))
     (chain_sig (sha512 P) (ed25519 P) (secret key) (sig_of P key xs) (box_seq bs))"
  by (simp add: file_of_def spans_of_def sig_of_def csig_def signed_spans_append)

lemma sig_of_snoc:
  "sig_of P key (xs @ [(bs, final)]) = chain_sig (sha512 P) (ed25519 P) (secret key) (sig_of P key xs) (box_seq bs)"
  by (simp add: sig_of_def spans_of_def)

lemma recording_snoc:
  "recording xs \<Longrightarrow> list_all (\<lambda>x. \<not> snd x) xs \<Longrightarrow> list_all plain bs \<Longrightarrow> recording (xs @ [(bs, final)])"
  by (simp add: recording_def)

lemma box_seq_append [simp]: "box_seq (as @ bs) = box_seq as @ box_seq bs"
  by (simp add: box_seq_def)

lemma box_seq_Nil_iff [simp]: "box_seq bs = [] \<longleftrightarrow> bs = []"
  by (cases bs) (auto simp: box_seq_def box_def be32_def)

lemma spanned_begin: "spanned P key [] (rmr_sign_stream_begin key) []"
  by (auto simp: spanned_def recording_def file_of_def sig_of_def csig_def spans_of_def stream_at_def rmr_sign_stream_begin_def
      intro!: exI [of _ "[]"])

subsection \<open>Muxers within their limits\<close>

text \<open>Video samples have at most \<open>2\<^sup>2\<^sup>0\<close> bytes, audio samples at most 8192.\<close>

definition mux_ok :: "rmr_mux \<Rightarrow> bool" where
  "mux_ok m \<longleftrightarrow> within_limits m \<and> length (v_data m) \<le> length (v_samples m) * 2 ^ 20 \<and>
     length (a_data m) \<le> length (a_samples m) * 8192"

lemma mux_ok_idle: "mux_ok m \<Longrightarrow> v_samples m = [] \<and> a_samples m = [] \<Longrightarrow> collected m [] []"
  by (simp add: mux_ok_def collected_def timed_def)

lemma mux_ok_collected: "collected m [] [] \<Longrightarrow> mux_ok m"
  by (simp add: mux_ok_def collected_def)

lemma mux_ok_flushed: "mux_ok m \<Longrightarrow> mux_ok (flushed m)"
  by (auto simp: mux_ok_def flushed_def patch_last_audio_def patch_last_video_def within_limits_def Let_def)

lemma fragment_plain:
  assumes "mux_ok m"
  shows "\<exists>bs. fragment_bytes m = box_seq bs \<and> list_all plain bs"
proof (cases "v_samples m = [] \<and> a_samples m = []")
  case True
  then show ?thesis by (intro exI [of _ "[]"]) (simp add: fragment_bytes_def)
next
  case False
  let ?n = "next_seq m"
  obtain p where p: "fragment_moof ?n = box ''moof'' p" by (simp add: fragment_moof_def moof_bytes_def)
  have "8 + length p = moof_len ?n"
    using length_fragment_moof [of ?n] by (simp add: p)
  then have "box_fits p"
    using moof_len_le [of m] assms by (simp add: mux_ok_def box_fits_def)
  moreover have "length (v_samples m) * 2 ^ 20 + length (a_samples m) * 8192 \<le> 2048 * 2 ^ 20 + 2048 * 8192"
    using assms by (intro add_mono mult_right_mono) (simp_all add: mux_ok_def within_limits_def MUX_MAX_SAMPLES_def)
  then have "box_fits (v_data m @ a_data m)"
    using assms by (simp add: mux_ok_def box_fits_def)
  ultimately show ?thesis
    using False p by (intro exI [of _ "[(''moof'', p), (''mdat'', v_data m @ a_data m)]"])
      (auto simp: fragment_bytes_def mdat_box_def plain_def)
qed

lemma buf_append_data: "buf_append ok buf cap bs = Some (d, c) \<Longrightarrow> d = buf @ bs"
  by (auto simp: buf_append_def Let_def split: if_splits option.splits)

lemma write_video_ok:
  assumes "mux_ok m" and "length (vs_data v) \<le> 2 ^ 20"
  shows "mux_ok (snd (rmr_mux_write_video v m))"
  using assms
  by (auto simp: rmr_mux_write_video_def Let_def mux_ok_def within_limits_def dest!: buf_append_data split: option.splits)

lemma write_audio_ok:
  assumes "mux_ok m" and "length (as_data a) \<le> 8192"
  shows "mux_ok (snd (rmr_mux_write_audio a m))"
  using assms
  by (auto simp: rmr_mux_write_audio_def Let_def mux_ok_def within_limits_def dest!: buf_append_data split: option.splits)

subsection \<open>What the write callbacks have in common\<close>

text \<open>
  A callback appends to the file behind one descriptor of the state and feeds one signing stream.
  \<open>touches\<close> relates a state to those that differ from it only in what such writes change.
\<close>

locale signed_sink =
  fixes write_fn :: "rmr_state write_fn" and fd :: "rmr_state \<Rightarrow> int" and stream :: "rmr_state \<Rightarrow> rmr_sign_stream"
    and stream_upd :: "(rmr_sign_stream \<Rightarrow> rmr_sign_stream) \<Rightarrow> rmr_state \<Rightarrow> rmr_state"
    and touches :: "rmr_state \<Rightarrow> rmr_state \<Rightarrow> bool"
  assumes touches_refl: "touches st st"
    and touches_trans: "touches st st' \<Longrightarrow> touches st' st'' \<Longrightarrow> touches st st''"
    and touches_same: "touches st st' \<Longrightarrow> fd st' = fd st \<and> sign_enabled st' = sign_enabled st \<and> (healthy st \<longrightarrow> healthy st')"
    and upd_touches: "touches st (stream_upd f st)"
    and upd_stream: "stream (stream_upd f st) = f (stream st)"
    and upd_world: "world (stream_upd f st) = world st"
    and written: "healthy st \<Longrightarrow> 0 \<le> fd st \<Longrightarrow> sign_enabled st \<Longrightarrow> \<exists>st'. write_fn bs st = (0, st') \<and> touches st st' \<and>
      disk (world st') (fd st) = disk (world st) (fd st) @ bs \<and> stream st' = rmr_sign_stream_update bs (stream st)"
begin

lemma span_sink:
  "byte_sink write_fn (\<lambda>st. ss_hash (stream st)) (\<lambda>st. healthy st \<and> 0 \<le> fd st \<and> sign_enabled st \<and> touches st0 st \<and>
     (\<exists>h. stream st = stream_at key prev h \<and> disk (world st) (fd st) = F @ h))"
proof (unfold_locales, goal_cases)
  case (1 st bs)
  then show ?case using written [of st bs] by auto
next
  case (2 st bs)
  then obtain h where h: "stream st = stream_at key prev h" "disk (world st) (fd st) = F @ h" by blast
  obtain st' where st': "write_fn bs st = (0, st')" "touches st st'" "disk (world st') (fd st) = F @ h @ bs"
      "stream st' = rmr_sign_stream_update bs (stream st)"
    using written [of st bs] 2 h by auto
  then have "stream st' = stream_at key prev (h @ bs)"
    by (simp add: h stream_at_def rmr_sign_stream_update_def)
  then show ?case using 2 st' touches_same [OF st'(2)] touches_trans [OF _ st'(2)] by auto
next
  case (3 st bs)
  then obtain h where "stream st = stream_at key prev h" by blast
  then show ?case using written [of st bs] 3 by (auto simp: stream_at_def rmr_sign_stream_update_def)
qed

text \<open>A run of the muxer that appends boxes to an open span.\<close>

lemma appends_span:
  assumes "spanned P key as (stream st) (disk (world st) (fd st))" and "healthy st \<and> 0 \<le> fd st \<and> sign_enabled st"
    and run: "\<And>valid. byte_sink write_fn (\<lambda>st. ss_hash (stream st)) valid \<Longrightarrow> valid st \<Longrightarrow>
      \<exists>m' st' bs. r = (0, m', st') \<and> valid st' \<and> ss_hash (stream st') = ss_hash (stream st) @ box_seq bs \<and> list_all plain bs \<and> Q m' bs"
  shows "\<exists>m' st' bs. r = (0, m', st') \<and> touches st st' \<and> spanned P key (as @ bs) (stream st') (disk (world st') (fd st')) \<and> Q m' bs"
proof -
  obtain xs where xs: "recording xs" "list_all (\<lambda>x. \<not> snd x) xs" "list_all plain as"
    "disk (world st) (fd st) = file_of P key xs @ box_seq as" "stream st = stream_at key (sig_of P key xs) (box_seq as)"
    using assms(1) by (auto simp: spanned_def)
  let ?valid = "\<lambda>st'. healthy st' \<and> 0 \<le> fd st' \<and> sign_enabled st' \<and> touches st st' \<and>
    (\<exists>h. stream st' = stream_at key (sig_of P key xs) h \<and> disk (world st') (fd st') = file_of P key xs @ h)"
  have "?valid st" using assms(2) touches_refl xs(4,5) by simp
  from run [OF span_sink this] obtain m' st' bs where
    r: "r = (0, m', st')" "?valid st'" "ss_hash (stream st') = ss_hash (stream st) @ box_seq bs" "list_all plain bs" "Q m' bs"
    by blast
  then obtain h where h: "stream st' = stream_at key (sig_of P key xs) h" "disk (world st') (fd st') = file_of P key xs @ h" by blast
  have "h = box_seq (as @ bs)" using r(3) h(1) xs(5) by (simp add: stream_at_def)
  then have "spanned P key (as @ bs) (stream st') (disk (world st') (fd st'))"
    unfolding spanned_def using h xs(1-3) r(4) by (intro exI [of _ xs]) simp
  then show ?thesis using r by blast
qed

lemma start_span:
  assumes "spanned P key [] (stream st) (disk (world st) (fd st))" and "healthy st \<and> 0 \<le> fd st \<and> sign_enabled st"
    and "configured asc m" and "collected m [] []"
  shows "\<exists>m' st' bs. rmr_mux_start asc write_fn (m, st) = (0, m', st') \<and> touches st st' \<and>
    spanned P key ([] @ bs) (stream st') (disk (world st') (fd st')) \<and> mux_ok m'"
proof (rule appends_span [OF assms(1,2)], goal_cases)
  case (1 valid)
  have ok: "bb_ok (m_box m)" using assms(4) by (simp add: collected_def within_limits_def)
  from byte_sink.start_sink [OF 1(1) assms(3) ok 1(2)] obtain b n st' bs where
    st': "rmr_mux_start asc write_fn (m, st) = (0, m\<lparr>m_box := b, bytes_written := n\<rparr>, st')" "bb_ok b" "valid st'"
      "ss_hash (stream st') = ss_hash (stream st) @ bs" "init_segment m bs"
    by blast
  obtain p where p: "bs = box_seq [(''ftyp'', ftyp_payload), (''moov'', p)]" "length p \<le> 6000"
    using st'(5) by (auto simp: init_segment_def)
  have "list_all plain [(''ftyp'', ftyp_payload), (''moov'', p)]"
    using p(2) by (simp add: plain_def box_fits_def ftyp_payload_def)
  moreover have "mux_ok (m\<lparr>m_box := b, bytes_written := n\<rparr>)"
    using assms(4) st'(2) by (simp add: mux_ok_def collected_def within_limits_def timed_def)
  ultimately show ?case using st' p(1) by blast
qed

lemma flush_span:
  assumes "spanned P key [] (stream st) (disk (world st) (fd st))" and "healthy st \<and> 0 \<le> fd st \<and> sign_enabled st" and "mux_ok m"
  shows "\<exists>m' st' bs. rmr_mux_flush_fragment write_fn (m, st) = (0, m', st') \<and> touches st st' \<and>
    spanned P key ([] @ bs) (stream st') (disk (world st') (fd st')) \<and> mux_ok m'"
proof (rule appends_span [OF assms(1,2)], goal_cases)
  case (1 valid)
  have f: "mux_ok (flushed m)" by (rule mux_ok_flushed [OF assms(3)])
  then have "within_limits (flushed m)" by (simp add: mux_ok_def)
  from byte_sink.flush_any_sink [OF 1(1) this 1(2)] fragment_plain [OF f] show ?case
    using f mux_ok_collected by (smt (verit))
qed

lemma finalize_span:
  assumes "spanned P key [] (stream st) (disk (world st) (fd st))" and "healthy st \<and> 0 \<le> fd st \<and> sign_enabled st" and "mux_ok m"
  shows "\<exists>m' st' bs. rmr_mux_finalize write_fn (m, st) = (0, m', st') \<and> touches st st' \<and>
    spanned P key ([] @ bs) (stream st') (disk (world st') (fd st')) \<and> bs \<noteq> []"
proof (rule appends_span [OF assms(1,2)], goal_cases)
  case (1 valid)
  have f: "mux_ok (flushed m)" by (rule mux_ok_flushed [OF assms(3)])
  then have lim: "within_limits (flushed m)" by (simp add: mux_ok_def)
  obtain bs where bs: "(if v_samples m = [] \<and> a_samples m = [] then [] else fragment_bytes (flushed m)) = box_seq bs" "list_all plain bs"
    using fragment_plain [OF f] by (cases "v_samples m = [] \<and> a_samples m = []") (fastforce intro: that [of "[]"])+
  have mfra: "mfra_bytes = box_seq [(''mfra'', box ''mfro'' (be32 24 @ be32 0))]" by (simp add: mfra_bytes_def)
  obtain m' st' where "rmr_mux_finalize write_fn (m, st) = (0, m', st')" "valid st'"
      "ss_hash (stream st') = ss_hash (stream st) @ box_seq (bs @ [(''mfra'', box ''mfro'' (be32 24 @ be32 0))])"
    using byte_sink.finalize_any_sink [OF 1(1) lim _ 1(2)] mux_ok_idle [OF assms(3)] unfolding bs(1) mfra by auto
  moreover have "list_all plain (bs @ [(''mfra'', box ''mfro'' (be32 24 @ be32 0))])"
    using bs(2) by (simp add: plain_def box_fits_def)
  ultimately show ?case by blast
qed

text \<open>A signature box closes the span; marked final it completes the file.\<close>

lemma emit_span:
  fixes final :: bool
  assumes "spanned P key bs (stream st) (disk (world st) (fd st))" and "healthy st \<and> 0 \<le> fd st \<and> sign_enabled st"
  defines "st' \<equiv> snd (rmr_sign_stream_emit (sha512 P) (ed25519 P) stream stream_upd final write_fn st)"
  shows "touches st st'" and "\<not> final \<Longrightarrow> spanned P key [] (stream st') (disk (world st') (fd st'))"
    and "final \<Longrightarrow> bs \<noteq> [] \<Longrightarrow> complete P key (disk (world st') (fd st'))"
proof -
  obtain xs where xs: "recording xs" "list_all (\<lambda>x. \<not> snd x) xs" "list_all plain bs"
    "disk (world st) (fd st) = file_of P key xs @ box_seq bs" "stream st = stream_at key (sig_of P key xs) (box_seq bs)"
    using assms(1) by (auto simp: spanned_def)
  let ?ys = "xs @ [(bs, final)]"
  have new: "touches st st' \<and> disk (world st') (fd st') = file_of P key ?ys \<and> stream st' = stream_at key (sig_of P key ?ys) []"
    if "bs \<noteq> []"
  proof -
    define st1 where "st1 = stream_upd (\<lambda>ss. ss\<lparr>emitting := True\<rparr>) st"
    have st1: "touches st st1" "world st1 = world st" "stream st1 = (stream st)\<lparr>emitting := True\<rparr>"
      by (simp_all add: st1_def upd_touches upd_world upd_stream)
    define box where "box = sign_box (fingerprint key) final (sha512 P (box_seq bs)) (sig_of P key ?ys)"
    obtain st2 where st2: "write_fn box st1 = (0, st2)" "touches st1 st2" "disk (world st2) (fd st1) = disk (world st1) (fd st1) @ box"
        "stream st2 = rmr_sign_stream_update box (stream st1)"
      using written [of st1 box] touches_same [OF st1(1)] assms(2) by auto
    have "stream st2 = stream st1" using st2(4) st1(3) by (simp add: rmr_sign_stream_update_def)
    moreover have "st' = stream_upd (\<lambda>ss. ss\<lparr>emitting := False, prev_sig := sig_of P key ?ys, ss_hash := [], span_bytes := 0\<rparr>) st2"
      using that st2(1) unfolding st'_def rmr_sign_stream_emit_def
      by (simp add: xs(5) stream_at_def box_def sig_of_snoc chain_sig_def flip: st1_def)
    ultimately show ?thesis
      using st1 st2 xs touches_same [OF st1(1)] touches_same [OF st2(2)] touches_trans [OF st1(1) st2(2)] touches_trans [OF _ upd_touches]
        touches_same [OF upd_touches]
      by (simp add: upd_stream upd_world stream_at_def file_of_snoc box_def sig_of_snoc)
  qed
  have old: "st' = st" if "bs = []"
    using that by (simp add: st'_def rmr_sign_stream_emit_def xs(5) stream_at_def)
  have rec: "recording ?ys" using xs(1-3) by (rule recording_snoc)
  show "touches st st'" using new old touches_refl by (cases "bs = []") auto
  show "spanned P key [] (stream st') (disk (world st') (fd st'))" if "\<not> final"
  proof (cases "bs = []")
    case True
    then show ?thesis using old assms(1) by simp
  next
    case False
    then show ?thesis using new [OF False] rec xs(2) that by (auto simp: spanned_def intro!: exI [of _ ?ys])
  qed
  show "complete P key (disk (world st') (fd st'))" if "final" "bs \<noteq> []"
    using new rec that by (auto simp: complete_def intro!: exI [of _ ?ys])
qed

lemma flush_emit:
  assumes "spanned P key [] (stream st) (disk (world st) (fd st))" and "healthy st \<and> 0 \<le> fd st \<and> sign_enabled st" and "mux_ok m"
  shows "\<exists>m' st1. rmr_mux_flush_fragment write_fn (m, st) = (0, m', st1) \<and> mux_ok m' \<and> sign_enabled st1 \<and>
    (let st2 = snd (rmr_sign_stream_emit (sha512 P) (ed25519 P) stream stream_upd False write_fn st1)
     in touches st st2 \<and> spanned P key [] (stream st2) (disk (world st2) (fd st2)))"
proof -
  obtain m' st1 bs where f: "rmr_mux_flush_fragment write_fn (m, st) = (0, m', st1)" "touches st st1"
      "spanned P key bs (stream st1) (disk (world st1) (fd st1))" "mux_ok m'"
    using flush_span [OF assms] by auto
  have env: "healthy st1 \<and> 0 \<le> fd st1 \<and> sign_enabled st1" using assms(2) touches_same [OF f(2)] by simp
  show ?thesis
    using f env emit_span(1,2) [OF f(3) env, where final = False] touches_trans [OF f(2)] by (auto simp: Let_def)
qed

lemma finalize_emit:
  assumes "spanned P key [] (stream st) (disk (world st) (fd st))" and "healthy st \<and> 0 \<le> fd st \<and> sign_enabled st" and "mux_ok m"
  shows "\<exists>m' st1. rmr_mux_finalize write_fn (m, st) = (0, m', st1) \<and> sign_enabled st1 \<and>
    (let st2 = snd (rmr_sign_stream_emit (sha512 P) (ed25519 P) stream stream_upd True write_fn st1)
     in touches st st2 \<and> complete P key (disk (world st2) (fd st2)))"
proof -
  obtain m' st1 bs where f: "rmr_mux_finalize write_fn (m, st) = (0, m', st1)" "touches st st1"
      "spanned P key bs (stream st1) (disk (world st1) (fd st1))" "bs \<noteq> []"
    using finalize_span [OF assms] by auto
  have env: "healthy st1 \<and> 0 \<le> fd st1 \<and> sign_enabled st1" using assms(2) touches_same [OF f(2)] by simp
  show ?thesis
    using f env emit_span(1,3) [OF f(3) env, where final = True] touches_trans [OF f(2)] by (auto simp: Let_def)
qed

text \<open>The caller stores the muxer in the state, by \<open>g\<close>, before the span is signed.\<close>

lemma store_emit:
  assumes "touches st0 st" and "spanned P key bs (stream st) (disk (world st) (fd st))" and "healthy st0 \<and> 0 \<le> fd st0 \<and> sign_enabled st0"
    and "touches (g st0) (g st)" and "stream (g st) = stream st" and "world (g st) = world st" and "fd (g st) = fd st"
    and "sign_enabled (g st) = sign_enabled st"
  shows "sign_enabled (g st) \<and> (let st' = snd (rmr_sign_stream_emit (sha512 P) (ed25519 P) stream stream_upd False write_fn (g st))
    in touches (g st0) st' \<and> spanned P key [] (stream st') (disk (world st') (fd st')))"
proof -
  have env: "healthy (g st) \<and> 0 \<le> fd (g st) \<and> sign_enabled (g st)"
    using assms(3,6-8) touches_same [OF assms(1)] by (simp add: healthy_def)
  have "spanned P key bs (stream (g st)) (disk (world (g st)) (fd (g st)))" using assms(2,5-7) by simp
  from emit_span(1,2) [OF this env, where final = False] show ?thesis
    using env touches_trans [OF assms(4)] by (auto simp: Let_def)
qed

end

text \<open>The three callbacks differ in a descriptor, a counter and a stream of the state.\<close>

definition touched :: "(rmr_state \<Rightarrow> int) \<Rightarrow> ((nat \<Rightarrow> nat) \<Rightarrow> rmr_state \<Rightarrow> rmr_state) \<Rightarrow>
    ((rmr_sign_stream \<Rightarrow> rmr_sign_stream) \<Rightarrow> rmr_state \<Rightarrow> rmr_state) \<Rightarrow> rmr_state \<Rightarrow> rmr_state \<Rightarrow> bool" where
  "touched fd count_upd stream_upd st st' \<longleftrightarrow> (\<exists>rs d n ss.
     st' = stream_upd (\<lambda>_. ss) (count_upd (\<lambda>_. n) (st\<lparr>world := (world st)\<lparr>writes := rs, disk := (disk (world st))(fd st := d)\<rparr>\<rparr>)) \<and>
     (healthy st \<longrightarrow> list_all lucky rs))"

lemma sink_of_fields:
  assumes worlds: "\<And>f st. world (cu f st) = world st" "\<And>f st. world (su f st) = world st"
    and fds: "\<And>f st. fd (cu f st) = fd st" "\<And>f st. fd (su f st) = fd st" "\<And>w st. fd (st\<lparr>world := w\<rparr>) = fd st"
    and signs: "\<And>f st. sign_enabled (cu f st) = sign_enabled st" "\<And>f st. sign_enabled (su f st) = sign_enabled st"
    and streams: "\<And>f st. stream (su f st) = f (stream st)" "\<And>f st. stream (cu f st) = stream st" "\<And>w st. stream (st\<lparr>world := w\<rparr>) = stream st"
    and comm: "\<And>f g st. cu f (su g st) = su g (cu f st)" "\<And>f w st. (cu f st)\<lparr>world := w\<rparr> = cu f (st\<lparr>world := w\<rparr>)"
      "\<And>f w st. (su f st)\<lparr>world := w\<rparr> = su f (st\<lparr>world := w\<rparr>)"
    and twice: "\<And>f g st. cu f (cu g st) = cu (\<lambda>x. f (g x)) st" "\<And>f g st. su f (su g st) = su (\<lambda>x. f (g x)) st"
    and same: "\<And>st. cu (\<lambda>_. n_bytes st) st = st" "\<And>f st. su (\<lambda>_. f (stream st)) st = su f st" "\<And>st. su (\<lambda>ss. ss) st = st"
    and run: "\<And>st bs. healthy st \<Longrightarrow> 0 \<le> fd st \<Longrightarrow> sign_enabled st \<Longrightarrow> \<exists>rs n. write_fn bs st =
      (0, su (\<lambda>_. rmr_sign_stream_update bs (stream st)) (cu (\<lambda>_. n) (st\<lparr>world := (world st)\<lparr>writes := rs,
        disk := (disk (world st))(fd st := disk (world st) (fd st) @ bs)\<rparr>\<rparr>))) \<and> list_all lucky rs"
  shows "signed_sink write_fn fd stream su (touched fd cu su)"
proof (unfold_locales, goal_cases)
  have upd: "touched fd cu su st (su f st)" for st f
    unfolding touched_def
    by (rule exI [of _ "writes (world st)"], rule exI [of _ "disk (world st) (fd st)"], rule exI [of _ "n_bytes st"],
        rule exI [of _ "f (stream st)"]) (simp add: same healthy_def)
  case (1 st)
  show ?case using upd [of st "\<lambda>ss. ss"] by (simp add: same)
  case (4 st f)
  show ?case by (rule upd)
next
  case (2 st st' st'')
  then obtain rs d n ss rs' d' n' ss' where
    st': "st' = su (\<lambda>_. ss) (cu (\<lambda>_. n) (st\<lparr>world := (world st)\<lparr>writes := rs, disk := (disk (world st))(fd st := d)\<rparr>\<rparr>))"
      "healthy st \<longrightarrow> list_all lucky rs" and
    st'': "st'' = su (\<lambda>_. ss') (cu (\<lambda>_. n') (st'\<lparr>world := (world st')\<lparr>writes := rs', disk := (disk (world st'))(fd st' := d')\<rparr>\<rparr>))"
      "healthy st' \<longrightarrow> list_all lucky rs'"
    by (auto simp: touched_def)
  have "st'' = su (\<lambda>_. ss') (cu (\<lambda>_. n') (st\<lparr>world := (world st)\<lparr>writes := rs', disk := (disk (world st))(fd st := d')\<rparr>\<rparr>))"
    by (simp add: st' st'' fds worlds comm twice)
  moreover have "healthy st \<longrightarrow> list_all lucky rs'" using st' st''(2) by (simp add: healthy_def worlds)
  ultimately show ?case unfolding touched_def by blast
next
  case (3 st st')
  then show ?case by (auto simp: touched_def fds worlds signs healthy_def)
next
  case (7 st bs)
  obtain rs n where w: "write_fn bs st = (0, su (\<lambda>_. rmr_sign_stream_update bs (stream st)) (cu (\<lambda>_. n) (st\<lparr>world := (world st)\<lparr>writes := rs,
        disk := (disk (world st))(fd st := disk (world st) (fd st) @ bs)\<rparr>\<rparr>)))" "list_all lucky rs"
    using run [OF 7] by blast
  let ?st = "cu (\<lambda>_. n) (st\<lparr>world := (world st)\<lparr>writes := rs, disk := (disk (world st))(fd st := disk (world st) (fd st) @ bs)\<rparr>\<rparr>)"
  have "touched fd cu su st (su (\<lambda>_. rmr_sign_stream_update bs (stream st)) ?st)"
    unfolding touched_def using w(2) by blast
  then show ?case unfolding w(1) by (simp add: worlds streams)
qed (simp_all add: worlds streams)

interpretation seg_chain: signed_sink direct_write segment_fd sign_seg sign_seg_update "touched segment_fd st_bytes_written_update sign_seg_update"
  by (rule sink_of_fields [where n_bytes = st_bytes_written]) (use direct_write_run in \<open>fastforce+\<close>)

interpretation clip_chain: signed_sink clip_write clip_fd sign_clip sign_clip_update "touched clip_fd clip_bytes_update sign_clip_update"
  by (rule sink_of_fields [where n_bytes = clip_bytes]) (use clip_write_run in \<open>fastforce+\<close>)

interpretation tl_chain: signed_sink tl_write tl_fd sign_tl sign_tl_update "touched tl_fd tl_bytes_update sign_tl_update"
  by (rule sink_of_fields [where n_bytes = tl_bytes]) (use tl_write_run in \<open>fastforce+\<close>)

subsection \<open>The files of the recorder\<close>

text \<open>
  A file slot is a muxer, a descriptor and a signing stream. An idle slot has the descriptor -1;
  the file of a busy one is a chain of signed spans. \<open>W\<close> are the descriptors that are not the
  recorder's, \<open>cl\<close> the files closed before it started.
\<close>

type_synonym slot = "rmr_mux option \<times> int \<times> rmr_sign_stream"

definition open_view :: "prims \<Rightarrow> rmr_sign_key \<Rightarrow> rmr_world \<Rightarrow> slot \<Rightarrow> bool" where
  "open_view P key w v \<longleftrightarrow> (case v of (None, fd, _) \<Rightarrow> fd = -1
     | (Some m, fd, ss) \<Rightarrow> 0 \<le> fd \<and> mux_ok m \<and> spanned P key [] ss (disk w fd))"

definition slot_fds :: "slot list \<Rightarrow> int list" where
  "slot_fds vs = filter (\<lambda>fd. 0 \<le> fd) (map (\<lambda>v. fst (snd v)) vs)"

definition slots_ok :: "prims \<Rightarrow> rmr_sign_key \<Rightarrow> int set \<Rightarrow> byte list list \<Rightarrow> rmr_world \<Rightarrow> slot list \<Rightarrow> bool" where
  "slots_ok P key W cl w vs \<longleftrightarrow> list_all (open_view P key w) vs \<and> distinct (slot_fds vs) \<and> set (slot_fds vs) \<inter> W = {} \<and>
     set (open_fds w) = W \<union> set (slot_fds vs) \<and> (\<exists>fs. closed w = cl @ fs \<and> list_all (\<lambda>f. f = [] \<or> complete P key f) fs)"

lemma slot_fds_simps [simp]:
  "slot_fds [] = []" "slot_fds (v # vs) = (if 0 \<le> fst (snd v) then fst (snd v) # slot_fds vs else slot_fds vs)"
  by (simp_all add: slot_fds_def)

lemma slots_perm:
  assumes "mset vs = mset vs'"
  shows "slots_ok P key W cl w vs \<longleftrightarrow> slots_ok P key W cl w vs'"
proof -
  have "mset (slot_fds vs) = mset (slot_fds vs')" using assms by (simp add: slot_fds_def)
  then have "set (slot_fds vs) = set (slot_fds vs')" "distinct (slot_fds vs) = distinct (slot_fds vs')"
    by (auto dest: mset_eq_setD mset_eq_imp_distinct_iff)
  moreover have "list_all (open_view P key w) vs = list_all (open_view P key w) vs'"
    using mset_eq_setD [OF assms] by (simp add: list_all_iff)
  ultimately show ?thesis by (simp add: slots_ok_def)
qed

lemma open_view_frame:
  "open_view P key w v \<Longrightarrow> (0 \<le> fst (snd v) \<Longrightarrow> disk w' (fst (snd v)) = disk w (fst (snd v))) \<Longrightarrow> open_view P key w' v"
  by (auto simp: open_view_def split: prod.splits option.splits)

lemma list_view_frame:
  assumes "list_all (open_view P key w) vs" and "\<And>fd. fd \<in> set (slot_fds vs) \<Longrightarrow> disk w' fd = disk w fd"
  shows "list_all (open_view P key w') vs"
  using assms by (induction vs) (auto intro: open_view_frame)

lemma slots_okD:
  assumes "slots_ok P key W cl w ((mo, fd, ss) # vs)"
  shows "list_all (open_view P key w) vs" and "distinct (slot_fds vs)" and "set (slot_fds vs) \<inter> W = {}"
    and "0 \<le> fd \<Longrightarrow> fd \<notin> set (slot_fds vs) \<and> fd \<notin> W \<and> set (open_fds w) = insert fd (W \<union> set (slot_fds vs))"
    and "\<not> 0 \<le> fd \<Longrightarrow> set (open_fds w) = W \<union> set (slot_fds vs)"
    and "\<exists>fs. closed w = cl @ fs \<and> list_all (\<lambda>f. f = [] \<or> complete P key f) fs"
  using assms by (auto simp: slots_ok_def split: if_splits)

lemma head_write:
  assumes "slots_ok P key W cl w ((mo, fd, ss) # vs)" and "0 \<le> fd"
    and "open_fds w' = open_fds w" and "closed w' = closed w" and "disk w' = (disk w)(fd := d)" and "open_view P key w' (mo', fd, ss')"
  shows "slots_ok P key W cl w' ((mo', fd, ss') # vs)"
proof -
  note old = slots_okD [OF assms(1)]
  have "disk w' x = disk w x" if "x \<in> set (slot_fds vs)" for x using that old(4) assms(2) by (auto simp: assms(5))
  then have "list_all (open_view P key w') vs" by (rule list_view_frame [OF old(1)])
  then show ?thesis using old(2-4,6) assms(2,6) by (simp add: slots_ok_def assms(3,4))
qed

lemma head_close:
  assumes "slots_ok P key W cl w ((mo, fd, ss) # vs)" and "0 \<le> fd"
    and "open_fds w' = open_fds w" and "closed w' = closed w" and "disk w' = (disk w)(fd := d)" and "complete P key (disk w' fd)"
  shows "slots_ok P key W cl (close_fd fd w') ((None, -1, ss') # vs)"
proof -
  note old = slots_okD [OF assms(1)]
  have "disk (close_fd fd w') x = disk w x" if "x \<in> set (slot_fds vs)" for x
    using that old(4) assms(2) by (auto simp: assms(5) close_fd_def)
  then have "list_all (open_view P key (close_fd fd w')) vs" by (rule list_view_frame [OF old(1)])
  moreover have "set (open_fds (close_fd fd w')) = W \<union> set (slot_fds vs)"
    using old(4) assms(2) by (auto simp: close_fd_def assms(3))
  moreover have "closed (close_fd fd w') = closed w @ [disk w' fd]" using assms(2) by (simp add: close_fd_def assms(4))
  moreover have "open_view P key (close_fd fd w') (None, -1, ss')" by (simp add: open_view_def)
  ultimately show ?thesis using old(2,3,6) assms(6) by (auto simp: slots_ok_def)
qed

lemma fresh_fd_fresh: "fresh_fd fd used \<notin> set used"
proof -
  have "x \<in> set used \<Longrightarrow> x \<le> foldr max used 0" for x :: int by (induction used) auto
  from this [of "foldr max used 0 + 1"] show ?thesis by (auto simp: fresh_fd_def)
qed

lemma fresh_fd_nonneg: "0 \<le> fd \<Longrightarrow> 0 \<le> fresh_fd fd used"
proof -
  have "0 \<le> foldr max used (0::int)" by (induction used) auto
  then show "0 \<le> fd \<Longrightarrow> 0 \<le> fresh_fd fd used" by (simp add: fresh_fd_def)
qed

lemma open_segment_opens:
  assumes "open_segment w = (fd, w')"
  shows "writes w' = writes w \<and> closed w' = closed w \<and> muxes w' = muxes w \<and>
    (if 0 \<le> fd then open_fds w' = fd # open_fds w \<and> disk w' = (disk w)(fd := []) \<and> fd \<notin> set (open_fds w)
     else open_fds w' = open_fds w \<and> disk w' = disk w)"
proof (cases "opens w")
  case (Cons e es)
  then show ?thesis
    using assms fresh_fd_fresh [of e "open_fds w"] fresh_fd_nonneg [of e "open_fds w"]
    by (auto simp: open_segment_def Let_def split: if_splits)
qed (use assms in \<open>auto simp: open_segment_def\<close>)

lemma head_open:
  assumes "slots_ok P key W cl w ((None, fd0, ss) # vs)" and "open_segment w = (fd, w1)" and "0 \<le> fd"
    and "open_fds w' = open_fds w1" and "closed w' = closed w1" and "disk w' = (disk w1)(fd := d)" and "open_view P key w' (mo', fd, ss')"
  shows "slots_ok P key W cl w' ((mo', fd, ss') # vs)"
proof -
  note old = slots_okD [OF assms(1)]
  have o: "closed w1 = closed w" "open_fds w1 = fd # open_fds w" "disk w1 = (disk w)(fd := [])" "fd \<notin> set (open_fds w)"
    using open_segment_opens [OF assms(2)] assms(3) by auto
  have "fd0 = -1" using assms(1) by (simp add: slots_ok_def open_view_def)
  then have fds: "set (open_fds w) = W \<union> set (slot_fds vs)" using old(5) by simp
  then have fd: "fd \<notin> set (slot_fds vs)" "fd \<notin> W" using o(4) by auto
  then have "disk w' x = disk w x" if "x \<in> set (slot_fds vs)" for x using that by (auto simp: assms(6) o(3))
  then have "list_all (open_view P key w') vs" by (rule list_view_frame [OF old(1)])
  moreover have "set (open_fds w') = W \<union> set (slot_fds ((mo', fd, ss') # vs))"
    using assms(3) by (simp add: assms(4) o(2) fds)
  ultimately show ?thesis using assms(3,7) fd old(2,3,6) by (simp add: slots_ok_def assms(5) o(1))
qed

text \<open>A descriptor that was opened and is closed again unused leaves an empty file.\<close>

lemma open_closed_again:
  assumes "slots_ok P key W cl w vs" and "open_segment w = (fd, w1)" and "0 \<le> fd" and "open_fds w' = open_fds w1" and "closed w' = closed w1"
    and "disk w' = disk w1"
  shows "slots_ok P key W cl (close_fd fd w') vs"
proof -
  have o: "closed w1 = closed w" "open_fds w1 = fd # open_fds w" "disk w1 = (disk w)(fd := [])" "fd \<notin> set (open_fds w)"
    using open_segment_opens [OF assms(2)] assms(3) by auto
  have old: "list_all (open_view P key w) vs" "distinct (slot_fds vs)" "set (slot_fds vs) \<inter> W = {}"
    "set (open_fds w) = W \<union> set (slot_fds vs)" "\<exists>fs. closed w = cl @ fs \<and> list_all (\<lambda>f. f = [] \<or> complete P key f) fs"
    using assms(1) by (simp_all add: slots_ok_def)
  have "disk (close_fd fd w') x = disk w x" if "x \<in> set (slot_fds vs)" for x
    using that o(4) old(4) by (auto simp: assms(6) o(3) close_fd_def)
  then have "list_all (open_view P key (close_fd fd w')) vs" by (rule list_view_frame [OF old(1)])
  moreover have "open_fds (close_fd fd w') = open_fds w" "closed (close_fd fd w') = closed w @ [[]]"
    using assms(3) o by (simp_all add: close_fd_def assms(4-6))
  ultimately show ?thesis using old by (auto simp: slots_ok_def)
qed

lemma slots_frame:
  assumes "slots_ok P key W cl w vs" and "open_fds w' = open_fds w" and "closed w' = closed w" and "disk w' = disk w"
  shows "slots_ok P key W cl w' vs"
  using assms list_view_frame [of P key w vs w'] by (simp add: slots_ok_def)

end
