(* ===== verification/Rmr_Run.thy ===== *)
theory Rmr_Run
  imports Rmr_Signed
begin

text \<open>
  Every run of the recorder from its start to its end. The operations of \<^verbatim>\<open>rmr_main.c\<close> keep the
  three file slots in order, and when the daemon has stopped every file it wrote is closed and
  verifies to its closing mark.
\<close>

definition seg_slot :: "rmr_state \<Rightarrow> slot" where "seg_slot st = (mux st, segment_fd st, sign_seg st)"
definition clip_slot :: "rmr_state \<Rightarrow> slot" where "clip_slot st = (clip_mux st, clip_fd st, sign_clip st)"
definition tl_slot :: "rmr_state \<Rightarrow> slot" where "tl_slot st = (tl_mux st, tl_fd st, sign_tl st)"

lemmas slot_defs = seg_slot_def clip_slot_def tl_slot_def

definition files_ok :: "prims \<Rightarrow> rmr_sign_key \<Rightarrow> int set \<Rightarrow> byte list list \<Rightarrow> rmr_state \<Rightarrow> bool" where
  "files_ok P key W cl st \<longleftrightarrow> healthy st \<and> sign_enabled st \<and> sign_key st = key \<and>
     slots_ok P key W cl (world st) [seg_slot st, clip_slot st, tl_slot st]"

text \<open>The invariant does not see the other fields of the state.\<close>

lemma files_ok_cong:
  assumes "files_ok P key W cl st" and "sign_enabled st' = sign_enabled st" and "sign_key st' = sign_key st"
    and "seg_slot st' = seg_slot st" and "clip_slot st' = clip_slot st" and "tl_slot st' = tl_slot st"
    and "writes (world st') = writes (world st)" and "open_fds (world st') = open_fds (world st)"
    and "closed (world st') = closed (world st)" and "disk (world st') = disk (world st)"
  shows "files_ok P key W cl st'"
  using assms slots_frame [of P key W cl "world st" _ "world st'"] by (simp add: files_ok_def healthy_def)

lemma busy_seg: "files_ok P key W cl st \<Longrightarrow> mux st = Some m \<Longrightarrow> 0 \<le> segment_fd st \<and> mux_ok m \<and> spanned P key [] (sign_seg st) (disk (world st) (segment_fd st))"
  and idle_seg: "files_ok P key W cl st \<Longrightarrow> mux st = None \<Longrightarrow> segment_fd st = -1"
  by (auto simp: files_ok_def slots_ok_def open_view_def seg_slot_def)

lemma busy_clip: "files_ok P key W cl st \<Longrightarrow> clip_mux st = Some m \<Longrightarrow> 0 \<le> clip_fd st \<and> mux_ok m \<and> spanned P key [] (sign_clip st) (disk (world st) (clip_fd st))"
  and idle_clip: "files_ok P key W cl st \<Longrightarrow> clip_mux st = None \<Longrightarrow> clip_fd st = -1"
  by (auto simp: files_ok_def slots_ok_def open_view_def clip_slot_def)

lemma busy_tl: "files_ok P key W cl st \<Longrightarrow> tl_mux st = Some m \<Longrightarrow> 0 \<le> tl_fd st \<and> mux_ok m \<and> spanned P key [] (sign_tl st) (disk (world st) (tl_fd st))"
  and idle_tl: "files_ok P key W cl st \<Longrightarrow> tl_mux st = None \<Longrightarrow> tl_fd st = -1"
  by (auto simp: files_ok_def slots_ok_def open_view_def tl_slot_def)

lemma files_head:
  "files_ok P key W cl st \<longleftrightarrow> healthy st \<and> sign_enabled st \<and> sign_key st = key \<and>
     slots_ok P key W cl (world st) [clip_slot st, seg_slot st, tl_slot st]"
  "files_ok P key W cl st \<longleftrightarrow> healthy st \<and> sign_enabled st \<and> sign_key st = key \<and>
     slots_ok P key W cl (world st) [tl_slot st, seg_slot st, clip_slot st]"
  unfolding files_ok_def
  using slots_perm [of "[seg_slot st, clip_slot st, tl_slot st]" "[clip_slot st, seg_slot st, tl_slot st]"]
    slots_perm [of "[seg_slot st, clip_slot st, tl_slot st]" "[tl_slot st, seg_slot st, clip_slot st]"] by simp_all

abbreviation "seg_touched \<equiv> touched segment_fd st_bytes_written_update sign_seg_update"
abbreviation "clip_touched \<equiv> touched clip_fd clip_bytes_update sign_clip_update"
abbreviation "tl_touched \<equiv> touched tl_fd tl_bytes_update sign_tl_update"

subsection \<open>Writing to an open file\<close>

text \<open>Storing a muxer in the state does not interfere with writes.\<close>

lemma touched_field:
  assumes "touched fd cu su st st'" and "\<And>st. fd (g st) = fd st" and "\<And>st. world (g st) = world st"
    and "\<And>f st. g (cu f st) = cu f (g st)" and "\<And>f st. g (su f st) = su f (g st)" and "\<And>w st. g (st\<lparr>world := w\<rparr>) = (g st)\<lparr>world := w\<rparr>"
  shows "touched fd cu su (g st) (g st')"
proof -
  obtain rs d n ss where "st' = su (\<lambda>_. ss) (cu (\<lambda>_. n) (st\<lparr>world := (world st)\<lparr>writes := rs, disk := (disk (world st))(fd st := d)\<rparr>\<rparr>))"
    "healthy st \<longrightarrow> list_all lucky rs"
    using assms(1) by (auto simp: touched_def)
  then show ?thesis
    unfolding touched_def
    by (intro exI [of _ rs] exI [of _ d] exI [of _ n] exI [of _ ss]) (simp add: assms(2-) healthy_def)
qed

lemma seg_written:
  assumes "files_ok P key W cl st" and "mux st \<noteq> None" and "seg_touched (st\<lparr>mux := Some m\<rparr>) st'" and "mux_ok m"
    and "spanned P key [] (sign_seg st') (disk (world st') (segment_fd st'))"
  shows "files_ok P key W cl st' \<and> mux st' = Some m"
proof -
  obtain rs d n ss where st': "st' = st\<lparr>mux := Some m, world := (world st)\<lparr>writes := rs, disk := (disk (world st))(segment_fd st := d)\<rparr>,
      st_bytes_written := n, sign_seg := ss\<rparr>" "list_all lucky rs"
    using assms(1,3) by (auto simp: touched_def files_ok_def healthy_def)
  have fd: "0 \<le> segment_fd st" using busy_seg [OF assms(1)] assms(2) by blast
  have "slots_ok P key W cl (world st') [(Some m, segment_fd st, ss), clip_slot st, tl_slot st]"
    by (rule head_write [of _ _ _ _ "world st" "mux st" _ "sign_seg st" _ _ d])
      (use assms fd in \<open>simp_all add: st' files_ok_def seg_slot_def open_view_def\<close>)
  then show ?thesis using assms(1) unfolding files_ok_def by (simp add: st' slot_defs healthy_def)
qed

lemma clip_written:
  assumes "files_ok P key W cl st" and "clip_mux st \<noteq> None" and "clip_touched (st\<lparr>clip_mux := Some m\<rparr>) st'" and "mux_ok m"
    and "spanned P key [] (sign_clip st') (disk (world st') (clip_fd st'))"
  shows "files_ok P key W cl st' \<and> clip_mux st' = Some m"
proof -
  obtain rs d n ss where st': "st' = st\<lparr>clip_mux := Some m, world := (world st)\<lparr>writes := rs, disk := (disk (world st))(clip_fd st := d)\<rparr>,
      clip_bytes := n, sign_clip := ss\<rparr>" "list_all lucky rs"
    using assms(1,3) by (auto simp: touched_def files_ok_def healthy_def)
  have fd: "0 \<le> clip_fd st" using busy_clip [OF assms(1)] assms(2) by blast
  have "slots_ok P key W cl (world st') [(Some m, clip_fd st, ss), seg_slot st, tl_slot st]"
    by (rule head_write [of _ _ _ _ "world st" "clip_mux st" _ "sign_clip st" _ _ d])
      (use assms fd in \<open>simp_all add: st' files_head(1) clip_slot_def open_view_def\<close>)
  then show ?thesis using assms(1) unfolding files_head(1) by (simp add: st' slot_defs healthy_def)
qed

lemma tl_written:
  assumes "files_ok P key W cl st" and "tl_mux st \<noteq> None" and "tl_touched (st\<lparr>tl_mux := Some m\<rparr>) st'" and "mux_ok m"
    and "spanned P key [] (sign_tl st') (disk (world st') (tl_fd st'))"
  shows "files_ok P key W cl st' \<and> tl_mux st' = Some m"
proof -
  obtain rs d n ss where st': "st' = st\<lparr>tl_mux := Some m, world := (world st)\<lparr>writes := rs, disk := (disk (world st))(tl_fd st := d)\<rparr>,
      tl_bytes := n, sign_tl := ss\<rparr>" "list_all lucky rs"
    using assms(1,3) by (auto simp: touched_def files_ok_def healthy_def)
  have fd: "0 \<le> tl_fd st" using busy_tl [OF assms(1)] assms(2) by blast
  have "slots_ok P key W cl (world st') [(Some m, tl_fd st, ss), seg_slot st, clip_slot st]"
    by (rule head_write [of _ _ _ _ "world st" "tl_mux st" _ "sign_tl st" _ _ d])
      (use assms fd in \<open>simp_all add: st' files_head(2) tl_slot_def open_view_def\<close>)
  then show ?thesis using assms(1) unfolding files_head(2) by (simp add: st' slot_defs healthy_def)
qed

subsection \<open>Closing a file\<close>

lemma seg_closed:
  assumes "files_ok P key W cl st" and "mux st \<noteq> None" and "seg_touched st st'" and "complete P key (disk (world st') (segment_fd st'))"
  shows "files_ok P key W cl (st'\<lparr>mux := None, segment_fd := -1, world := close_fd (segment_fd st') (world st')\<rparr>)"
proof -
  obtain rs d n ss where st': "st' = st\<lparr>world := (world st)\<lparr>writes := rs, disk := (disk (world st))(segment_fd st := d)\<rparr>,
      st_bytes_written := n, sign_seg := ss\<rparr>" "list_all lucky rs"
    using assms(1,3) by (auto simp: touched_def files_ok_def healthy_def)
  have fd: "0 \<le> segment_fd st" using busy_seg [OF assms(1)] assms(2) by blast
  have "slots_ok P key W cl (close_fd (segment_fd st) (world st')) [(None, -1, ss), clip_slot st, tl_slot st]"
    by (rule head_close [of _ _ _ _ "world st" "mux st" _ "sign_seg st" _ _ d])
      (use assms fd in \<open>simp_all add: st' files_ok_def seg_slot_def\<close>)
  then show ?thesis using assms(1) st'(2) unfolding files_ok_def by (simp add: st' slot_defs healthy_def close_fd_def)
qed

lemma clip_closed:
  assumes "files_ok P key W cl st" and "clip_mux st \<noteq> None" and "clip_touched st st'" and "complete P key (disk (world st') (clip_fd st'))"
  shows "files_ok P key W cl (st'\<lparr>clip_mux := None, clip_fd := -1, world := close_fd (clip_fd st') (world st')\<rparr>)"
proof -
  obtain rs d n ss where st': "st' = st\<lparr>world := (world st)\<lparr>writes := rs, disk := (disk (world st))(clip_fd st := d)\<rparr>,
      clip_bytes := n, sign_clip := ss\<rparr>" "list_all lucky rs"
    using assms(1,3) by (auto simp: touched_def files_ok_def healthy_def)
  have fd: "0 \<le> clip_fd st" using busy_clip [OF assms(1)] assms(2) by blast
  have "slots_ok P key W cl (close_fd (clip_fd st) (world st')) [(None, -1, ss), seg_slot st, tl_slot st]"
    by (rule head_close [of _ _ _ _ "world st" "clip_mux st" _ "sign_clip st" _ _ d])
      (use assms fd in \<open>simp_all add: st' files_head(1) clip_slot_def\<close>)
  then show ?thesis using assms(1) st'(2) unfolding files_head(1) by (simp add: st' slot_defs healthy_def close_fd_def)
qed

lemma tl_closed:
  assumes "files_ok P key W cl st" and "tl_mux st \<noteq> None" and "tl_touched st st'" and "complete P key (disk (world st') (tl_fd st'))"
  shows "files_ok P key W cl (st'\<lparr>tl_mux := None, tl_fd := -1, world := close_fd (tl_fd st') (world st')\<rparr>)"
proof -
  obtain rs d n ss where st': "st' = st\<lparr>world := (world st)\<lparr>writes := rs, disk := (disk (world st))(tl_fd st := d)\<rparr>,
      tl_bytes := n, sign_tl := ss\<rparr>" "list_all lucky rs"
    using assms(1,3) by (auto simp: touched_def files_ok_def healthy_def)
  have fd: "0 \<le> tl_fd st" using busy_tl [OF assms(1)] assms(2) by blast
  have "slots_ok P key W cl (close_fd (tl_fd st) (world st')) [(None, -1, ss), seg_slot st, clip_slot st]"
    by (rule head_close [of _ _ _ _ "world st" "tl_mux st" _ "sign_tl st" _ _ d])
      (use assms fd in \<open>simp_all add: st' files_head(2) tl_slot_def\<close>)
  then show ?thesis using assms(1) st'(2) unfolding files_head(2) by (simp add: st' slot_defs healthy_def close_fd_def)
qed

subsection \<open>Opening a file\<close>

lemma seg_opened:
  assumes "files_ok P key W cl st" and "mux st = None" and "open_segment (world st) = (fd, w)" and "0 \<le> fd"
    and "world st1 = w\<lparr>muxes := ms\<rparr>" and "segment_fd st1 = fd" and "sign_enabled st1 \<and> sign_key st1 = key"
    and "clip_slot st1 = clip_slot st" and "tl_slot st1 = tl_slot st"
    and "seg_touched (st1\<lparr>mux := Some m\<rparr>) st'" and "mux_ok m" and "spanned P key [] (sign_seg st') (disk (world st') (segment_fd st'))"
  shows "files_ok P key W cl st' \<and> mux st' = Some m"
proof -
  have h: "healthy st1" using open_segment_opens [OF assms(3)] assms(1,5) by (simp add: files_ok_def healthy_def)
  obtain rs d n ss where st': "st' = st1\<lparr>mux := Some m, world := (world st1)\<lparr>writes := rs, disk := (disk (world st1))(segment_fd st1 := d)\<rparr>,
      st_bytes_written := n, sign_seg := ss\<rparr>" "list_all lucky rs"
    using assms(10) h by (auto simp: touched_def healthy_def)
  have "slots_ok P key W cl (world st') [(Some m, fd, ss), clip_slot st, tl_slot st]"
    by (rule head_open [of _ _ _ _ "world st" "segment_fd st" "sign_seg st" _ fd w _ d])
      (use assms in \<open>simp_all add: st' files_ok_def seg_slot_def open_view_def\<close>)
  then show ?thesis using assms(6-9) st'(2) unfolding files_ok_def by (simp add: st' slot_defs healthy_def)
qed

lemma clip_opened:
  assumes "files_ok P key W cl st" and "clip_mux st = None" and "open_segment (world st) = (fd, w)" and "0 \<le> fd"
    and "world st1 = w\<lparr>muxes := ms\<rparr>" and "clip_fd st1 = fd" and "sign_enabled st1 \<and> sign_key st1 = key"
    and "seg_slot st1 = seg_slot st" and "tl_slot st1 = tl_slot st"
    and "clip_touched (st1\<lparr>clip_mux := Some m\<rparr>) st'" and "mux_ok m" and "spanned P key [] (sign_clip st') (disk (world st') (clip_fd st'))"
  shows "files_ok P key W cl st' \<and> clip_mux st' = Some m"
proof -
  have h: "healthy st1" using open_segment_opens [OF assms(3)] assms(1,5) by (simp add: files_ok_def healthy_def)
  obtain rs d n ss where st': "st' = st1\<lparr>clip_mux := Some m, world := (world st1)\<lparr>writes := rs, disk := (disk (world st1))(clip_fd st1 := d)\<rparr>,
      clip_bytes := n, sign_clip := ss\<rparr>" "list_all lucky rs"
    using assms(10) h by (auto simp: touched_def healthy_def)
  have "slots_ok P key W cl (world st') [(Some m, fd, ss), seg_slot st, tl_slot st]"
    by (rule head_open [of _ _ _ _ "world st" "clip_fd st" "sign_clip st" _ fd w _ d])
      (use assms in \<open>simp_all add: st' files_head(1) clip_slot_def open_view_def\<close>)
  then show ?thesis using assms(6-9) st'(2) unfolding files_head(1) by (simp add: st' slot_defs healthy_def)
qed

lemma tl_opened:
  assumes "files_ok P key W cl st" and "tl_mux st = None" and "open_segment (world st) = (fd, w)" and "0 \<le> fd"
    and "world st1 = w\<lparr>muxes := ms\<rparr>" and "tl_fd st1 = fd" and "sign_enabled st1 \<and> sign_key st1 = key"
    and "seg_slot st1 = seg_slot st" and "clip_slot st1 = clip_slot st"
    and "tl_touched (st1\<lparr>tl_mux := Some m\<rparr>) st'" and "mux_ok m" and "spanned P key [] (sign_tl st') (disk (world st') (tl_fd st'))"
  shows "files_ok P key W cl st' \<and> tl_mux st' = Some m"
proof -
  have h: "healthy st1" using open_segment_opens [OF assms(3)] assms(1,5) by (simp add: files_ok_def healthy_def)
  obtain rs d n ss where st': "st' = st1\<lparr>tl_mux := Some m, world := (world st1)\<lparr>writes := rs, disk := (disk (world st1))(tl_fd st1 := d)\<rparr>,
      tl_bytes := n, sign_tl := ss\<rparr>" "list_all lucky rs"
    using assms(10) h by (auto simp: touched_def healthy_def)
  have "slots_ok P key W cl (world st') [(Some m, fd, ss), seg_slot st, clip_slot st]"
    by (rule head_open [of _ _ _ _ "world st" "tl_fd st" "sign_tl st" _ fd w _ d])
      (use assms in \<open>simp_all add: st' files_head(2) tl_slot_def open_view_def\<close>)
  then show ?thesis using assms(6-9) st'(2) unfolding files_head(2) by (simp add: st' slot_defs healthy_def)
qed

subsection \<open>Segments\<close>

text \<open>
  What the libraries promise: an AAC configuration is short, and a timecode SEI fits the space
  it is given.
\<close>

definition prims_ok :: "prims \<Rightarrow> bool" where
  "prims_ok P \<longleftrightarrow> (\<forall>a r c asc. aac_asc P a r c = Some asc \<longrightarrow> length asc \<le> 1000) \<and>
     (\<forall>n c t u b. sei_build P n c t u = Some b \<longrightarrow> length b \<le> n)"

lemma asc_short: "prims_ok P \<Longrightarrow> length (audio_asc (aac_asc P) m) \<le> 1000"
  by (auto simp: prims_ok_def audio_asc_def Let_def split: option.splits)

lemma set_video_ready:
  assumes "rmr_mux_create (\<lambda>_. True) ok = Some m" and "prims_ok P"
  shows "configured (aac_asc P) (setup_mux_video_track_dur st dur m) \<and> collected (setup_mux_video_track_dur st dur m) [] []"
proof -
  have m: "m_sps m = []" "m_pps m = []" "m_vps m = []" "collected m [] []"
    using assms(1) by (auto simp: rmr_mux_create_def collected_def within_limits_def bb_ok_def boxbuf_zero_def timed_def split: if_splits)
  have "m_has_video m' \<and> length (m_sps m') \<le> 256 \<and> length (m_pps m') \<le> 128 \<and> length (m_vps m') \<le> 256 \<and> collected m' [] []"
    if "m' = snd (rmr_mux_set_video vp sps pps vps m)" for m' vp sps pps vps
    using m unfolding that by (simp add: rmr_mux_set_video_def Let_def collected_def within_limits_def timed_def)
  then show ?thesis using asc_short [OF assms(2)] by (simp add: setup_mux_video_track_dur_def Let_def configured_def)
qed

lemma tracks_ready:
  assumes "rmr_mux_create (\<lambda>_. True) ok = Some m" and "prims_ok P"
  shows "configured (aac_asc P) (setup_mux_tracks st m) \<and> collected (setup_mux_tracks st m) [] []"
  using set_video_ready [OF assms, of st 0] asc_short [OF assms(2)]
  by (simp add: setup_mux_tracks_def rmr_mux_set_audio_def Let_def configured_def collected_def within_limits_def timed_def)

lemma alloc_mux_cases:
  obtains ms where "alloc_mux w = (None, w\<lparr>muxes := ms\<rparr>)"
  | ms m where "alloc_mux w = (Some m, w\<lparr>muxes := ms\<rparr>)" "rmr_mux_create (\<lambda>_. True) True = Some m"
proof (cases "muxes w")
  case Nil
  then have "alloc_mux w = (Some (the (rmr_mux_create (\<lambda>_. True) True)), w\<lparr>muxes := []\<rparr>)"
    by (simp add: alloc_mux_def rmr_mux_create_def)
  then show ?thesis by (rule that(2)) (simp add: rmr_mux_create_def)
next
  case (Cons ok oks)
  show ?thesis
  proof (cases ok)
    case True
    then have "alloc_mux w = (Some (the (rmr_mux_create (\<lambda>_. True) True)), w\<lparr>muxes := oks\<rparr>)"
      using Cons by (simp add: alloc_mux_def rmr_mux_create_def)
    then show ?thesis by (rule that(2)) (simp add: rmr_mux_create_def)
  next
    case False
    then show ?thesis using Cons by (intro that(1) [of oks]) (simp add: alloc_mux_def rmr_mux_create_def)
  qed
qed

lemma flush_segment_ok:
  assumes "files_ok P key W cl st" and "mux st = Some m"
  shows "files_ok P key W cl (flush_segment P m st) \<and> mux (flush_segment P m st) \<noteq> None"
proof -
  note b = busy_seg [OF assms]
  have env: "healthy st \<and> 0 \<le> segment_fd st \<and> sign_enabled st" using assms b by (simp add: files_ok_def)
  obtain m' st1 bs where f: "rmr_mux_flush_fragment direct_write (m, st) = (0, m', st1)" "seg_touched st st1" "mux_ok m'"
      "spanned P key bs (sign_seg st1) (disk (world st1) (segment_fd st1))"
    using seg_chain.flush_span [of P key st m] b env by auto
  let ?st3 = "emit_seg P False (st1\<lparr>mux := Some m'\<rparr>)"
  have "seg_touched (st\<lparr>mux := Some m'\<rparr>) ?st3 \<and> spanned P key [] (sign_seg ?st3) (disk (world ?st3) (segment_fd ?st3))"
    using seg_chain.store_emit [OF f(2,4) env touched_field [OF f(2), of "mux_update (\<lambda>_. Some m')"]]
    by (simp add: Let_def emit_seg_def)
  then have "files_ok P key W cl ?st3 \<and> mux ?st3 = Some m'" using seg_written [OF assms(1) _ _ f(3)] assms(2) by blast
  then show ?thesis using files_ok_cong [of P key W cl ?st3] by (simp add: slot_defs flush_segment_def f(1))
qed

lemma close_segment_ok:
  assumes "files_ok P key W cl st"
  shows "files_ok P key W cl (close_segment P st) \<and> mux (close_segment P st) = None"
proof (cases "mux st")
  case None
  then have "close_segment P st = st" using idle_seg [OF assms None] by (simp add: close_segment_def close_fd_def)
  then show ?thesis using assms None by simp
next
  case (Some m)
  note b = busy_seg [OF assms Some]
  have env: "healthy st \<and> 0 \<le> segment_fd st \<and> sign_enabled st" using assms b by (simp add: files_ok_def)
  obtain m' st1 where f: "rmr_mux_finalize direct_write (m, st) = (0, m', st1)" "sign_enabled st1" "seg_touched st (emit_seg P True st1)"
      "complete P key (disk (world (emit_seg P True st1)) (segment_fd (emit_seg P True st1)))"
    using seg_chain.finalize_emit [of P key st m] b env by (auto simp: Let_def emit_seg_def)
  show ?thesis
    using seg_closed [OF assms _ f(3,4)] Some by (simp add: close_segment_def f(1))
qed

lemma start_segment_ok:
  assumes "files_ok P key W cl st" and "mux st = None" and "prims_ok P"
  shows "files_ok P key W cl (snd (start_segment P t st)) \<and>
    (if fst (start_segment P t st) < 0 then mux (snd (start_segment P t st)) = None else mux (snd (start_segment P t st)) \<noteq> None)"
proof -
  obtain fd w where o: "open_segment (world st) = (fd, w)" by fastforce
  note os = open_segment_opens [OF o]
  show ?thesis
  proof (cases "fd < 0")
    case True
    then show ?thesis
      using os assms(1,2) files_ok_cong [OF assms(1), of "st\<lparr>world := w\<rparr>"] by (simp add: start_segment_def o slot_defs)
  next
    case False
    then have fd: "0 \<le> fd" by simp
    show ?thesis
    proof (cases w rule: alloc_mux_cases)
      case (1 ms)
      have "slots_ok P key W cl (close_fd fd (w\<lparr>muxes := ms\<rparr>)) [seg_slot st, clip_slot st, tl_slot st]"
        by (rule open_closed_again [OF _ o fd]) (use assms(1) in \<open>simp_all add: files_ok_def\<close>)
      then show ?thesis
        using False assms(1,2) os by (simp add: start_segment_def o 1 files_ok_def healthy_def slot_defs close_fd_def)
    next
      case (2 ms m)
      let ?st1 = "st\<lparr>world := w\<lparr>muxes := ms\<rparr>, segment_fd := fd\<rparr>"
      let ?st2 = "?st1\<lparr>sign_seg := rmr_sign_stream_begin key\<rparr>"
      have key: "sign_enabled st" "sign_key st = key" "healthy st" using assms(1) by (simp_all add: files_ok_def)
      have env: "healthy ?st2 \<and> 0 \<le> segment_fd ?st2 \<and> sign_enabled ?st2" using key fd os by (simp add: healthy_def)
      have "spanned P key [] (sign_seg ?st2) (disk (world ?st2) (segment_fd ?st2))" using os fd by (simp add: spanned_begin)
      from seg_chain.start_span [OF this env] tracks_ready [OF 2(2) assms(3), of ?st1]
      obtain m2 st3 bs where st3: "rmr_mux_start (aac_asc P) direct_write (setup_mux_tracks ?st1 m, ?st2) = (0, m2, st3)"
          "seg_touched ?st2 st3" "spanned P key bs (sign_seg st3) (disk (world st3) (segment_fd st3))" "mux_ok m2"
        by fastforce
      let ?st4 = "emit_seg P False (st3\<lparr>mux := Some m2\<rparr>)"
      have "seg_touched (?st2\<lparr>mux := Some m2\<rparr>) ?st4 \<and> spanned P key [] (sign_seg ?st4) (disk (world ?st4) (segment_fd ?st4))"
        using seg_chain.store_emit [OF st3(2,3) env touched_field [OF st3(2), of "mux_update (\<lambda>_. Some m2)"]]
        by (simp add: Let_def emit_seg_def)
      then have "files_ok P key W cl ?st4 \<and> mux ?st4 = Some m2"
        using seg_opened [OF assms(1,2) o fd, of ?st2 ms m2 ?st4] st3(4) key by (simp add: slot_defs)
      moreover obtain a b c where "start_segment P t st = (0, ?st4\<lparr>segment_start_us := a, segment_start_rt_us := b,
          segment_boundary_rt_us := c, segment_idr_requested := False\<rparr>)"
        using False key by (simp add: start_segment_def o 2(1) st3(1) Let_def)
      ultimately show ?thesis using files_ok_cong [of P key W cl ?st4] by (simp add: slot_defs)
    qed
  qed
qed

subsection \<open>Clips\<close>

lemma close_clip_ok:
  assumes "files_ok P key W cl st"
  shows "files_ok P key W cl (close_clip P st) \<and> clip_mux (close_clip P st) = None"
proof (cases "clip_mux st")
  case None
  then have "close_clip P st = st" using idle_clip [OF assms None] by (simp add: close_clip_def)
  then show ?thesis using assms None by simp
next
  case (Some m)
  note b = busy_clip [OF assms Some]
  have env: "healthy st \<and> 0 \<le> clip_fd st \<and> sign_enabled st" using assms b by (simp add: files_ok_def)
  obtain m' st1 where f: "rmr_mux_finalize clip_write (m, st) = (0, m', st1)" "sign_enabled st1" "clip_touched st (emit_clip P True st1)"
      "complete P key (disk (world (emit_clip P True st1)) (clip_fd (emit_clip P True st1)))"
    using clip_chain.finalize_emit [of P key st m] b env by (auto simp: Let_def emit_clip_def)
  have "0 \<le> clip_fd (emit_clip P True st1)" using clip_chain.touches_same [OF f(3)] b by simp
  then show ?thesis
    using clip_closed [OF assms _ f(3,4)] Some by (simp add: close_clip_def f(1))
qed

lemma open_clip_ok:
  assumes "files_ok P key W cl st" and "clip_mux st = None" and "prims_ok P"
  shows "files_ok P key W cl (snd (open_clip P t st))"
proof -
  obtain fd w where o: "open_segment (world st) = (fd, w)" by fastforce
  note os = open_segment_opens [OF o]
  consider "\<not> clip_storage st" | "clip_storage st" "fd < 0" | "clip_storage st" "0 \<le> fd" by linarith
  then show ?thesis
  proof cases
    case 1
    then show ?thesis using assms(1) by (simp add: open_clip_def)
  next
    case 2
    then show ?thesis
      using os assms(1,2) files_ok_cong [OF assms(1), of "st\<lparr>world := w\<rparr>"] by (simp add: open_clip_def o slot_defs)
  next
    case 3
    show ?thesis
    proof (cases w rule: alloc_mux_cases)
      case (1 ms)
      have "slots_ok P key W cl (close_fd fd (w\<lparr>muxes := ms\<rparr>)) [seg_slot st, clip_slot st, tl_slot st]"
        by (rule open_closed_again [OF _ o 3(2)]) (use assms(1) in \<open>simp_all add: files_ok_def\<close>)
      then show ?thesis
        using 3 assms(1,2) os by (simp add: open_clip_def o 1 files_ok_def healthy_def slot_defs close_fd_def)
    next
      case (2 ms m)
      let ?st1 = "st\<lparr>world := w\<lparr>muxes := ms\<rparr>, clip_fd := fd, clip_v_ts_base := -1, clip_a_dts := 0, clip_a_ts_base := -1,
        clip_start_us := now_us t, clip_bytes := 0\<rparr>"
      let ?st2 = "?st1\<lparr>sign_clip := rmr_sign_stream_begin key\<rparr>"
      have key: "sign_enabled st" "sign_key st = key" "healthy st" using assms(1) by (simp_all add: files_ok_def)
      have env: "healthy ?st2 \<and> 0 \<le> clip_fd ?st2 \<and> sign_enabled ?st2" using key 3 os by (simp add: healthy_def)
      have "spanned P key [] (sign_clip ?st2) (disk (world ?st2) (clip_fd ?st2))" using os 3 by (simp add: spanned_begin)
      from clip_chain.start_span [OF this env] tracks_ready [OF 2(2) assms(3), of ?st1]
      obtain m2 st3 bs where st3: "rmr_mux_start (aac_asc P) clip_write (setup_mux_tracks ?st1 m, ?st2) = (0, m2, st3)"
          "clip_touched ?st2 st3" "spanned P key bs (sign_clip st3) (disk (world st3) (clip_fd st3))" "mux_ok m2"
        by fastforce
      let ?st4 = "emit_clip P False (st3\<lparr>clip_mux := Some m2\<rparr>)"
      have "clip_touched (?st2\<lparr>clip_mux := Some m2\<rparr>) ?st4 \<and> spanned P key [] (sign_clip ?st4) (disk (world ?st4) (clip_fd ?st4))"
        using clip_chain.store_emit [OF st3(2,3) env touched_field [OF st3(2), of "clip_mux_update (\<lambda>_. Some m2)"]]
        by (simp add: Let_def emit_clip_def)
      then have "files_ok P key W cl ?st4"
        using clip_opened [OF assms(1,2) o 3(2), of ?st2 ms m2 ?st4] st3(4) key by (simp add: slot_defs)
      then show ?thesis using 3 key by (simp add: open_clip_def o 2(1) st3(1) Let_def)
    qed
  qed
qed

lemma clip_stored:
  assumes "files_ok P key W cl st" and "clip_mux st \<noteq> None" and "mux_ok m"
  shows "files_ok P key W cl (st\<lparr>clip_mux := Some m\<rparr>)"
proof -
  obtain m0 where "clip_mux st = Some m0" using assms(2) by blast
  with clip_written [OF assms(1,2) clip_chain.touches_refl assms(3)] busy_clip [OF assms(1)] show ?thesis by simp
qed

lemma clip_write_video_ok:
  assumes "files_ok P key W cl st" and "length bs \<le> 2 ^ 20"
  shows "files_ok P key W cl (clip_write_video P bs ts key' st)"
proof (cases "clip_mux st")
  case None
  then show ?thesis using assms(1) by (simp add: clip_write_video_def)
next
  case (Some m)
  define st1 where "st1 = (if clip_v_ts_base st < 0 then st\<lparr>clip_v_ts_base := ts\<rparr> else st)"
  have ok1: "files_ok P key W cl st1" and mux1: "clip_mux st1 = Some m"
    using files_ok_cong [OF assms(1), of st1] Some by (simp_all add: st1_def slot_defs)
  note b = busy_clip [OF ok1 mux1]
  let ?v = "\<lambda>dts. \<lparr>vs_data = bs, vs_dts = dts, vs_pts = dts, vs_key = key'\<rparr>"
  have vid: "mux_ok (snd (rmr_mux_write_video (?v dts) m'))" if "mux_ok m'" for m' dts
    using that assms(2) by (intro write_video_ok) simp_all
  show ?thesis
  proof (cases key')
    case False
    then show ?thesis
      using Some vid clip_stored [OF ok1] mux1 b
      by (simp add: clip_write_video_def case_prod_beta Let_def flip: st1_def)
  next
    case True
    have env: "healthy st1 \<and> 0 \<le> clip_fd st1 \<and> sign_enabled st1" using ok1 b by (simp add: files_ok_def)
    obtain m' st2 where f: "rmr_mux_flush_fragment clip_write (m, st1) = (0, m', st2)" "mux_ok m'"
        "clip_touched st1 (emit_clip P False st2)"
        "spanned P key [] (sign_clip (emit_clip P False st2)) (disk (world (emit_clip P False st2)) (clip_fd (emit_clip P False st2)))"
      using clip_chain.flush_emit [of P key st1 m] b env by (auto simp: Let_def emit_clip_def)
    have "files_ok P key W cl ((emit_clip P False st2)\<lparr>clip_mux := Some m''\<rparr>)" if "mux_ok m''" for m''
      using clip_written [OF ok1 _ touched_field [OF f(3), of "clip_mux_update (\<lambda>_. Some m'')"] that] f(4) mux1 by simp
    then show ?thesis
      using True Some vid [OF f(2)] by (simp add: clip_write_video_def case_prod_beta Let_def f(1) flip: st1_def)
  qed
qed

lemma clip_write_audio_ok:
  assumes "files_ok P key W cl st" and "length bs \<le> 8192"
  shows "files_ok P key W cl (clip_write_audio bs samples ts st)"
proof (cases "clip_mux st")
  case None
  then show ?thesis using assms(1) by (simp add: clip_write_audio_def)
next
  case (Some m)
  obtain dts base where s: "steer_audio_dts (clip_a_dts st) ts (clip_a_ts_base st) samples (uint (audio_sample_rate st)) = (dts, base)"
    by fastforce
  let ?m = "snd (rmr_mux_write_audio \<lparr>as_data = bs, as_dts = dts\<rparr> m)"
  have "files_ok P key W cl (st\<lparr>clip_mux := Some ?m\<rparr>)"
    using Some busy_clip [OF assms(1) Some] assms(2) by (intro clip_stored [OF assms(1)] write_audio_ok) simp_all
  from files_ok_cong [OF this] show ?thesis
    by (simp add: clip_write_audio_def Some s case_prod_beta Let_def slot_defs)
qed

subsection \<open>Timelapse files\<close>

lemma close_timelapse_ok:
  assumes "files_ok P key W cl st"
  shows "files_ok P key W cl (close_timelapse P st) \<and> tl_mux (close_timelapse P st) = None"
proof (cases "tl_mux st")
  case None
  then have "close_timelapse P st = st\<lparr>tl := (tl st)\<lparr>file_day := 0\<rparr>\<rparr>"
    using idle_tl [OF assms None] by (simp add: close_timelapse_def)
  then show ?thesis using files_ok_cong [OF assms] None by (simp add: slot_defs)
next
  case (Some m)
  note b = busy_tl [OF assms Some]
  have env: "healthy st \<and> 0 \<le> tl_fd st \<and> sign_enabled st" using assms b by (simp add: files_ok_def)
  obtain m' st1 where f: "rmr_mux_finalize tl_write (m, st) = (0, m', st1)" "sign_enabled st1" "tl_touched st (emit_tl P True st1)"
      "complete P key (disk (world (emit_tl P True st1)) (tl_fd (emit_tl P True st1)))"
    using tl_chain.finalize_emit [of P key st m] b env by (auto simp: Let_def emit_tl_def)
  have "0 \<le> tl_fd (emit_tl P True st1)" using tl_chain.touches_same [OF f(3)] b by simp
  then show ?thesis
    using files_ok_cong [OF tl_closed [OF assms _ f(3,4)]] Some by (simp add: close_timelapse_def f(1) slot_defs)
qed

lemma open_timelapse_ok:
  assumes "files_ok P key W cl st" and "tl_mux st = None" and "prims_ok P"
  shows "files_ok P key W cl (snd (open_timelapse P t day st))"
proof -
  obtain fd w where o: "open_segment (world st) = (fd, w)" by fastforce
  note os = open_segment_opens [OF o]
  consider "\<not> tl_storage st" | "tl_storage st" "fd < 0" | "tl_storage st" "0 \<le> fd" by linarith
  then show ?thesis
  proof cases
    case 1
    then show ?thesis using assms(1) by (simp add: open_timelapse_def)
  next
    case 2
    then show ?thesis
      using os files_ok_cong [OF assms(1)] by (simp add: open_timelapse_def o slot_defs)
  next
    case 3
    show ?thesis
    proof (cases w rule: alloc_mux_cases)
      case (1 ms)
      have "slots_ok P key W cl (close_fd fd (w\<lparr>muxes := ms\<rparr>)) [seg_slot st, clip_slot st, tl_slot st]"
        by (rule open_closed_again [OF _ o 3(2)]) (use assms(1) in \<open>simp_all add: files_ok_def\<close>)
      then show ?thesis
        using 3 assms(1,2) os by (simp add: open_timelapse_def o 1 files_ok_def healthy_def slot_defs close_fd_def)
    next
      case (2 ms m)
      let ?st1 = "st\<lparr>world := w\<lparr>muxes := ms\<rparr>, tl_fd := fd, tl_bytes := 0\<rparr>"
      let ?st2 = "?st1\<lparr>sign_tl := rmr_sign_stream_begin key\<rparr>"
      let ?m1 = "setup_mux_video_track_dur ?st1 (word_of_nat (90000 div playback_fps (tl st))) m"
      have key: "sign_enabled st" "sign_key st = key" "healthy st" using assms(1) by (simp_all add: files_ok_def)
      have env: "healthy ?st2 \<and> 0 \<le> tl_fd ?st2 \<and> sign_enabled ?st2" using key 3 os by (simp add: healthy_def)
      have "spanned P key [] (sign_tl ?st2) (disk (world ?st2) (tl_fd ?st2))" using os 3 by (simp add: spanned_begin)
      from tl_chain.start_span [OF this env, of "aac_asc P" ?m1] set_video_ready [OF 2(2) assms(3), of ?st1]
      obtain m2 st3 bs where st3: "rmr_mux_start (aac_asc P) tl_write (?m1, ?st2) = (0, m2, st3)"
          "tl_touched ?st2 st3" "spanned P key bs (sign_tl st3) (disk (world st3) (tl_fd st3))" "mux_ok m2"
        by fastforce
      let ?st4 = "emit_tl P False (st3\<lparr>tl_mux := Some m2\<rparr>)"
      have "tl_touched (?st2\<lparr>tl_mux := Some m2\<rparr>) ?st4 \<and> spanned P key [] (sign_tl ?st4) (disk (world ?st4) (tl_fd ?st4))"
        using tl_chain.store_emit [OF st3(2,3) env touched_field [OF st3(2), of "tl_mux_update (\<lambda>_. Some m2)"]]
        by (simp add: Let_def emit_tl_def)
      then have "files_ok P key W cl ?st4"
        using tl_opened [OF assms(1,2) o 3(2), of ?st2 ms m2 ?st4] st3(4) key by (simp add: slot_defs)
      from files_ok_cong [OF this] show ?thesis using 3 key by (simp add: open_timelapse_def o 2(1) st3(1) Let_def slot_defs)
    qed
  qed
qed

lemma timelapse_write_sample_ok:
  assumes "files_ok P key W cl st" and "length bs \<le> 2 ^ 20" and "prims_ok P"
  shows "files_ok P key W cl (timelapse_write_sample P t bs st)"
proof -
  define day where "day = rmr_local_day (local_tm t)"
  obtain failed st1 where s1: "(failed, st1) = (if rmr_tl_needs_rotate day (tl st)
      then let (r, st') = open_timelapse P t day (close_timelapse P st) in (r < 0, st') else (False, st))"
    by (metis surj_pair)
  have ok1: "files_ok P key W cl st1"
    using s1 assms(1) open_timelapse_ok [of P key W cl "close_timelapse P st"] close_timelapse_ok [OF assms(1)] assms(3)
    by (auto simp: case_prod_beta Let_def split: if_splits)
  show ?thesis
  proof (cases "failed \<or> tl_mux st1 = None")
    case True
    then show ?thesis using ok1 by (auto simp: timelapse_write_sample_def Let_def day_def [symmetric] s1 [symmetric])
  next
    case False
    then obtain m where m: "tl_mux st1 = Some m" by blast
    note b = busy_tl [OF ok1 m]
    have env: "healthy st1 \<and> 0 \<le> tl_fd st1 \<and> sign_enabled st1" using ok1 b by (simp add: files_ok_def)
    obtain m1 st2 where f: "rmr_mux_flush_fragment tl_write (m, st1) = (0, m1, st2)" "mux_ok m1"
        "tl_touched st1 (emit_tl P False st2)"
        "spanned P key [] (sign_tl (emit_tl P False st2)) (disk (world (emit_tl P False st2)) (tl_fd (emit_tl P False st2)))"
      using tl_chain.flush_emit [of P key st1 m] b env by (auto simp: Let_def emit_tl_def)
    have ok2: "files_ok P key W cl ((emit_tl P False st2)\<lparr>tl_mux := Some m2\<rparr>)" if "mux_ok m2" for m2
      using tl_written [OF ok1 _ touched_field [OF f(3), of "tl_mux_update (\<lambda>_. Some m2)"] that] f(4) m by simp
    have vid: "mux_ok (snd (rmr_mux_write_video \<lparr>vs_data = bs, vs_dts = dts, vs_pts = dts, vs_key = True\<rparr> m1))" for dts
      using f(2) assms(2) by (intro write_video_ok) simp_all
    show ?thesis
      using False m files_ok_cong [OF ok2 [OF vid]]
      by (simp add: timelapse_write_sample_def Let_def day_def [symmetric] s1 [symmetric] f(1) case_prod_beta slot_defs)
  qed
qed

subsection \<open>What writing leaves alone\<close>

text \<open>A view of the state that a callback does not change survives every operation of the muxer, failing ones too.\<close>

locale frame_sink =
  fixes write_fn :: "'c write_fn" and view :: "'c \<Rightarrow> 'v"
  assumes view_kept: "view (snd (write_fn bs c)) = view c"
begin

lemma view_flush: "view (snd (snd (bb_flush write_fn s))) = view (snd s)"
  by (simp add: bb_flush_def case_prod_beta Let_def view_kept)

lemma view_chunks: "view (snd (snd (write_chunks write_fn bs s))) = view (snd s)"
proof (induction "length bs" arbitrary: bs s rule: less_induct)
  case less
  show ?case
  proof (cases "bs = []")
    case True
    then show ?thesis by (subst write_chunks.simps) simp
  next
    case False
    then have "length (drop 65536 bs) < length bs" by (cases bs) simp_all
    from less.hyps [OF this] show ?thesis
      using False by (subst write_chunks.simps) (simp add: case_prod_beta Let_def view_kept)
  qed
qed

lemma view_fragment: "view (snd (snd (write_fragment write_fn s))) = view (snd s)"
  by (simp add: write_fragment_def case_prod_beta Let_def view_flush view_chunks)

lemma view_flush_fragment: "view (snd (snd (rmr_mux_flush_fragment write_fn s))) = view (snd s)"
  by (simp add: rmr_mux_flush_fragment_def view_fragment)

lemma view_finalize: "view (snd (snd (rmr_mux_finalize write_fn s))) = view (snd s)"
  by (simp add: rmr_mux_finalize_def case_prod_beta Let_def view_flush view_flush_fragment)

lemma view_start: "view (snd (snd (rmr_mux_start asc write_fn s))) = view (snd s)"
  by (simp add: rmr_mux_start_def write_ftyp_def write_moov_def case_prod_beta Let_def view_flush)

lemma view_emit:
  assumes "\<And>f c. view (upd f c) = view c"
  shows "view (snd (rmr_sign_stream_emit sha ed get upd final write_fn c)) = view c"
  by (simp add: rmr_sign_stream_emit_def case_prod_beta Let_def view_kept assms split: option.splits)

end

definition bufs :: "rmr_state \<Rightarrow> rmr_prebuf option \<times> rmr_prebuf option \<times> nat" where
  "bufs st = (video_pb st, audio_pb st, avcc_buf_size st)"

lemma bufs_writes:
  "bufs (snd (direct_write bs st)) = bufs st" "bufs (snd (clip_write bs st)) = bufs st" "bufs (snd (tl_write bs st)) = bufs st"
  by (simp_all add: direct_write_def clip_write_def tl_write_def bufs_def case_prod_beta Let_def split: write_end.splits)

interpretation seg_frame: frame_sink direct_write bufs
  by unfold_locales (rule bufs_writes)

interpretation clip_frame: frame_sink clip_write bufs
  by unfold_locales (rule bufs_writes)

interpretation tl_frame: frame_sink tl_write bufs
  by unfold_locales (rule bufs_writes)

lemma bufs_fields [simp]:
  "bufs (world_update f1 st) = bufs st" "bufs (mux_update f2 st) = bufs st" "bufs (clip_mux_update f3 st) = bufs st"
  "bufs (tl_mux_update f4 st) = bufs st" "bufs (sign_seg_update f5 st) = bufs st"
  "bufs (sign_clip_update f6 st) = bufs st" "bufs (sign_tl_update f7 st) = bufs st"
  "bufs (segment_fd_update f8 st) = bufs st" "bufs (clip_fd_update f9 st) = bufs st"
  "bufs (tl_fd_update f10 st) = bufs st" "bufs (tl_update f11 st) = bufs st"
  "bufs (frames_since_flush_update f12 st) = bufs st" "bufs (segment_start_us_update f13 st) = bufs st"
  "bufs (segment_start_rt_us_update f14 st) = bufs st" "bufs (segment_boundary_rt_us_update f15 st) = bufs st"
  "bufs (segment_idr_requested_update f16 st) = bufs st" "bufs (clip_v_ts_base_update f17 st) = bufs st"
  "bufs (clip_a_dts_update f18 st) = bufs st" "bufs (clip_a_ts_base_update f19 st) = bufs st"
  "bufs (clip_start_us_update f20 st) = bufs st" "bufs (clip_bytes_update f21 st) = bufs st"
  "bufs (tl_bytes_update f22 st) = bufs st" "bufs (tl_last_err_us_update f23 st) = bufs st"
  "bufs (tl_frames_total_update f24 st) = bufs st" "bufs (rec_on_update f25 st) = bufs st"
  "bufs (clip_recording_update f26 st) = bufs st" "bufs (tl_enabled_update f27 st) = bufs st"
  "bufs (frames_written_update f28 st) = bufs st" "bufs (frames_dropped_update f29 st) = bufs st"
  "bufs (st_bytes_written_update f30 st) = bufs st" "bufs (video_ring_update f31 st) = bufs st"
  "bufs (audio_ring_update f32 st) = bufs st" "bufs (audio_codec_update f33 st) = bufs st"
  "bufs (audio_sample_rate_update f34 st) = bufs st" "bufs (audio_aot_update f35 st) = bufs st"
  "bufs (video_read_seq_update f36 st) = bufs st" "bufs (params_update f37 st) = bufs st"
  by (simp_all add: bufs_def)

lemma bufs_emit [simp]: "bufs (emit_seg P final st) = bufs st" "bufs (emit_clip P final st) = bufs st" "bufs (emit_tl P final st) = bufs st"
  by (simp_all add: emit_seg_def emit_clip_def emit_tl_def seg_frame.view_emit clip_frame.view_emit tl_frame.view_emit)

lemma bufs_flush_segment [simp]: "bufs (flush_segment P m st) = bufs st"
  by (simp add: flush_segment_def case_prod_beta Let_def seg_frame.view_flush_fragment)

lemma bufs_close [simp]: "bufs (close_segment P st) = bufs st" "bufs (close_clip P st) = bufs st" "bufs (close_timelapse P st) = bufs st"
  by (simp_all add: close_segment_def close_clip_def close_timelapse_def case_prod_beta Let_def seg_frame.view_finalize
      clip_frame.view_finalize tl_frame.view_finalize split: option.splits)

lemma bufs_open [simp]:
  "bufs (snd (start_segment P t st)) = bufs st" "bufs (snd (open_clip P t st)) = bufs st" "bufs (snd (open_timelapse P t day st)) = bufs st"
  by (simp_all add: start_segment_def open_clip_def open_timelapse_def case_prod_beta Let_def seg_frame.view_start
      clip_frame.view_start tl_frame.view_start split: option.splits)

lemma bufs_samples [simp]:
  "bufs (timelapse_write_sample P t bs st) = bufs st" "bufs (clip_write_video P bs ts k st) = bufs st"
  "bufs (clip_write_audio bs n ts st) = bufs st"
  by (simp_all add: timelapse_write_sample_def clip_write_video_def clip_write_audio_def case_prod_beta Let_def
      clip_frame.view_flush_fragment tl_frame.view_flush_fragment split: option.splits)

subsection \<open>The pre-buffers\<close>

fun pb_ok :: "nat \<Rightarrow> rmr_prebuf option \<Rightarrow> bool" where
  "pb_ok n None = True"
| "pb_ok n (Some pb) = (capacity pb \<noteq> 0 \<and> length (slots pb) = unat (capacity pb) \<and> pb_mask pb = capacity pb - 1 \<and>
     list_all (\<lambda>s. unat (data_length s) \<le> n) (slots pb))"

lemma pb_ok_push: "pb_ok n (Some pb) \<Longrightarrow> length bs \<le> n \<Longrightarrow> n < 2 ^ 32 \<Longrightarrow> pb_ok n (Some (rmr_prebuf_push bs ts k pb))"
  by (auto simp: rmr_prebuf_push_def Let_def list_all_iff unat_of_nat_u32 dest!: set_update_subset_insert [THEN subsetD])

lemma pb_ok_create: "pb_ok n (rmr_prebuf_create mem cap sz)"
  by (auto simp: rmr_prebuf_create_def slot_zero_def list_all_iff split: option.splits)

lemma pb_ok_slot:
  assumes "pb_ok n (Some pb)"
  shows "unat (data_length (slot_at pb i)) \<le> n"
proof -
  have "unat (i AND pb_mask pb) \<le> unat (capacity pb - 1)"
    using assms by (simp add: word_and_le1 word_le_nat_alt [symmetric])
  also have "\<dots> < unat (capacity pb)" using assms by (simp add: measure_unat)
  finally show ?thesis using assms by (simp add: slot_at_def list_all_length)
qed

lemma iterate_loop_keeps:
  "pb_ok n (Some pb) \<Longrightarrow> (\<And>s bs c. unat (data_length s) \<le> n \<Longrightarrow> Q c \<Longrightarrow> Q (snd (fn s bs c))) \<Longrightarrow> Q c \<Longrightarrow>
     Q (snd (iterate_loop fn pb i k c))"
proof (induction fn pb i k c rule: iterate_loop.induct)
  case (1 fn pb i k c)
  let ?s = "slot_at pb i"
  let ?r = "fn ?s (drop (unat (data_offset ?s)) (pb_data pb)) c"
  obtain stop c1 where r: "?r = (stop, c1)" by fastforce
  have "Q (snd ?r)" using 1(3) [OF pb_ok_slot [OF 1(2)] 1(4)] .
  then have "Q c1" by (simp add: r)
  then show ?case
    using 1(1) [of ?s ?r stop c1] 1(2-4) by (subst iterate_loop.simps) (simp add: r)
qed

lemma iterate_keeps:
  assumes "pb_ok n (Some pb)" and "\<And>s bs c. unat (data_length s) \<le> n \<Longrightarrow> Q c \<Longrightarrow> Q (snd (fn s bs c))" and "Q c"
  shows "Q (snd (rmr_prebuf_iterate fn pb start c))"
  using iterate_loop_keeps [OF assms] assms(3) by (simp add: rmr_prebuf_iterate_def case_prod_beta Let_def)

text \<open>Between two iterations.\<close>

definition rec_ok :: "prims \<Rightarrow> rmr_sign_key \<Rightarrow> int set \<Rightarrow> byte list list \<Rightarrow> rmr_state \<Rightarrow> bool" where
  "rec_ok P key W cl st \<longleftrightarrow> files_ok P key W cl st \<and>
     (case bufs st of (v, a, n) \<Rightarrow> pb_ok (2 ^ 20) v \<and> pb_ok 8192 a \<and> n \<le> 2 ^ 20)"

lemma rec_okI: "files_ok P key W cl st' \<Longrightarrow> bufs st' = bufs st \<Longrightarrow> rec_ok P key W cl st \<Longrightarrow> rec_ok P key W cl st'"
  by (simp add: rec_ok_def)

lemma rec_ok_cong:
  assumes "rec_ok P key W cl st" and "sign_enabled st' = sign_enabled st" and "sign_key st' = sign_key st"
    and "seg_slot st' = seg_slot st" and "clip_slot st' = clip_slot st" and "tl_slot st' = tl_slot st"
    and "writes (world st') = writes (world st)" and "open_fds (world st') = open_fds (world st)"
    and "closed (world st') = closed (world st)" and "disk (world st') = disk (world st)" and "bufs st' = bufs st"
  shows "rec_ok P key W cl st'"
  using assms files_ok_cong [of P key W cl st st'] by (simp add: rec_ok_def)

lemma rec_files: "rec_ok P key W cl st \<Longrightarrow> files_ok P key W cl st"
  by (simp add: rec_ok_def)

lemma clip_video_rec: "rec_ok P key W cl st \<Longrightarrow> length bs \<le> 2 ^ 20 \<Longrightarrow> rec_ok P key W cl (clip_write_video P bs ts k st)"
  by (rule rec_okI [OF clip_write_video_ok]) (simp_all add: rec_files)

lemma clip_audio_rec: "rec_ok P key W cl st \<Longrightarrow> length bs \<le> 8192 \<Longrightarrow> rec_ok P key W cl (clip_write_audio bs n ts st)"
  by (rule rec_okI [OF clip_write_audio_ok]) (simp_all add: rec_files)

lemma close_clip_rec: "rec_ok P key W cl st \<Longrightarrow> rec_ok P key W cl (close_clip P st) \<and> clip_mux (close_clip P st) = None"
  using close_clip_ok [OF rec_files] rec_okI [of P key W cl "close_clip P st" st] by simp

lemma open_clip_rec: "rec_ok P key W cl st \<Longrightarrow> clip_mux st = None \<Longrightarrow> prims_ok P \<Longrightarrow> rec_ok P key W cl (snd (open_clip P t st))"
  using open_clip_ok [OF rec_files] rec_okI [of P key W cl "snd (open_clip P t st)" st] by simp

lemma close_segment_rec: "rec_ok P key W cl st \<Longrightarrow> rec_ok P key W cl (close_segment P st) \<and> mux (close_segment P st) = None"
  using close_segment_ok [OF rec_files] rec_okI [of P key W cl "close_segment P st" st] by simp

lemma close_timelapse_rec: "rec_ok P key W cl st \<Longrightarrow> rec_ok P key W cl (close_timelapse P st) \<and> tl_mux (close_timelapse P st) = None"
  using close_timelapse_ok [OF rec_files] rec_okI [of P key W cl "close_timelapse P st" st] by simp

lemma flush_segment_rec:
  "rec_ok P key W cl st \<Longrightarrow> mux st = Some m \<Longrightarrow> rec_ok P key W cl (flush_segment P m st) \<and> mux (flush_segment P m st) \<noteq> None"
  using flush_segment_ok [OF rec_files] rec_okI [of P key W cl "flush_segment P m st" st] by simp

text \<open>The frames of a pre-buffer are written to the new clip.\<close>

lemma replay_video_keeps:
  assumes "rec_ok P key W cl (rc_st rc)" and "unat (data_length s) \<le> 2 ^ 20"
  shows "rec_ok P key W cl (rc_st (snd (replay_video_frame P s bs rc)))"
  using clip_video_rec [OF assms(1), of "take (unat (data_length s)) bs"] assms(2) by (simp add: replay_video_frame_def)

lemma replay_audio_keeps:
  assumes "rec_ok P key W cl (rc_st rc)" and "unat (data_length s) \<le> 8192"
  shows "rec_ok P key W cl (rc_st (snd (replay_audio_frame s bs rc)))"
  using clip_audio_rec [OF assms(1), of "take (unat (data_length s)) bs"] assms by (simp add: replay_audio_frame_def Let_def)

lemma open_clip_with_prebuffer_rec:
  assumes "rec_ok P key W cl st" and "clip_mux st = None" and "prims_ok P"
  shows "rec_ok P key W cl (snd (open_clip_with_prebuffer P t n bps st))"
proof -
  obtain r st1 where o: "open_clip P t st = (r, st1)" by fastforce
  have ok1: "rec_ok P key W cl st1" using open_clip_rec [OF assms, of t] by (simp add: o)
  show ?thesis
  proof (cases "r < 0 \<or> video_pb st1 = None")
    case True
    then show ?thesis using ok1 by (auto simp: open_clip_with_prebuffer_def o)
  next
    case False
    then obtain vpb where vpb: "video_pb st1 = Some vpb" by blast
    have pbv: "pb_ok (2 ^ 20) (Some vpb)" using ok1 vpb by (simp add: rec_ok_def bufs_def)
    let ?rc = "\<lparr>rc_st = st1, rc_samples_per_frame = n, rc_bps = bps, rc_max_frames = -1, rc_count = 0\<rparr>"
    let ?i = "rmr_prebuf_iterate (replay_video_frame P) vpb (rmr_prebuf_find_keyframe vpb ((prebuffer_sec st1 + 1) * 1000000)) ?rc"
    have ok2: "rec_ok P key W cl (rc_st (snd ?i))"
      by (rule iterate_keeps [OF pbv, where Q = "\<lambda>rc. rec_ok P key W cl (rc_st rc)"])
        (use ok1 in \<open>simp_all add: replay_video_keeps\<close>)
    have aud: "rec_ok P key W cl (rc_st (snd (rmr_prebuf_iterate replay_audio_frame apb start (snd ?i\<lparr>rc_max_frames := k, rc_count := 0\<rparr>))))"
      if "audio_pb (rc_st (snd ?i)) = Some apb" for apb start k
    proof (rule iterate_keeps [where Q = "\<lambda>rc. rec_ok P key W cl (rc_st rc)"])
      show "pb_ok 8192 (Some apb)" using ok2 that by (simp add: rec_ok_def bufs_def)
    qed (use ok2 in \<open>simp_all add: replay_audio_keeps\<close>)
    show ?thesis
      using False ok1 ok2 aud by (simp add: open_clip_with_prebuffer_def o vpb Let_def case_prod_beta split: option.splits)
  qed
qed

end
