(* ===== verification/Rmr_Loop.thy ===== *)
theory Rmr_Loop
  imports Rmr_Run
begin

text \<open>
  The main loop of the recorder over any sequence of inputs: control requests, frames, losses,
  rings that come and go, storage that disappears. The invariant of the file slots holds at every
  iteration, and from it what a run of the whole daemon leaves behind.
\<close>

subsection \<open>Frames within their sizes\<close>

text \<open>
  What an iteration may see: frames of at most \<open>2\<^sup>2\<^sup>0\<close> bytes, audio frames that fit the buffer of
  the loop, and a ring whose largest frame fits beside the SEI.
\<close>

fun audio_fits :: "audio_read \<Rightarrow> bool" where
  "audio_fits A_Stop = True"
| "audio_fits (A_Frame bs ts) = (length bs \<le> 8192)"

fun video_fits :: "video_read \<Rightarrow> bool" where
  "video_fits (V_Frame bs ts k n) = (length bs \<le> 2 ^ 20)"
| "video_fits _ = True"

definition input_ok :: "prims \<Rightarrow> rmr_input \<Rightarrow> bool" where
  "input_ok P i \<longleftrightarrow> video_fits (i_video i) \<and> list_all audio_fits (i_audio i) \<and>
     (case i_video_open i of Some (h, mfs, ok) \<Rightarrow> mfs + sei_max P \<le> 2 ^ 20 | None \<Rightarrow> True)"

lemma nal_loop_keeps:
  "nal_loop body d sc s = Some s' \<Longrightarrow> (\<And>nal s s'. length nal \<le> length d \<Longrightarrow> body nal s = Some s' \<Longrightarrow> Q s \<Longrightarrow> Q s') \<Longrightarrow> Q s \<Longrightarrow> Q s'"
proof (induction body d sc s rule: nal_loop.induct)
  case (2 body d sc sc_len s)
  define start where "start = sc + sc_len"
  define sc' where "sc' = find_start_code d start"
  define n where "n = trim_end d start (case sc' of Some (q, _) \<Rightarrow> q | None \<Rightarrow> length d) - start"
  have loop: "nal_loop body d (Some (sc, sc_len)) s = (if length d \<le> start then Some s else if n = 0 then nal_loop body d sc' s
      else case body (take n (drop start d)) s of None \<Rightarrow> None | Some s1 \<Rightarrow> nal_loop body d sc' s1)"
    unfolding n_def sc'_def start_def by (subst nal_loop.simps(2)) (simp add: Let_def)
  have "length (take n (drop start d)) \<le> length d" by simp
  note step = "2.prems"(2) [OF this]
  note IH = "2.IH" [OF start_def _ sc'_def refl, folded n_def]
  show ?case
  proof (cases "length d \<le> start")
    case True
    then show ?thesis using "2.prems" loop by simp
  next
    case False
    show ?thesis
    proof (cases "n = 0")
      case True
      then show ?thesis using IH(1) [OF False refl True] "2.prems" loop False n_def by simp
    next
      case n: False
      obtain s1 where s1: "body (take n (drop start d)) s = Some s1" "nal_loop body d sc' s1 = Some s'"
        using "2.prems"(1) loop False n by (auto split: option.splits)
      show ?thesis using IH(2) [OF False refl n s1(1) s1(2)] "2.prems"(2) step [OF s1(1) "2.prems"(3)] by blast
    qed
  qed
qed simp

lemma avcc_within:
  assumes "rmr_annexb_to_avcc src cap codec = (n, dst)" and "cap \<le> 2 ^ 20" and "length src \<le> 2 ^ 20"
  shows "length dst \<le> cap"
proof (cases "nal_loop (avcc_nal cap codec) src (find_start_code src 0) []")
  case None
  then show ?thesis using assms(1) by (simp add: rmr_annexb_to_avcc_def)
next
  case (Some d)
  have "length d \<le> cap"
  proof (rule nal_loop_keeps [OF Some, where Q = "\<lambda>d. length d \<le> cap"])
    fix nal s s' assume a: "length nal \<le> length src" "avcc_nal cap codec nal s = Some s'" "length s \<le> cap"
    have "wrap32 (length s + 4 + length nal) = length s + 4 + length nal"
      using a(1,3) assms(2,3) by (intro wrap32_id) (simp add: u32max_def)
    then show "length s' \<le> cap" using a by (auto simp: avcc_nal_def split: if_splits)
  qed simp
  then show ?thesis using assms(1) Some by (simp add: rmr_annexb_to_avcc_def)
qed

lemma prepare_frame_rec:
  assumes "rec_ok P key W cl st" and "length frame \<le> 2 ^ 20" and "prims_ok P" and "prepare_frame P i frame ts k st = (r, st1)"
  shows "rec_ok P key W cl st1" and "r = Some bs \<Longrightarrow> length bs \<le> 2 ^ 20"
proof -
  define st2 where "st2 = (if k \<and> \<not> p_ready (params st)
    then st\<lparr>params := rmr_extract_params frame (video_codec st) (params st)\<rparr> else st)"
  define sei where "sei = (if sei_timecode st2 then
      (case i_utc i of None \<Rightarrow> [] | Some (off, status) \<Rightarrow>
         (case sei_build P (avcc_buf_size st2) (video_codec st2) (ts + off) status of Some b \<Rightarrow> b | None \<Rightarrow> [])) else [])"
  obtain n avcc where a: "rmr_annexb_to_avcc frame (avcc_buf_size st2 - length sei) (video_codec st2) = (n, avcc)" by fastforce
  have frame: "prepare_frame P i frame ts k st =
    (if video_codec st = 2 then (Some frame, st\<lparr>params := (params st)\<lparr>p_ready := True\<rparr>\<rparr>)
     else (if \<not> p_ready (params st2) \<or> n \<le> 0 \<or> 5 \<le> n \<and> word_of_int n - 4 < rd32 avcc then None else Some (sei @ avcc), st2))"
    unfolding prepare_frame_def Let_def st2_def [symmetric] sei_def [symmetric] a by simp
  have ok2: "rec_ok P key W cl st2" using rec_ok_cong [OF assms(1), of st2] by (simp add: st2_def slot_defs)
  then show "rec_ok P key W cl st1"
    using assms(4) rec_ok_cong [OF assms(1), of "st\<lparr>params := (params st)\<lparr>p_ready := True\<rparr>\<rparr>"] unfolding frame
    by (auto simp: slot_defs split: if_splits)
  have cap: "avcc_buf_size st2 \<le> 2 ^ 20" using ok2 by (simp add: rec_ok_def bufs_def)
  have "length sei \<le> avcc_buf_size st2"
    using assms(3) by (auto simp: sei_def prims_ok_def split: option.splits)
  moreover have "length avcc \<le> avcc_buf_size st2 - length sei" using avcc_within [OF a] cap assms(2) by simp
  ultimately have "length (sei @ avcc) \<le> 2 ^ 20" using cap by simp
  then show "length bs \<le> 2 ^ 20" if "r = Some bs"
    using assms(2,4) that unfolding frame by (auto split: if_splits)
qed

lemma read_audio_rec:
  assumes "rec_ok P key W cl st" and "list_all audio_fits rs" and "list_all (\<lambda>f. length (af_data f) \<le> 8192) acc"
    and "read_audio n rs acc (L, st) = (frames, L', st')"
  shows "rec_ok P key W cl st' \<and> list_all (\<lambda>f. length (af_data f) \<le> 8192) frames"
  using assms
proof (induction n arbitrary: rs acc L st)
  case (Suc n)
  show ?case
  proof (cases rs)
    case (Cons r rs')
    show ?thesis
    proof (cases r)
      case (A_Frame bs ts)
      let ?st = "st\<lparr>audio_pb := map_option (rmr_prebuf_push bs ts False) (audio_pb st)\<rparr>"
      have "files_ok P key W cl ?st" using files_ok_cong [OF rec_files [OF Suc.prems(1)]] by (simp add: slot_defs)
      moreover have "pb_ok 8192 (audio_pb ?st)"
        using Suc.prems(1,2) Cons A_Frame pb_ok_push [of 8192] by (cases "audio_pb st") (simp_all add: rec_ok_def bufs_def)
      ultimately have "rec_ok P key W cl ?st" using Suc.prems(1) by (simp add: rec_ok_def bufs_def)
      moreover obtain a L1 where "read_audio n rs' (acc @ [a]) (L1, ?st) = (frames, L', st')" "af_data a = bs"
        using Suc.prems(4) Cons A_Frame by simp
      ultimately show ?thesis
        using Suc.IH [of ?st rs' "acc @ [a]" L1] Suc.prems(2,3) Cons A_Frame by simp
    qed (use Suc.prems Cons in simp)
  qed (use Suc.prems in simp)
qed simp

lemma audio_burst_rec:
  assumes "rec_ok P key W cl st" and "list_all audio_fits (i_audio i)" and "audio_burst i (L, st) = (frames, L', st')"
  shows "rec_ok P key W cl st' \<and> list_all (\<lambda>f. length (af_data f) \<le> 8192) frames"
proof (cases "audio_ring st")
  case False
  then show ?thesis using assms(1,3) by (auto simp: audio_burst_def)
next
  case True
  obtain fs L1 st1 where r: "read_audio 4 (i_audio i) [] (L, st) = (fs, L1, st1)" by (metis surj_pair)
  from read_audio_rec [OF assms(1,2) _ r]
  have ok: "rec_ok P key W cl st1" "list_all (\<lambda>f. length (af_data f) \<le> 8192) fs" by simp_all
  then show ?thesis
    using assms(3) True r rec_ok_cong [OF ok(1), of "st1\<lparr>audio_ring := False\<rparr>"]
    by (auto simp: audio_burst_def Let_def slot_defs split: if_splits)
qed

subsection \<open>Continuous recording\<close>

lemma segment_tick_rec:
  assumes "rec_ok P key W cl st" and "mux st = Some m"
  shows "rec_ok P key W cl (segment_tick P t k m st)"
proof -
  let ?st1 = "st\<lparr>frames_since_flush := frames_since_flush st + 1\<rparr>"
  define st2 where "st2 = (if \<not> segment_idr_requested ?st1 \<and> \<not> k \<and> segment_boundary_rt_us ?st1 \<le> now_rt t
    then ?st1\<lparr>world := request_idr (world ?st1), segment_idr_requested := True\<rparr> else ?st1)"
  have ok2: "rec_ok P key W cl st2" "mux st2 = Some m"
    using rec_ok_cong [OF assms(1), of st2] assms(2) by (simp_all add: st2_def slot_defs request_idr_def)
  note fl = flush_segment_rec [OF ok2]
  let ?st4 = "close_segment P (flush_segment P m st2)"
  have "rec_ok P key W cl (?st4\<lparr>world := (world ?st4)\<lparr>cleanups := n\<rparr>\<rparr>)" for n
    using rec_ok_cong [of P key W cl ?st4] close_segment_rec fl by (simp add: slot_defs)
  then show ?thesis
    using ok2 fl unfolding segment_tick_def Let_def st2_def [symmetric] by simp
qed

lemma write_audio_frames_ok:
  "mux_ok m \<Longrightarrow> list_all (\<lambda>f. length (af_data f) \<le> 8192) fs \<Longrightarrow> mux_ok (snd (write_audio_frames fs rate (L, m)))"
proof (induction fs arbitrary: L m)
  case (Cons f fs)
  obtain dts base where s: "steer_audio_dts (a_dts_counter L) (af_ts f) (a_ts_base L) (af_samples f) rate = (dts, base)" by fastforce
  let ?m = "snd (rmr_mux_write_audio \<lparr>as_data = af_data f, as_dts = dts\<rparr> m)"
  have "mux_ok ?m" using Cons.prems by (intro write_audio_ok) simp_all
  with Cons.IH [OF this] Cons.prems show ?case by (simp add: s Let_def case_prod_beta)
qed simp

lemma seg_stored:
  assumes "rec_ok P key W cl st" and "mux st \<noteq> None" and "mux_ok m"
  shows "rec_ok P key W cl (st\<lparr>mux := Some m\<rparr>)"
proof -
  obtain m0 where m0: "mux st = Some m0" using assms(2) by blast
  have "files_ok P key W cl (st\<lparr>mux := Some m\<rparr>)"
    using seg_written [OF rec_files [OF assms(1)] assms(2) seg_chain.touches_refl assms(3)] busy_seg [OF rec_files [OF assms(1)] m0] by simp
  then show ?thesis using assms(1) by (simp add: rec_ok_def)
qed

lemma write_samples_rec:
  assumes "rec_ok P key W cl st" and "mux st = Some m" and "length bs \<le> 2 ^ 20" and "list_all (\<lambda>f. length (af_data f) \<le> 8192) frames"
  shows "rec_ok P key W cl (snd (write_samples bs ts k frames m (L, st)))"
proof -
  define L1 where "L1 = (if v_ts_base L < 0 then L\<lparr>v_ts_base := ts\<rparr> else L)"
  define dts where "dts = cdiv ((ts - v_ts_base L1) * 90) 1000"
  obtain r m1 where v: "rmr_mux_write_video \<lparr>vs_data = bs, vs_dts = dts, vs_pts = dts, vs_key = k\<rparr> m = (r, m1)" by fastforce
  have "mux_ok m" using busy_seg [OF rec_files [OF assms(1)] assms(2)] by simp
  then have m1: "mux_ok m1" using write_video_ok [of m "\<lparr>vs_data = bs, vs_dts = dts, vs_pts = dts, vs_key = k\<rparr>"] assms(3) by (simp add: v)
  define st1 where "st1 = (if r = 0 then st\<lparr>frames_written := frames_written st + 1\<rparr> else st\<lparr>frames_dropped := frames_dropped st + 1\<rparr>)"
  have "rec_ok P key W cl st1" "mux st1 \<noteq> None"
    using rec_ok_cong [OF assms(1), of st1] assms(2) by (simp_all add: st1_def slot_defs)
  with seg_stored [OF this write_audio_frames_ok [OF m1 assms(4)]] show ?thesis
    unfolding write_samples_def Let_def prod.case L1_def [symmetric] dts_def [symmetric] v st1_def [symmetric]
    by (simp add: case_prod_beta)
qed

lemma start_segment_rec:
  assumes "rec_ok P key W cl st" and "mux st = None" and "prims_ok P"
  shows "rec_ok P key W cl (snd (start_segment P t st))"
  using start_segment_ok [OF rec_files [OF assms(1)] assms(2,3)] rec_okI [of P key W cl "snd (start_segment P t st)" st] assms(1) by simp

lemma record_continuous_rec:
  assumes "rec_ok P key W cl st" and "length bs \<le> 2 ^ 20" and "list_all (\<lambda>f. length (af_data f) \<le> 8192) frames" and "prims_ok P"
  shows "rec_ok P key W cl (snd (record_continuous P i bs ts k frames (L, st)))"
proof (cases "rec_on st \<and> i_storage i")
  case False
  then show ?thesis
    using close_segment_rec [OF assms(1)] assms(1) by (auto simp: record_continuous_def Let_def split: if_splits)
next
  case True
  define st2 where "st2 = (case mux st of Some m \<Rightarrow> segment_tick P (i_clock i) k m st | None \<Rightarrow> st)"
  have ok2: "rec_ok P key W cl st2" using assms(1) segment_tick_rec [OF assms(1)] by (simp add: st2_def split: option.splits)
  show ?thesis
  proof (cases "mux st2")
    case (Some m)
    then show ?thesis
      using True write_samples_rec [OF ok2 Some assms(2,3)] by (simp add: record_continuous_def Let_def flip: st2_def)
  next
    case None
    obtain r st3 where st3: "start_segment P (i_clock i) st2 = (r, st3)" by fastforce
    have ok3: "rec_ok P key W cl st3" using start_segment_rec [OF ok2 None assms(4), of "i_clock i"] by (simp add: st3)
    have ok4: "rec_ok P key W cl (st3\<lparr>frames_written := 0, st_bytes_written := 0\<rparr>)"
      using rec_ok_cong [OF ok3] by (simp add: slot_defs)
    show ?thesis
      using True None ok2 ok3 write_samples_rec [OF ok4 _ assms(2,3)]
      by (simp add: record_continuous_def Let_def st3 split: option.splits flip: st2_def)
  qed
qed

subsection \<open>Clips and timelapse\<close>

lemma fold_clip_audio_rec:
  "rec_ok P key W cl st \<Longrightarrow> list_all (\<lambda>f. length (af_data f) \<le> 8192) frames \<Longrightarrow>
     rec_ok P key W cl (fold (\<lambda>f. clip_write_audio (af_data f) (af_samples f) (af_ts f)) frames st)"
  by (induction frames arbitrary: st) (simp_all add: clip_audio_rec)

lemma clip_rotate_rec: "rec_ok P key W cl st \<Longrightarrow> prims_ok P \<Longrightarrow> rec_ok P key W cl (clip_rotate P t want st)"
  using close_clip_rec [of P key W cl st] open_clip_rec [of P key W cl "close_clip P st" t] by (simp add: clip_rotate_def Let_def)

lemma record_clip_rec:
  assumes "rec_ok P key W cl st" and "length bs \<le> 2 ^ 20" and "list_all (\<lambda>f. length (af_data f) \<le> 8192) frames" and "prims_ok P"
  shows "rec_ok P key W cl (record_clip P i bs ts k frames (L, st))"
proof -
  define want where "want = (if mode st = RMR_MODE_BOTH then clip_recording st else rec_on st)"
  define st1 where "st1 = (if want \<and> clip_mux st = None \<and> i_clip_storage i
    then snd (open_clip_with_prebuffer P (i_clock i) (audio_samples_per_frame L) (audio_bps L) st) else st)"
  have ok1: "rec_ok P key W cl st1" using assms(1,4) open_clip_with_prebuffer_rec by (simp add: st1_def)
  define st2 where "st2 = (if clip_mux st1 \<noteq> None then clip_rotate P (i_clock i) want
    (fold (\<lambda>f. clip_write_audio (af_data f) (af_samples f) (af_ts f)) frames (clip_write_video P bs ts k st1)) else st1)"
  have "rec_ok P key W cl st2"
    using ok1 clip_rotate_rec [OF fold_clip_audio_rec [OF clip_video_rec [OF ok1 assms(2)] assms(3)] assms(4)] by (simp add: st2_def)
  then show ?thesis
    using assms(1) close_clip_rec [of P key W cl st2]
    unfolding record_clip_def Let_def prod.case want_def [symmetric] st1_def [symmetric] st2_def [symmetric] by simp
qed

lemma sample_timelapse_rec:
  assumes "rec_ok P key W cl st" and "length bs \<le> 2 ^ 20" and "prims_ok P"
  shows "rec_ok P key W cl (sample_timelapse P i bs k st)"
proof (cases "tl_enabled st \<and> (p_ready (params st) \<or> video_codec st = 2)")
  case False
  then show ?thesis using assms(1) by (auto simp: sample_timelapse_def)
next
  case True
  let ?st1 = "st\<lparr>tl := rmr_tl_tick (now_us (i_clock i)) (tl st)\<rparr>"
  define st2 where "st2 = (if \<not> want_sample (tl st) \<and> want_sample (tl ?st1) \<and> video_codec ?st1 \<noteq> 2
    then ?st1\<lparr>world := request_idr (world ?st1)\<rparr> else ?st1)"
  have ok2: "rec_ok P key W cl st2" using rec_ok_cong [OF assms(1), of st2] by (simp add: st2_def slot_defs request_idr_def)
  obtain ok tl' where t: "rmr_tl_take (video_read_seq st2) (tl st2) = (ok, tl')" by fastforce
  have ok3: "rec_ok P key W cl (st2\<lparr>tl := tl'\<rparr>)" using rec_ok_cong [OF ok2] by (simp add: slot_defs)
  have "rec_ok P key W cl (timelapse_write_sample P (i_clock i) bs (st2\<lparr>tl := tl'\<rparr>))"
    by (rule rec_okI [OF timelapse_write_sample_ok [OF rec_files [OF ok3] assms(2,3)] _ ok3]) simp
  then show ?thesis
    using True ok2 ok3 unfolding sample_timelapse_def Let_def st2_def [symmetric] t by simp
qed

subsection \<open>Iterations\<close>

lemma process_frame_rec:
  assumes "rec_ok P key W cl st" and "length frame \<le> 2 ^ 20" and "list_all audio_fits (i_audio i)" and "prims_ok P"
  shows "rec_ok P key W cl (snd (process_frame P i frame ts k (L, st)))"
proof -
  obtain r st1 where p: "prepare_frame P i frame ts k st = (r, st1)" by fastforce
  note ok1 = prepare_frame_rec [OF assms(1,2,4) p]
  show ?thesis
  proof (cases r)
    case None
    then show ?thesis using ok1(1) p by (simp add: process_frame_def)
  next
    case (Some bs)
    have bs: "length bs \<le> 2 ^ 20" using ok1(2) Some by simp
    let ?st2 = "st1\<lparr>video_pb := map_option (rmr_prebuf_push bs ts k) (video_pb st1)\<rparr>"
    have "files_ok P key W cl ?st2" using files_ok_cong [OF rec_files [OF ok1(1)]] by (simp add: slot_defs)
    moreover have "pb_ok (2 ^ 20) (video_pb ?st2)"
      using ok1(1) bs pb_ok_push [of "2 ^ 20"] by (cases "video_pb st1") (simp_all add: rec_ok_def bufs_def)
    ultimately have ok2: "rec_ok P key W cl ?st2" using ok1(1) by (simp add: rec_ok_def bufs_def)
    obtain frames L3 st3 where a: "audio_burst i (L, ?st2) = (frames, L3, st3)" by (metis surj_pair)
    from audio_burst_rec [OF ok2 assms(3) a] have ok3: "rec_ok P key W cl st3" and fr: "list_all (\<lambda>f. length (af_data f) \<le> 8192) frames" by simp_all
    obtain L4 st4 where c: "record_continuous P i bs ts k frames (L3, st3) = (L4, st4)" by fastforce
    have "rec_ok P key W cl st4" using record_continuous_rec [OF ok3 bs fr assms(4), of i ts k L3] by (simp add: c)
    from sample_timelapse_rec [OF record_clip_rec [OF this bs fr assms(4)] bs assms(4)] show ?thesis
      by (simp add: process_frame_def p Some a c)
  qed
qed

lemma ctrl_rec:
  assumes "rec_ok P key W cl st"
  shows "rec_ok P key W cl (snd (rmr_ctrl_handler P rq st))"
proof -
  have fields: "rec_ok P key W cl (st\<lparr>rec_on := a, clip_recording := b\<rparr>)" "rec_ok P key W cl (st\<lparr>tl_enabled := c\<rparr>)"
    "rec_ok P key W cl (st\<lparr>tl := d\<rparr>)" "rec_ok P key W cl (st\<lparr>tl := d, world := request_idr (world st)\<rparr>)" for a b c d
    using rec_ok_cong [OF assms] by (simp_all add: slot_defs request_idr_def)
  have close: "rec_ok P key W cl (close_timelapse P st')" if "rec_ok P key W cl st'" for st'
    using close_timelapse_rec [OF that] by simp
  have set: "rec_ok P key W cl (snd (timelapse_set P k v st))" for k v
    using assms fields close by (simp add: timelapse_set_def Let_def case_prod_beta)
  have disable: "rec_ok P key W cl (if tl_mux (st\<lparr>tl_enabled := False\<rparr>) \<noteq> None then close_timelapse P (st\<lparr>tl_enabled := False\<rparr>) else st\<lparr>tl_enabled := False\<rparr>)"
    using fields(2) close by simp
  have snap: "rec_ok P key W cl (if video_ring (st\<lparr>tl := d\<rparr>) \<and> video_codec (st\<lparr>tl := d\<rparr>) \<noteq> 2
      then st\<lparr>tl := d, world := request_idr (world (st\<lparr>tl := d\<rparr>))\<rparr> else st\<lparr>tl := d\<rparr>)" for d
    using fields(3,4) by simp
  have branch: "rec_ok P key W cl (snd (if b then x else y))"
    if "rec_ok P key W cl (snd x)" "rec_ok P key W cl (snd y)" for b and x y :: "ctrl_resp \<times> rmr_state"
    using that by simp
  have args: "rec_ok P key W cl (snd (case (rq_key rq, rq_value rq) of (Some k, Some v) \<Rightarrow> timelapse_set P k v st
      | _ \<Rightarrow> (Resp_Error ''need key and value'', st)))"
    using set assms by (simp split: option.splits)
  show ?thesis
  proof (cases "rq_cmd rq")
    case None
    then show ?thesis using assms by (simp add: rmr_ctrl_handler_def)
  next
    case (Some cmd)
    show ?thesis
      unfolding rmr_ctrl_handler_def Let_def Some option.case
      by (intro branch) (simp_all only: snd_conv assms fields disable snap args)
  qed
qed

lemma standby_rec:
  assumes "rec_ok P key W cl st"
  shows "rec_ok P key W cl (snd (enter_standby P (L, st)))"
proof -
  define st1 where "st1 = (if mux st \<noteq> None then close_segment P st else st)"
  define st2 where "st2 = (if clip_mux st1 \<noteq> None then close_clip P st1 else st1)"
  have "rec_ok P key W cl st1" using assms close_segment_rec [OF assms] by (simp add: st1_def)
  then have "rec_ok P key W cl st2" using close_clip_rec by (simp add: st2_def)
  from rec_ok_cong [OF this, of "st2\<lparr>video_ring := False, audio_ring := False\<rparr>"]
  show ?thesis using assms by (simp add: enter_standby_def Let_def st1_def st2_def slot_defs split: if_splits)
qed

lemma reconnect_rec:
  assumes "rec_ok P key W cl st" and "input_ok P i"
  shows "rec_ok P key W cl (snd (reconnect_video P i (L, st)))"
proof (cases "i_video_open i")
  case None
  then show ?thesis using assms(1) by (simp add: reconnect_video_def)
next
  case (Some v)
  obtain h mfs ok where v: "v = (h, mfs, ok)" by (cases v)
  have fit: "mfs + sei_max P \<le> 2 ^ 20" using assms(2) by (simp add: input_ok_def Some v)
  define st1 where "st1 = (if frame_buf_size st < mfs then st\<lparr>frame_buf_size := mfs, avcc_buf_size := mfs + sei_max P\<rparr> else st)"
  define st2 where "st2 = st1\<lparr>video_ring := True, video_codec := uint (rh_codec h), video_read_seq := 0,
    params := (params st1)\<lparr>p_ready := False\<rparr>\<rparr>"
  have "files_ok P key W cl st2" using files_ok_cong [OF rec_files [OF assms(1)], of st2] by (simp add: st1_def st2_def slot_defs)
  then have ok2: "rec_ok P key W cl st2" using assms(1) fit by (simp add: rec_ok_def bufs_def st1_def st2_def)
  define st3 where "st3 = (if tl_mux st2 \<noteq> None then close_timelapse P st2 else st2)"
  have "rec_ok P key W cl st3" using ok2 close_timelapse_rec [OF ok2] by (simp add: st3_def)
  from rec_ok_cong [OF this, of "st3\<lparr>tl := rmr_tl_ring_reset (tl st3)\<rparr>"] show ?thesis
    using assms(1) unfolding reconnect_video_def Let_def prod.case Some v option.case st1_def [symmetric] st2_def [symmetric] st3_def [symmetric]
    by (simp add: slot_defs)
qed

lemma record_iter_rec:
  assumes "rec_ok P key W cl (snd s)" and "input_ok P i" and "prims_ok P"
  shows "rec_ok P key W cl (snd (record_iter P i s))"
proof -
  obtain L st0 where s: "s = (L, st0)" by (cases s)
  define st where "st = (case i_ctrl i of Some rq \<Rightarrow> snd (rmr_ctrl_handler P rq st0) | None \<Rightarrow> st0)"
  have ok: "rec_ok P key W cl st" using assms(1) ctrl_rec by (simp add: s st_def split: option.splits)
  obtain L1 st1 where a: "attach_audio i (L\<lparr>standby := False\<rparr>, st) = (L1, st1)" by fastforce
  have ok1: "rec_ok P key W cl st1"
    using a ok rec_ok_cong [OF ok, of st1] by (auto simp: attach_audio_def Let_def slot_defs split: if_splits option.splits)
  have idle: "rec_ok P key W cl (snd (video_idle_step ws (L1, st1)))" for ws
    using ok1 rec_ok_cong [OF ok1] by (simp add: video_idle_step_def Let_def slot_defs)
  have fields: "rec_ok P key W cl (st1\<lparr>world := request_idr (world st1), frames_dropped := n\<rparr>)"
    "rec_ok P key W cl (st1\<lparr>video_read_seq := q\<rparr>)" "rec_ok P key W cl (st1\<lparr>video_read_seq := q, frames_dropped := n\<rparr>)" for n q
    using rec_ok_cong [OF ok1] by (simp_all add: slot_defs request_idr_def)
  have frame: "rec_ok P key W cl (snd (process_frame P i bs ts k (L2, st1\<lparr>video_read_seq := q\<rparr>)))"
    if "i_video i = V_Frame bs ts k q" for bs ts k q L2
    using process_frame_rec [OF fields(2)] assms(2,3) that by (simp add: input_ok_def)
  show ?thesis
  proof (cases "i_dest i \<and> video_ring st1")
    case False
    then show ?thesis
      using standby_rec [OF ok] reconnect_rec [OF ok1 assms(2)] unfolding record_iter_def Let_def s prod.case st_def [symmetric] a by simp
  next
    case True
    then show ?thesis
      unfolding record_iter_def Let_def s prod.case st_def [symmetric] a
      using ok1 idle fields frame by (cases "i_video i") simp_all
  qed
qed

lemma record_loop_rec:
  "rec_ok P key W cl (snd s) \<Longrightarrow> list_all (input_ok P) is \<Longrightarrow> prims_ok P \<Longrightarrow> rec_ok P key W cl (snd (fold (record_iter P) is s))"
  by (induction "is" arbitrary: s) (simp_all add: record_iter_rec)

subsection \<open>The daemon from start to end\<close>

definition env_ok :: "prims \<Rightarrow> rmr_sign_key \<Rightarrow> rmr_config \<Rightarrow> rmr_env \<Rightarrow> bool" where
  "env_ok P key cf e \<longleftrightarrow> cf_sign cf \<and> e_key e = Some key \<and> list_all lucky (writes (e_world e)) \<and>
     list_all (\<lambda>r. case r of Some (h, mfs) \<Rightarrow> mfs + sei_max P \<le> 2 ^ 20 | None \<Rightarrow> True) (e_video_tries e)"

lemma configure_ok:
  assumes "env_ok P key cf e"
  shows "rec_ok P key (set (open_fds (e_world e))) (closed (e_world e)) (configure cf e) \<and>
    mux (configure cf e) = None \<and> clip_mux (configure cf e) = None \<and> tl_mux (configure cf e) = None"
  using assms
  by (simp add: env_ok_def configure_def rmr_state_zero_def Let_def rec_ok_def files_ok_def healthy_def slots_ok_def
      open_view_def slot_defs bufs_def)

lemma setup_ok:
  assumes "env_ok P key cf e"
  shows "rec_ok P key (set (open_fds (e_world e))) (closed (e_world e)) (snd (rmr_setup P cf e))"
proof -
  let ?W = "set (open_fds (e_world e))" and ?cl = "closed (e_world e)" and ?st = "configure cf e"
  have ok: "rec_ok P key ?W ?cl ?st" using configure_ok [OF assms] by simp
  show ?thesis
  proof (cases "open_video P e ?st")
    case None
    then show ?thesis using ok by (simp add: rmr_setup_def)
  next
    case (Some v)
    obtain fps st1 where v: "v = (fps, st1)" by (cases v)
    obtain h mfs where h: "List.find (\<lambda>r. r \<noteq> None) (take 30 (e_video_tries e)) = Some (Some (h, mfs))"
        "st1 = ?st\<lparr>video_ring := True, video_codec := uint (rh_codec h), width := rh_width h, height := rh_height h,
              frame_buf_size := mfs, avcc_buf_size := mfs + sei_max P\<rparr>"
      using Some by (auto simp: open_video_def v split: option.splits if_splits)
    have "Some (h, mfs) \<in> set (e_video_tries e)"
      using h(1) by (auto simp: find_Some_iff dest: nth_mem in_set_takeD)
    then have "mfs + sei_max P \<le> 2 ^ 20" using assms by (auto simp: env_ok_def list_all_iff)
    then have ok1: "rec_ok P key ?W ?cl st1"
      using ok files_ok_cong [OF rec_files [OF ok], of st1] by (simp add: h(2) rec_ok_def bufs_def slot_defs)
    have ok2: "rec_ok P key ?W ?cl (open_audio e st1)"
      using ok1 rec_ok_cong [OF ok1] by (simp add: open_audio_def slot_defs split: option.splits)
    let ?st3 = "create_prebufs cf e fps (open_audio e st1)"
    have "files_ok P key ?W ?cl ?st3"
      using files_ok_cong [OF rec_files [OF ok2], of ?st3] by (simp add: create_prebufs_def Let_def slot_defs)
    then have ok3: "rec_ok P key ?W ?cl ?st3"
      using ok2 pb_ok_create by (simp add: rec_ok_def bufs_def create_prebufs_def Let_def)
    show ?thesis
      using Some v ok3 rec_ok_cong [OF ok3] by (simp add: rmr_setup_def Let_def slot_defs bufs_def)
  qed
qed

definition idle :: "rmr_state \<Rightarrow> bool" where
  "idle st \<longleftrightarrow> mux st = None \<and> clip_mux st = None \<and> tl_mux st = None"

lemma setup_idle:
  assumes "env_ok P key cf e"
  shows "idle (snd (rmr_setup P cf e))"
proof -
  have pre: "idle (create_prebufs cf e fps (open_audio e st))" if "idle st" for st fps
    using that by (simp add: idle_def create_prebufs_def open_audio_def Let_def split: option.splits)
  have conf: "idle (configure cf e)" using configure_ok [OF assms] by (simp add: idle_def)
  have vid: "idle st1" if "open_video P e (configure cf e) = Some (fps, st1)" for fps st1
    using that conf by (auto simp: open_video_def idle_def split: option.splits if_splits)
  show ?thesis
  proof (cases "open_video P e (configure cf e)")
    case None
    then show ?thesis using conf by (simp add: rmr_setup_def)
  next
    case (Some v)
    obtain fps st1 where v: "v = (fps, st1)" by (cases v)
    show ?thesis using pre [OF vid [OF Some [unfolded v]]] by (simp add: rmr_setup_def Some v Let_def idle_def)
  qed
qed

text \<open>Closing one file does not touch the muxers of the others.\<close>

interpretation clip_mux_frame: frame_sink clip_write mux
  by unfold_locales (simp add: clip_write_def case_prod_beta Let_def split: write_end.splits)

interpretation tl_mux_frame: frame_sink tl_write "\<lambda>st. (mux st, clip_mux st)"
  by unfold_locales (simp add: tl_write_def case_prod_beta Let_def split: write_end.splits)

lemma close_clip_mux: "mux (close_clip P st) = mux st"
  using clip_mux_frame.view_finalize clip_mux_frame.view_emit [of sign_clip_update]
  by (simp add: close_clip_def emit_clip_def case_prod_beta Let_def split: option.splits)

lemma close_timelapse_muxes: "mux (close_timelapse P st) = mux st" "clip_mux (close_timelapse P st) = clip_mux st"
  using tl_mux_frame.view_finalize tl_mux_frame.view_emit [of sign_tl_update]
  by (simp_all add: close_timelapse_def emit_tl_def case_prod_beta Let_def split: option.splits)

lemma shutdown_rec:
  assumes "rec_ok P key W cl st"
  shows "rec_ok P key W cl (record_shutdown P st) \<and> mux (record_shutdown P st) = None"
proof -
  define st1 where "st1 = (if mux st \<noteq> None then close_segment P st else st)"
  have ok1: "rec_ok P key W cl st1" "mux st1 = None" using assms close_segment_rec [OF assms] by (simp_all add: st1_def)
  then show ?thesis
    using close_clip_rec [OF ok1(1)] close_clip_mux unfolding record_shutdown_def Let_def st1_def [symmetric] by simp
qed

text \<open>What the verifier says of the files of a slot and of completed files.\<close>

definition accepts_prefixes :: "prims \<Rightarrow> (byte list \<Rightarrow> byte list \<Rightarrow> byte list \<Rightarrow> bool) \<Rightarrow> rmr_sign_key \<Rightarrow> byte list \<Rightarrow> bool" where
  "accepts_prefixes P chk key f \<longleftrightarrow> (\<forall>n. let (r, w) = rverify_mp4 (sha512 P) chk (Some (public key)) (take n f)
     in w_failures w = 0 \<and> r = (if w_box_count w = 0 then 2 else 0))"

lemma recording_accepted:
  assumes "key_pair (sha512 P) (ed25519 P) chk key" and "recording xs"
  shows "accepts_prefixes P chk key (file_of P key xs)"
  using signed_spans_verify [OF assms(1) _ assms(2), of "Some (public key)"]
  by (force simp: accepts_prefixes_def file_of_def case_prod_beta Let_def)

lemma complete_accepted:
  assumes "key_pair (sha512 P) (ed25519 P) chk key" and "complete P key f"
  shows "accepts_prefixes P chk key f" and "fst (rverify_mp4 (sha512 P) chk (Some (public key)) f) = 0"
    and "saw_final (snd (rverify_mp4 (sha512 P) chk (Some (public key)) f))"
proof -
  obtain xs where xs: "recording xs" "xs \<noteq> []" "snd (last xs)" "f = file_of P key xs" using assms(2) by (auto simp: complete_def)
  show "accepts_prefixes P chk key f" using recording_accepted [OF assms(1) xs(1)] by (simp add: xs(4))
  from signed_spans_verify [OF assms(1) _ xs(1), of "Some (public key)" "length f"] xs
  show "fst (rverify_mp4 (sha512 P) chk (Some (public key)) f) = 0"
    "saw_final (snd (rverify_mp4 (sha512 P) chk (Some (public key)) f))"
    by (auto simp: file_of_def case_prod_beta Let_def)
qed

lemma idle_world:
  assumes "rec_ok P key W cl st" and "idle st"
  shows "set (open_fds (world st)) = W \<and> (\<exists>fs. closed (world st) = cl @ fs \<and> list_all (\<lambda>f. f = [] \<or> complete P key f) fs)"
  using assms by (auto simp: rec_ok_def files_ok_def slots_ok_def open_view_def slot_defs idle_def)

lemma cleanup_world:
  assumes "rec_ok P key W cl st" and "mux st = None"
  shows "set (open_fds (world (rmr_cleanup P st))) = W \<and>
    (\<exists>fs. closed (world (rmr_cleanup P st)) = cl @ fs \<and> list_all (\<lambda>f. f = [] \<or> complete P key f) fs)"
proof -
  define st1 where "st1 = (if clip_mux st \<noteq> None then close_clip P st else st)"
  define st2 where "st2 = (if tl_mux st1 \<noteq> None then close_timelapse P st1 else st1)"
  have ok1: "rec_ok P key W cl st1" "mux st1 = None" "clip_mux st1 = None"
    using assms close_clip_rec [OF assms(1)] close_clip_mux by (simp_all add: st1_def)
  then have "rec_ok P key W cl st2" "idle st2"
    using close_timelapse_rec [OF ok1(1)] close_timelapse_muxes by (simp_all add: st2_def idle_def)
  from idle_world [OF this] show ?thesis
    unfolding rmr_cleanup_def Let_def st1_def [symmetric] st2_def [symmetric] by simp
qed

subsection \<open>Properties\<close>

text \<open>An example: a signing recorder in continuous mode that sees a motion JPEG frame and then loses its storage.\<close>

definition demo_prims :: prims where
  "demo_prims = \<lparr>sha512 = demo_sha, ed25519 = demo_sign, aac_asc = (\<lambda>_ _ _. None), sei_max = 64, sei_build = (\<lambda>_ _ _ _. None)\<rparr>"

definition demo_config :: rmr_config where
  "demo_config = \<lparr>cf_rec_enabled = True, cf_tl_enabled = False, cf_tl_interval = 10, cf_tl_fps = 30, cf_tl_file_frames = 0,
     cf_audio = False, cf_sei_timecode = False, cf_sign = True, cf_mode = ''continuous'', cf_prebuffer_sec = 5,
     cf_clip_length_sec = 60, cf_bitrate = 2000000,
     cf_storage = \<lparr>cfg_base_path = ''/mnt'', cfg_segment_minutes = 5, cfg_segment_seconds = 0, cfg_max_storage_mb = 0\<rparr>\<rparr>"

definition demo_env :: rmr_env where
  "demo_env = \<lparr>e_key = Some demo_key,
     e_video_tries = [None, Some (\<lparr>rh_codec = 2, rh_fps_num = 25, rh_width = 640, rh_height = 360, rh_profile = 0, rh_write_seq = 0\<rparr>, 4096)],
     e_buffers = True, e_audio = None, e_video_region = None, e_audio_region = None, e_storage = True, e_clip_storage = False,
     e_tl_storage = False, e_world = demo_world\<rparr>"

definition demo_input :: "bool \<Rightarrow> rmr_input" where
  "demo_input dest = \<lparr>i_ctrl = None,
     i_clock = \<lparr>now_us = 1000000, now_rt = 1000000, local_tm = \<lparr>tm_year = 126, tm_mon = 0, tm_mday = 1, tm_hour = 0, tm_min = 0, tm_sec = 0\<rparr>\<rparr>,
     i_dest = dest, i_storage = True, i_clip_storage = False, i_audio_open = None, i_video_open = None,
     i_video = V_Frame [0xff, 0xd8, 0xff, 0xd9] 1000 True 1, i_audio = [], i_audio_ws = 0, i_utc = None\<rparr>"

lemma demo_hypotheses:
  "key_pair (sha512 demo_prims) (ed25519 demo_prims) demo_check demo_key" "prims_ok demo_prims" "env_ok demo_prims demo_key demo_config demo_env"
  "list_all (input_ok demo_prims) [demo_input True, demo_input False]"
  using demo_key_pair
  by (simp_all add: demo_prims_def prims_ok_def env_ok_def demo_config_def demo_env_def demo_world_def input_ok_def demo_input_def)

text \<open>
  C1. What the recorder leaves behind. From the start of the daemon to its end, with any
  configuration that signs, any sequence of control requests, frames, losses, reconnects and
  storage outages, and as long as no write fails: the daemon ends with no file of its own open,
  and every file it closed is empty (its muxer could not be allocated) or a recording that the
  verifier accepts with the device key with exit code 0 and its closing mark; cut off anywhere,
  such a file still verifies without a failure. What is assumed is the contract of the
  libraries (\<open>key_pair\<close>, \<open>prims_ok\<close>) and the sizes of frames (\<open>env_ok\<close>, \<open>input_ok\<close>).
\<close>

theorem recorder_leaves_verified_files:
  assumes "key_pair (sha512 P) (ed25519 P) chk key" and "prims_ok P" and "env_ok P key cf e" and "list_all (input_ok P) is"
  shows "set (open_fds (rmr_main P cf e is)) = set (open_fds (e_world e)) \<and>
    (\<exists>fs. closed (rmr_main P cf e is) = closed (e_world e) @ fs \<and>
       (\<forall>f \<in> set fs. f = [] \<or> accepts_prefixes P chk key f \<and>
          fst (rverify_mp4 (sha512 P) chk (Some (public key)) f) = 0 \<and>
          saw_final (snd (rverify_mp4 (sha512 P) chk (Some (public key)) f))))"
proof -
  let ?W = "set (open_fds (e_world e))" and ?cl = "closed (e_world e)"
  obtain ok st where st: "rmr_setup P cf e = (ok, st)" by fastforce
  have ok0: "rec_ok P key ?W ?cl st" "mux st = None"
    using setup_ok [OF assms(3)] setup_idle [OF assms(3)] by (simp_all add: st idle_def)
  have loop: "rec_ok P key ?W ?cl (record_loop P w is st) \<and> mux (record_loop P w is st) = None" for w
    unfolding record_loop_def by (rule shutdown_rec, rule record_loop_rec) (use ok0 assms in simp_all)
  have "set (open_fds (rmr_main P cf e is)) = ?W \<and>
    (\<exists>fs. closed (rmr_main P cf e is) = ?cl @ fs \<and> list_all (\<lambda>f. f = [] \<or> complete P key f) fs)"
  proof (cases "cf_rec_enabled cf \<or> cf_tl_enabled cf")
    case False
    then show ?thesis by (auto simp: rmr_main_def intro: exI [of _ "[]"])
  next
    case True
    then show ?thesis
      using cleanup_world [OF ok0] cleanup_world [OF conjunct1 [OF loop] conjunct2 [OF loop]] by (simp add: rmr_main_def st)
  qed
  then show ?thesis using complete_accepted [OF assms(1)] by (fastforce simp: list_all_iff)
qed

theorem recorder_leaves_verified_files_witness:
  "set (open_fds (rmr_main demo_prims demo_config demo_env [demo_input True, demo_input False])) = {} \<and>
    (\<exists>fs. closed (rmr_main demo_prims demo_config demo_env [demo_input True, demo_input False]) = fs \<and>
       (\<forall>f \<in> set fs. f = [] \<or> accepts_prefixes demo_prims demo_check demo_key f \<and>
          fst (rverify_mp4 demo_sha demo_check (Some (public demo_key)) f) = 0 \<and>
          saw_final (snd (rverify_mp4 demo_sha demo_check (Some (public demo_key)) f))))"
  using recorder_leaves_verified_files [OF demo_hypotheses] by (simp add: demo_env_def demo_world_def demo_prims_def)



end
