(* ===== verification/Rmr_Setup.thy ===== *)
theory Rmr_Setup
  imports Rmr_Main
begin

text \<open>
  The sizes the recorder chooses at its start: rounding up to a power of two, and the slots and
  data regions of the pre-buffers.
\<close>

text \<open>Or-ing a word with its shifts by 1, 2, 4, 8 and 16 spreads every bit downwards.\<close>

lemma smear_step:
  fixes x y :: "'a::len word"
  assumes "\<And>i. bit y i \<longleftrightarrow> (\<exists>d < m. bit x (i + d))"
  shows "bit (y OR drop_bit m y) i \<longleftrightarrow> (\<exists>d < 2 * m. bit x (i + d))"
proof -
  have "(\<exists>d < m. bit x (i + m + d)) \<longleftrightarrow> (\<exists>d. m \<le> d \<and> d < 2 * m \<and> bit x (i + d))"
  proof
    assume "\<exists>d < m. bit x (i + m + d)"
    then obtain d where "d < m" "bit x (i + m + d)" by blast
    then show "\<exists>d. m \<le> d \<and> d < 2 * m \<and> bit x (i + d)" by (intro exI [of _ "m + d"]) (simp add: add.assoc)
  next
    assume "\<exists>d. m \<le> d \<and> d < 2 * m \<and> bit x (i + d)"
    then obtain d where "m \<le> d" "d < 2 * m" "bit x (i + d)" by blast
    then show "\<exists>d < m. bit x (i + m + d)" by (intro exI [of _ "d - m"]) simp
  qed
  moreover have "bit (y OR drop_bit m y) i \<longleftrightarrow> bit y i \<or> bit y (i + m)"
    by (simp add: bit_or_iff bit_drop_bit_eq add.commute)
  ultimately show ?thesis using assms by (metis leI le_add2 mult_2 order_less_le_trans)
qed

definition smear :: "u32 \<Rightarrow> u32" where
  "smear n0 = (let n1 = n0 OR drop_bit 1 n0; n2 = n1 OR drop_bit 2 n1; n3 = n2 OR drop_bit 4 n2; n4 = n3 OR drop_bit 8 n3
     in n4 OR drop_bit 16 n4)"

lemma bit_smear: "bit (smear x) i \<longleftrightarrow> (\<exists>d < 32. bit x (i + d))"
proof -
  define n1 where "n1 = x OR drop_bit 1 x"
  define n2 where "n2 = n1 OR drop_bit 2 n1"
  define n3 where "n3 = n2 OR drop_bit 4 n2"
  define n4 where "n4 = n3 OR drop_bit 8 n3"
  have "bit x i \<longleftrightarrow> (\<exists>d < 1. bit x (i + d))" for i by simp
  from smear_step [OF this] have "bit n1 i \<longleftrightarrow> (\<exists>d < 2. bit x (i + d))" for i by (simp add: n1_def)
  from smear_step [OF this] have "bit n2 i \<longleftrightarrow> (\<exists>d < 4. bit x (i + d))" for i by (simp add: n2_def)
  from smear_step [OF this] have "bit n3 i \<longleftrightarrow> (\<exists>d < 8. bit x (i + d))" for i by (simp add: n3_def)
  from smear_step [OF this] have "bit n4 i \<longleftrightarrow> (\<exists>d < 16. bit x (i + d))" for i by (simp add: n4_def)
  from smear_step [OF this] show ?thesis by (simp add: smear_def n1_def n2_def n3_def n4_def Let_def)
qed

lemma smear_mask:
  fixes x :: u32
  assumes "unat x < 2 ^ k" and "0 < k \<Longrightarrow> 2 ^ (k - 1) \<le> unat x" and "k \<le> 32"
  shows "smear x = mask k"
proof (rule bit_word_eqI)
  fix i assume "i < LENGTH(32)"
  have "(\<exists>d < 32. bit x (i + d)) \<longleftrightarrow> i < k"
  proof
    assume "\<exists>d < 32. bit x (i + d)"
    then obtain d where d: "bit x (i + d)" by blast
    show "i < k"
    proof (rule ccontr)
      assume "\<not> i < k"
      then have "unat x div 2 ^ (i + d) = 0" using assms(1) by (intro div_less) (meson le_add1 leI le_trans order_less_le_trans one_le_numeral power_increasing)
      moreover have "bit (unat x) (i + d)" using d by (simp add: bit_unsigned_iff)
      ultimately show False by (simp add: bit_iff_odd)
    qed
  next
    assume i: "i < k"
    have "unat x div 2 ^ (k - 1) = 1"
      using assms(1,2) i by (cases k) (auto intro!: div_nat_eqI)
    then have "bit (unat x) (k - 1)" by (simp add: bit_iff_odd)
    then have "bit x (k - 1)" by (simp add: bit_unsigned_iff)
    then show "\<exists>d < 32. bit x (i + d)" using i assms(3) by (intro exI [of _ "k - 1 - i"]) simp
  qed
  then show "bit (smear x) i = bit (mask k :: u32) i" using \<open>i < LENGTH(32)\<close> by (simp add: bit_smear bit_mask_iff)
qed

lemma next_pow2_power:
  assumes "0 < unat n" and "unat n \<le> 2 ^ 31"
  shows "\<exists>k \<le> 31. next_pow2 n = 2 ^ k \<and> unat n \<le> 2 ^ k \<and> 2 ^ k < 2 * unat n"
proof -
  define x where "x = n - 1"
  have x: "unat x = unat n - 1" using assms(1) unat_minus_one [of n] by (auto simp: x_def unat_gt_0)
  define k where "k = (LEAST k. unat x < 2 ^ k)"
  have "unat x < 2 ^ 31" using x assms by simp
  then have k: "unat x < 2 ^ k" "k \<le> 31" unfolding k_def by (rule LeastI, rule Least_le)
  have low: "2 ^ (k - 1) \<le> unat x" if "0 < k"
    using not_less_Least [of "k - 1" "\<lambda>k. unat x < 2 ^ k"] that by (simp add: k_def)
  have "next_pow2 n = smear x + 1"
    using assms(1) by (auto simp: next_pow2_def smear_def x_def Let_def)
  also have "\<dots> = mask k + 1" using smear_mask [OF k(1) low] k(2) by simp
  finally have "next_pow2 n = 2 ^ k" by (simp add: mask_eq_exp_minus_1)
  moreover have "2 ^ k < 2 * unat n"
    using low x assms(1) by (cases k) auto
  ultimately show ?thesis using k x by (intro exI [of _ k]) auto
qed

lemma pow2_accepted: "k \<le> 31 \<Longrightarrow> (2 :: u32) ^ k AND (2 ^ k - 1) = 0 \<and> (2 :: u32) ^ k \<noteq> 0"
proof
  assume k: "k \<le> 31"
  show "(2 :: u32) ^ k AND (2 ^ k - 1) = 0"
    by (rule bit_word_eqI) (auto simp: bit_and_iff bit_mask_iff bit_exp_iff simp flip: mask_eq_exp_minus_1)
  show "(2 :: u32) ^ k \<noteq> 0" using k by simp
qed



end
