(* ===== verification/Rcd_Schema.thy ===== *)
theory Rcd_Schema
  imports C_Text Complex_Main
begin

text \<open>
  The configuration daemon's schema: the table of writable keys of \<^verbatim>\<open>rcd/rcd_schema.c\<close> and the
  grammars of \<^verbatim>\<open>rcd/rcd_config.c\<close> that render a client's JSON value into the text a store holds.
  A JSON number is a rational, which every \<^verbatim>\<open>double\<close> is. The list of time zones is generated by
  the build and is an argument of the functions that read it.
\<close>

subsection \<open>Types of the table\<close>

datatype rcd_val_type = V_INT | V_BOOL | V_ENUM | V_CRED | V_HOST | V_IPV4 | V_TEXT | V_SECRET | V_PASSWD

datatype rcd_impact =
  RCD_IMPACT_NONE | RCD_IMPACT_SERVICE | RCD_IMPACT_STREAM | RCD_IMPACT_PIPELINE |
  RCD_IMPACT_NETWORK | RCD_IMPACT_REBOOT

datatype rcd_daemon =
  RCD_D_RVD | RCD_D_RSD | RCD_D_RAD | RCD_D_ROD | RCD_D_RIC | RCD_D_RMR | RCD_D_RMD | RCD_D_RHD |
  RCD_D_RWD | RCD_D_COUNT

text \<open>The stores behind the guarded keys, and the other providers the table names.\<close>

datatype store =
  Hostname | Net_dhcp | Net_address | Net_netmask | Net_gateway | Net_dns | Wifi_ssid | Wifi_psk

datatype provider = P_timezone | P_ntp_server | P_root_password | P_store store

datatype choice_list = No_choices | Choices "string list" | Zone_names

record rcd_key =
  k_section :: string
  k_key :: string
  k_type :: rcd_val_type
  k_min :: int
  k_max :: int
  k_choices :: choice_list
  live_cmd :: "string option"
  live_arg :: "string option"
  live_chn :: int
  live_sel :: "string option"
  k_provider :: "provider option"
  k_impact :: rcd_impact
  guard_sec :: nat
  auto_ok :: bool
  live_reset :: "string option"
  pct_ok :: bool

text \<open>The tail of a row, written by the macros of the source.\<close>

type_synonym row_tail =
  "string option \<times> string option \<times> int \<times> string option \<times> provider option \<times> rcd_impact \<times> nat \<times> bool \<times> string option \<times> bool"

definition LIVE :: "string \<Rightarrow> row_tail" where
  "LIVE cmd = (Some cmd, Some ''value'', - 1, None, None, RCD_IMPACT_NONE, 0, False, None, False)"

definition LIVE_CH :: "string \<Rightarrow> int \<Rightarrow> row_tail" where
  "LIVE_CH c n = (Some c, Some ''value'', n, None, None, RCD_IMPACT_NONE, 0, False, None, False)"

definition LIVE_CH_ARG :: "string \<Rightarrow> string \<Rightarrow> int \<Rightarrow> row_tail" where
  "LIVE_CH_ARG c a n = (Some c, Some a, n, None, None, RCD_IMPACT_NONE, 0, False, None, False)"

definition LIVE_SEL :: "string \<Rightarrow> string \<Rightarrow> row_tail" where
  "LIVE_SEL cmd sel = (Some cmd, Some ''value'', - 1, Some sel, None, RCD_IMPACT_NONE, 0, False, None, False)"

definition SAVED :: row_tail where
  "SAVED = (None, None, - 1, None, None, RCD_IMPACT_NONE, 0, False, None, False)"

definition PROVIDED :: "provider \<Rightarrow> rcd_impact \<Rightarrow> row_tail" where
  "PROVIDED p imp = (None, None, - 1, None, Some p, imp, 0, False, None, False)"

definition SAVED_PCT :: row_tail where
  "SAVED_PCT = (None, None, - 1, None, None, RCD_IMPACT_NONE, 0, False, None, True)"

definition LIVE_ISP :: "string \<Rightarrow> row_tail" where
  "LIVE_ISP cmd = (Some cmd, Some ''value'', - 1, None, None, RCD_IMPACT_NONE, 0, True, Some ''reset-isp'', False)"

definition GUARDED :: "provider \<Rightarrow> rcd_impact \<Rightarrow> nat \<Rightarrow> row_tail" where
  "GUARDED p imp sec = (None, None, - 1, None, Some p, imp, sec, False, None, False)"

fun row :: "string \<Rightarrow> string \<Rightarrow> rcd_val_type \<Rightarrow> int \<Rightarrow> int \<Rightarrow> choice_list \<Rightarrow> row_tail \<Rightarrow> rcd_key" where
  "row s k ty mn mx ch (cmd, arg, chn, sel, prov, imp, sec, aut, rst, pct) =
     \<lparr>k_section = s, k_key = k, k_type = ty, k_min = mn, k_max = mx, k_choices = ch, live_cmd = cmd,
      live_arg = arg, live_chn = chn, live_sel = sel, k_provider = prov, k_impact = imp,
      guard_sec = sec, auto_ok = aut, live_reset = rst, pct_ok = pct\<rparr>"

abbreviation RCD_GUARD_NAME_SEC :: nat where "RCD_GUARD_NAME_SEC \<equiv> 90"
abbreviation RCD_GUARD_NET_SEC :: nat where "RCD_GUARD_NET_SEC \<equiv> 90"
abbreviation RCD_GUARD_WIFI_SEC :: nat where "RCD_GUARD_WIFI_SEC \<equiv> 180"
abbreviation RCD_SECT_MAX :: nat where "RCD_SECT_MAX \<equiv> 40"
abbreviation RCD_KEY_MAX :: nat where "RCD_KEY_MAX \<equiv> 32"
abbreviation RCD_VAL_MAX :: nat where "RCD_VAL_MAX \<equiv> 128"
abbreviation RCD_EDITS_MAX :: nat where "RCD_EDITS_MAX \<equiv> 32"

subsection \<open>The table\<close>

definition choices_vcodec :: "string list" where
  "choices_vcodec = [''h264'', ''h265'']"

definition choices_acodec :: "string list" where
  "choices_acodec = [''pcmu'', ''pcma'', ''l16'', ''aac'', ''opus'']"

definition choices_ainput :: "string list" where
  "choices_ainput = [''amic'', ''dmic'']"

definition choices_arate :: "string list" where
  "choices_arate = [''8000'', ''16000'', ''32000'', ''48000'']"

definition choices_trigger :: "string list" where
  "choices_trigger = [''luma'', ''gain'', ''adc'', ''photo'']"

definition choices_align :: "string list" where
  "choices_align = [''left'', ''center'', ''right'']"

definition choices_position :: "string list" where
  "choices_position = [''top_left'', ''top_center'', ''top_right'', ''bottom_left'', ''bottom_center'', ''bottom_right'', ''center'']"

definition choices_algorithm :: "string list" where
  "choices_algorithm = [''move'', ''base_move'', ''persondet'', ''yolo'']"

definition choices_recmode :: "string list" where
  "choices_recmode = [''continuous'', ''motion'', ''both'']"

definition choices_rotate :: "string list" where
  "choices_rotate = [''0'', ''90'', ''180'', ''270'']"

definition labels_antiflicker :: "string list" where
  "labels_antiflicker = [''off'', ''50hz'', ''60hz'']"

definition labels_profile :: "string list" where
  "labels_profile = [''baseline'', ''main'', ''high'']"

definition labels_recstream :: "string list" where
  "labels_recstream = [''main'', ''sub'']"

definition choices_rc_mode :: "string list" where
  "choices_rc_mode = [''cbr'', ''vbr'', ''capped_vbr'', ''capped_quality'', ''fixqp'', ''smart'']"


definition keys :: "rcd_key list" where
  "keys =
    [
     row ''sensor'' ''fps'' V_INT 1 120 No_choices SAVED,
     row ''sensor'' ''antiflicker'' V_INT 0 2 (Choices labels_antiflicker) SAVED,
     row ''stream0'' ''width'' V_INT 160 4096 No_choices SAVED,
     row ''stream0'' ''height'' V_INT 120 4096 No_choices SAVED,
     row ''stream0'' ''codec'' V_ENUM 0 0 (Choices choices_vcodec) SAVED,
     row ''stream0'' ''profile'' V_INT 0 2 (Choices labels_profile) SAVED,
     row ''stream0'' ''rc_mode'' V_ENUM 0 0 (Choices choices_rc_mode) (LIVE_CH_ARG ''set-rc-mode'' ''mode'' 0),
     row ''stream0'' ''bitrate'' V_INT 32000 50000000 No_choices (LIVE_CH ''set-bitrate'' 0),
     row ''stream0'' ''gop'' V_INT 1 300 No_choices (LIVE_CH ''set-gop'' 0),
     row ''stream0'' ''fps'' V_INT 1 120 No_choices (LIVE_CH ''set-fps'' 0),
     row ''stream0'' ''osd_enabled'' V_BOOL 0 0 No_choices SAVED,
     row ''stream0'' ''jpeg'' V_BOOL 0 0 No_choices SAVED,
     row ''stream1'' ''enabled'' V_BOOL 0 0 No_choices SAVED,
     row ''stream1'' ''width'' V_INT 160 4096 No_choices SAVED,
     row ''stream1'' ''height'' V_INT 120 4096 No_choices SAVED,
     row ''stream1'' ''codec'' V_ENUM 0 0 (Choices choices_vcodec) SAVED,
     row ''stream1'' ''profile'' V_INT 0 2 (Choices labels_profile) SAVED,
     row ''stream1'' ''rc_mode'' V_ENUM 0 0 (Choices choices_rc_mode) (LIVE_CH_ARG ''set-rc-mode'' ''mode'' 1),
     row ''stream1'' ''bitrate'' V_INT 32000 50000000 No_choices (LIVE_CH ''set-bitrate'' 1),
     row ''stream1'' ''gop'' V_INT 1 300 No_choices (LIVE_CH ''set-gop'' 1),
     row ''stream1'' ''fps'' V_INT 1 120 No_choices (LIVE_CH ''set-fps'' 1),
     row ''stream1'' ''osd_enabled'' V_BOOL 0 0 No_choices SAVED,
     row ''stream1'' ''jpeg'' V_BOOL 0 0 No_choices SAVED,
     row ''image'' ''brightness'' V_INT 0 255 No_choices (LIVE_ISP ''set-brightness''),
     row ''image'' ''contrast'' V_INT 0 255 No_choices (LIVE_ISP ''set-contrast''),
     row ''image'' ''saturation'' V_INT 0 255 No_choices (LIVE_ISP ''set-saturation''),
     row ''image'' ''sharpness'' V_INT 0 255 No_choices (LIVE_ISP ''set-sharpness''),
     row ''image'' ''hue'' V_INT 0 255 No_choices (LIVE_ISP ''set-hue''),
     row ''image'' ''sinter'' V_INT 0 255 No_choices (LIVE_ISP ''set-sinter''),
     row ''image'' ''temper'' V_INT 0 255 No_choices (LIVE_ISP ''set-temper''),
     row ''image'' ''ae_comp'' V_INT (-255) 255 No_choices (LIVE_ISP ''set-ae-comp''),
     row ''image'' ''max_again'' V_INT 0 160 No_choices (LIVE ''set-max-again''),
     row ''image'' ''max_dgain'' V_INT 0 160 No_choices (LIVE ''set-max-dgain''),
     row ''image'' ''dpc_strength'' V_INT 0 255 No_choices (LIVE_ISP ''set-dpc''),
     row ''image'' ''drc_strength'' V_INT 0 1023 No_choices (LIVE_ISP ''set-drc''),
     row ''image'' ''defog_strength'' V_INT 0 255 No_choices (LIVE_ISP ''set-defog-strength''),
     row ''image'' ''highlight_depress'' V_INT 0 255 No_choices (LIVE_ISP ''set-highlight-depress''),
     row ''image'' ''backlight_comp'' V_INT 0 10 No_choices (LIVE_ISP ''set-backlight-comp''),
     row ''image'' ''hflip'' V_INT 0 1 No_choices (LIVE ''set-hflip''),
     row ''image'' ''vflip'' V_INT 0 1 No_choices (LIVE ''set-vflip''),
     row ''image'' ''rotate'' V_ENUM 0 0 (Choices choices_rotate) SAVED,
     row ''jpeg'' ''enabled'' V_BOOL 0 0 No_choices SAVED,
     row ''jpeg'' ''quality'' V_INT 1 100 No_choices SAVED,
     row ''jpeg'' ''fps'' V_INT 1 30 No_choices SAVED,
     row ''jpeg'' ''idle'' V_BOOL 0 0 No_choices SAVED,
     row ''audio'' ''enabled'' V_BOOL 0 0 No_choices SAVED,
     row ''audio'' ''input'' V_ENUM 0 0 (Choices choices_ainput) SAVED,
     row ''audio'' ''sample_rate'' V_ENUM 0 0 (Choices choices_arate) SAVED,
     row ''audio'' ''codec'' V_ENUM 0 0 (Choices choices_acodec) SAVED,
     row ''audio'' ''bitrate'' V_INT 8000 320000 No_choices SAVED,
     row ''audio'' ''volume'' V_INT 0 100 No_choices (LIVE ''set-volume''),
     row ''audio'' ''gain'' V_INT 0 31 No_choices (LIVE ''set-gain''),
     row ''audio'' ''ao_volume'' V_INT 0 100 No_choices (LIVE ''ao-set-volume''),
     row ''audio'' ''ao_gain'' V_INT 0 31 No_choices (LIVE ''ao-set-gain''),
     row ''audio'' ''aec_enabled'' V_BOOL 0 0 No_choices (LIVE ''set-aec''),
     row ''audio'' ''hpf_enabled'' V_BOOL 0 0 No_choices (LIVE ''set-hpf''),
     row ''rtsp'' ''enabled'' V_BOOL 0 0 No_choices SAVED,
     row ''rtsp'' ''port'' V_INT 1 65535 No_choices SAVED,
     row ''rtsp'' ''max_clients'' V_INT 1 32 No_choices SAVED,
     row ''rtsp'' ''session_timeout'' V_INT 10 3600 No_choices SAVED,
     row ''rtsp'' ''idr_on_join'' V_BOOL 0 0 No_choices SAVED,
     row ''rtsp'' ''username'' V_CRED 0 63 No_choices SAVED,
     row ''rtsp'' ''password'' V_CRED 0 63 No_choices SAVED,
     row ''http'' ''enabled'' V_BOOL 0 0 No_choices SAVED,
     row ''http'' ''port'' V_INT 1 65535 No_choices SAVED,
     row ''http'' ''max_clients'' V_INT 1 32 No_choices SAVED,
     row ''http'' ''username'' V_CRED 0 63 No_choices SAVED,
     row ''http'' ''password'' V_CRED 0 63 No_choices SAVED,
     row ''osd'' ''enabled'' V_BOOL 0 0 No_choices SAVED,
     row ''osd'' ''font_size'' V_INT 8 96 No_choices SAVED_PCT,
     row ''osd'' ''font_stroke'' V_INT 0 5 No_choices SAVED,
     row ''osd.*'' ''template'' V_TEXT 0 71 No_choices SAVED,
     row ''osd.*'' ''position'' V_ENUM 0 0 (Choices choices_position) SAVED,
     row ''osd.*'' ''align'' V_ENUM 0 0 (Choices choices_align) SAVED,
     row ''osd.*'' ''visible'' V_BOOL 0 0 No_choices SAVED,
     row ''ircut'' ''enabled'' V_BOOL 0 0 No_choices SAVED,
     row ''ircut'' ''trigger'' V_ENUM 0 0 (Choices choices_trigger) SAVED,
     row ''ircut'' ''pulse_ms'' V_INT 1 1000 No_choices SAVED,
     row ''ircut'' ''night_luma'' V_INT 0 255 No_choices (LIVE_SEL ''set-threshold'' ''night_luma''),
     row ''ircut'' ''night_gain'' V_INT 0 1000000 No_choices (LIVE_SEL ''set-threshold'' ''night_gain''),
     row ''ircut'' ''day_gain_pct'' V_INT 1 100 No_choices (LIVE_SEL ''set-threshold'' ''day_gain_pct''),
     row ''ircut'' ''night_threshold'' V_INT 0 1000000 No_choices (LIVE_SEL ''set-threshold'' ''night_threshold''),
     row ''ircut'' ''day_threshold'' V_INT 0 1000000 No_choices (LIVE_SEL ''set-threshold'' ''day_threshold''),
     row ''ircut'' ''gpio_ircut'' V_INT (-1) 127 No_choices SAVED,
     row ''ircut'' ''gpio_ircut2'' V_INT (-1) 127 No_choices SAVED,
     row ''ircut'' ''gpio_irled'' V_INT (-1) 127 No_choices SAVED,
     row ''ircut'' ''gpio_irled2'' V_INT (-1) 127 No_choices SAVED,
     row ''ircut'' ''gpio_ircut_active_low'' V_BOOL 0 0 No_choices SAVED,
     row ''ircut'' ''gpio_irled_active_low'' V_BOOL 0 0 No_choices SAVED,
     row ''ircut'' ''gpio_irled2_active_low'' V_BOOL 0 0 No_choices SAVED,
     row ''ircut'' ''adc_channel'' V_INT 0 7 No_choices SAVED,
     row ''ircut'' ''adc_night'' V_INT 0 4095 No_choices SAVED,
     row ''ircut'' ''adc_day'' V_INT 0 4095 No_choices SAVED,
     row ''ircut'' ''photo_ev_night'' V_INT 0 10000000 No_choices SAVED,
     row ''ircut'' ''photo_ev_deep'' V_INT 0 10000000 No_choices SAVED,
     row ''ircut'' ''photo_ev_day'' V_INT 0 10000000 No_choices SAVED,
     row ''ircut'' ''photo_rgain_rec'' V_INT 0 8192 No_choices SAVED,
     row ''ircut'' ''photo_bgain_rec'' V_INT 0 8192 No_choices SAVED,
     row ''ircut'' ''hysteresis_sec'' V_INT 1 300 No_choices (LIVE_SEL ''set-threshold'' ''hysteresis_sec''),
     row ''ircut'' ''poll_interval_ms'' V_INT 50 10000 No_choices (LIVE_SEL ''set-threshold'' ''poll_interval_ms''),
     row ''motion'' ''enabled'' V_BOOL 0 0 No_choices SAVED,
     row ''motion'' ''algorithm'' V_ENUM 0 0 (Choices choices_algorithm) SAVED,
     row ''motion'' ''sensitivity'' V_INT 0 5 No_choices SAVED,
     row ''motion'' ''cooldown_sec'' V_INT 1 3600 No_choices SAVED,
     row ''motion'' ''record'' V_BOOL 0 0 No_choices SAVED,
     row ''motion'' ''record_post_sec'' V_INT 0 600 No_choices SAVED,
     row ''recording'' ''enabled'' V_BOOL 0 0 No_choices SAVED,
     row ''recording'' ''mode'' V_ENUM 0 0 (Choices choices_recmode) SAVED,
     row ''recording'' ''stream'' V_INT 0 1 (Choices labels_recstream) SAVED,
     row ''recording'' ''audio'' V_BOOL 0 0 No_choices SAVED,
     row ''recording'' ''segment_minutes'' V_INT 1 1440 No_choices SAVED,
     row ''recording'' ''max_storage_mb'' V_INT 0 1000000 No_choices SAVED,
     row ''recording'' ''prebuffer_sec'' V_INT 0 5 No_choices SAVED,
     row ''timelapse'' ''enabled'' V_BOOL 0 0 No_choices SAVED,
     row ''timelapse'' ''interval'' V_INT 2 86400 No_choices SAVED,
     row ''timelapse'' ''playback_fps'' V_INT 1 120 No_choices SAVED,
     row ''timelapse'' ''max_mb'' V_INT 0 1000000 No_choices SAVED,
     row ''device'' ''timezone'' V_ENUM 0 0 Zone_names (PROVIDED P_timezone RCD_IMPACT_REBOOT),
     row ''device'' ''ntp_server'' V_HOST 0 63 No_choices (PROVIDED P_ntp_server RCD_IMPACT_NONE),
     row ''device'' ''hostname'' V_HOST 1 63 No_choices (GUARDED (P_store Hostname) RCD_IMPACT_SERVICE RCD_GUARD_NAME_SEC),
     row ''device'' ''root_password'' V_PASSWD 8 127 No_choices (PROVIDED P_root_password RCD_IMPACT_NONE),
     row ''network'' ''dhcp'' V_BOOL 0 0 No_choices (GUARDED (P_store Net_dhcp) RCD_IMPACT_NETWORK RCD_GUARD_NET_SEC),
     row ''network'' ''address'' V_IPV4 1 0 No_choices (GUARDED (P_store Net_address) RCD_IMPACT_NETWORK RCD_GUARD_NET_SEC),
     row ''network'' ''netmask'' V_IPV4 1 0 No_choices (GUARDED (P_store Net_netmask) RCD_IMPACT_NETWORK RCD_GUARD_NET_SEC),
     row ''network'' ''gateway'' V_IPV4 0 0 No_choices (GUARDED (P_store Net_gateway) RCD_IMPACT_NETWORK RCD_GUARD_NET_SEC),
     row ''network'' ''dns'' V_IPV4 0 0 No_choices (GUARDED (P_store Net_dns) RCD_IMPACT_NETWORK RCD_GUARD_NET_SEC),
     row ''wifi'' ''ssid'' V_TEXT 1 32 No_choices (GUARDED (P_store Wifi_ssid) RCD_IMPACT_NETWORK RCD_GUARD_WIFI_SEC),
     row ''wifi'' ''psk'' V_SECRET 0 63 No_choices (GUARDED (P_store Wifi_psk) RCD_IMPACT_NETWORK RCD_GUARD_WIFI_SEC)]"

definition writable :: "(string \<times> rcd_daemon) list" where
  "writable =
     [(''sensor'', RCD_D_RVD), (''stream0'', RCD_D_RVD), (''stream1'', RCD_D_RVD),
      (''image'', RCD_D_RVD), (''jpeg'', RCD_D_RVD), (''audio'', RCD_D_RAD), (''rtsp'', RCD_D_RSD),
      (''http'', RCD_D_RHD), (''osd'', RCD_D_ROD), (''ircut'', RCD_D_RIC), (''motion'', RCD_D_RMD),
      (''recording'', RCD_D_RMR), (''timelapse'', RCD_D_RMR), (''device'', RCD_D_COUNT),
      (''network'', RCD_D_COUNT), (''wifi'', RCD_D_COUNT), (''osd.*'', RCD_D_ROD)]"

definition rcd_daemon_impact :: "rcd_daemon \<Rightarrow> rcd_impact" where
  "rcd_daemon_impact d =
     (if d = RCD_D_RVD then RCD_IMPACT_PIPELINE
      else if d = RCD_D_RSD \<or> d = RCD_D_RHD \<or> d = RCD_D_RWD then RCD_IMPACT_STREAM
      else RCD_IMPACT_SERVICE)"

subsection \<open>Lookup\<close>

definition rcd_row_repeats :: "string \<Rightarrow> bool" where
  "rcd_row_repeats r \<longleftrightarrow> 2 \<le> length r \<and> drop (length r - 2) r = ''.*''"

definition rcd_section_is :: "string \<Rightarrow> string \<Rightarrow> bool" where
  "rcd_section_is r sec =
     (if \<not> rcd_row_repeats r then r = sec
      else (let n = length r - 1 in take n sec = take n r \<and> n < length sec))"

definition rcd_section_owner :: "string \<Rightarrow> rcd_daemon" where
  "rcd_section_owner sec = (case find (\<lambda>w. rcd_section_is (fst w) sec) writable of
     Some w \<Rightarrow> snd w | None \<Rightarrow> RCD_D_COUNT)"

definition rcd_key_find :: "string \<Rightarrow> string \<Rightarrow> rcd_key option" where
  "rcd_key_find sec key = find (\<lambda>k. rcd_section_is (k_section k) sec \<and> k_key k = key) keys"

definition rcd_key_at :: "nat \<Rightarrow> rcd_key option" where
  "rcd_key_at i = (if i < length keys then Some (keys ! i) else None)"

text \<open>
  The rows whose change can cost a client its way back in, and a lookup that tries them first.
\<close>

definition guarded_rows :: "rcd_key list" where
  "guarded_rows =
    [
     row ''device'' ''hostname'' V_HOST 1 63 No_choices (GUARDED (P_store Hostname) RCD_IMPACT_SERVICE RCD_GUARD_NAME_SEC),
     row ''network'' ''dhcp'' V_BOOL 0 0 No_choices (GUARDED (P_store Net_dhcp) RCD_IMPACT_NETWORK RCD_GUARD_NET_SEC),
     row ''network'' ''address'' V_IPV4 1 0 No_choices (GUARDED (P_store Net_address) RCD_IMPACT_NETWORK RCD_GUARD_NET_SEC),
     row ''network'' ''netmask'' V_IPV4 1 0 No_choices (GUARDED (P_store Net_netmask) RCD_IMPACT_NETWORK RCD_GUARD_NET_SEC),
     row ''network'' ''gateway'' V_IPV4 0 0 No_choices (GUARDED (P_store Net_gateway) RCD_IMPACT_NETWORK RCD_GUARD_NET_SEC),
     row ''network'' ''dns'' V_IPV4 0 0 No_choices (GUARDED (P_store Net_dns) RCD_IMPACT_NETWORK RCD_GUARD_NET_SEC),
     row ''wifi'' ''ssid'' V_TEXT 1 32 No_choices (GUARDED (P_store Wifi_ssid) RCD_IMPACT_NETWORK RCD_GUARD_WIFI_SEC),
     row ''wifi'' ''psk'' V_SECRET 0 63 No_choices (GUARDED (P_store Wifi_psk) RCD_IMPACT_NETWORK RCD_GUARD_WIFI_SEC)]"

lemma guarded_rows_found: "list_all (\<lambda>k. rcd_key_find (k_section k) (k_key k) = Some k) guarded_rows"
  by code_simp

lemma rcd_key_find_code [code]:
  "rcd_key_find sec key = (case find (\<lambda>k. k_section k = sec \<and> k_key k = key) guarded_rows of
     Some k \<Rightarrow> Some k | None \<Rightarrow> find (\<lambda>k. rcd_section_is (k_section k) sec \<and> k_key k = key) keys)"
proof (cases "find (\<lambda>k. k_section k = sec \<and> k_key k = key) guarded_rows")
  case None
  then show ?thesis by (simp add: rcd_key_find_def)
next
  case (Some k)
  then have "k \<in> set guarded_rows" "k_section k = sec" "k_key k = key" by (auto simp: find_Some_iff)
  then show ?thesis using Some guarded_rows_found by (auto simp: list_all_iff)
qed

text \<open>Which providers have an \<^verbatim>\<open>enact\<close> and which a state that counts as no configuration.\<close>

definition has_enact :: "provider \<Rightarrow> bool" where
  "has_enact p \<longleftrightarrow> (case p of P_store s \<Rightarrow> True | _ \<Rightarrow> False)"

definition resettable :: "provider \<Rightarrow> bool" where
  "resettable p \<longleftrightarrow> (case p of P_store s \<Rightarrow> s \<noteq> Hostname | _ \<Rightarrow> False)"

definition rcd_key_live :: "rcd_key \<Rightarrow> bool" where
  "rcd_key_live k \<longleftrightarrow> live_cmd k \<noteq> None \<or> (case k_provider k of Some p \<Rightarrow> \<not> has_enact p | None \<Rightarrow> False)"

definition rcd_key_impact :: "rcd_key \<Rightarrow> rcd_impact" where
  "rcd_key_impact k =
     (if k_impact k \<noteq> RCD_IMPACT_NONE then k_impact k
      else if rcd_key_live k then RCD_IMPACT_NONE
      else rcd_daemon_impact (rcd_section_owner (k_section k)))"

definition rcd_key_resettable :: "rcd_key \<Rightarrow> bool" where
  "rcd_key_resettable k \<longleftrightarrow> (case k_provider k of Some p \<Rightarrow> resettable p | None \<Rightarrow> True)"

definition rcd_type_secret :: "rcd_val_type \<Rightarrow> bool" where
  "rcd_type_secret t \<longleftrightarrow> t = V_SECRET \<or> t = V_PASSWD"

subsection \<open>Rendering a value\<close>

datatype json = JNull | JBool bool | JNum rat | JStr string

datatype rcd_error = RCD_E_MALFORMED | RCD_E_UNKNOWN | RCD_E_TOOMANY | RCD_E_RANGE | RCD_E_TYPE | RCD_E_CHOICE

record rcd_edit =
  e_key :: rcd_key
  e_section :: string
  rendered :: string
  e_num :: rat
  is_num :: bool
  reset :: bool

definition choices_of :: "string list \<Rightarrow> choice_list \<Rightarrow> string list" where
  "choices_of zones c = (case c of No_choices \<Rightarrow> [] | Choices cs \<Rightarrow> cs | Zone_names \<Rightarrow> zones)"

fun index_of :: "string \<Rightarrow> string list \<Rightarrow> nat option" where
  "index_of s [] = None"
| "index_of s (c # cs) = (if s = c then Some 0 else map_option Suc (index_of s cs))"

definition label_to_num :: "string list \<Rightarrow> rcd_key \<Rightarrow> string \<Rightarrow> rcd_error + rat" where
  "label_to_num zones k given = (case index_of given (choices_of zones (k_choices k)) of
     Some i \<Rightarrow> Inr (of_int (k_min k + int i)) | None \<Rightarrow> Inl RCD_E_CHOICE)"

definition check_int :: "json \<Rightarrow> int \<Rightarrow> int \<Rightarrow> rcd_error + rat" where
  "check_int v mn mx = (case v of
     JNum d \<Rightarrow> (if \<not> (of_int mn \<le> d \<and> d \<le> of_int mx) then Inl RCD_E_RANGE
                else if d \<noteq> of_int \<lfloor>d\<rfloor> then Inl RCD_E_TYPE else Inr d)
   | _ \<Rightarrow> Inl RCD_E_TYPE)"

definition digit_val :: "char \<Rightarrow> int" where
  "digit_val c = int (code c) - 48"

definition digits_val :: "string \<Rightarrow> int" where
  "digits_val ds = foldl (\<lambda>w c. w * 10 + digit_val c) 0 ds"

definition pct_tenths :: "string \<Rightarrow> int" where
  "pct_tenths s =
     (let ds = takeWhile isdigit s; r = dropWhile isdigit s; whole = digits_val ds
      in if length ds < 1 \<or> 3 < length ds then - 1
         else case r of
           CHR ''.'' # d # r' \<Rightarrow>
             (if \<not> isdigit d then - 1
              else if r' = ''%'' then whole * 10 + digit_val d else - 1)
         | _ \<Rightarrow> (if r = ''%'' then whole * 10 else - 1))"

definition check_text :: "string \<Rightarrow> int \<Rightarrow> int \<Rightarrow> rcd_error option" where
  "check_text s mn mx =
     (if int (length s) < mn \<or> mx < int (length s) then Some RCD_E_RANGE
      else if \<exists>c \<in> set s. \<not> isprint c \<or> c = CHR 0x22 \<or> c = CHR 0x5C then Some RCD_E_CHOICE
      else None)"

fun ipv4_scan :: "nat \<Rightarrow> nat \<Rightarrow> int \<Rightarrow> bool \<Rightarrow> string \<Rightarrow> bool" where
  "ipv4_scan octet digits val bad [] \<longleftrightarrow> \<not> (bad \<or> digits = 0) \<and> octet + 1 = 4"
| "ipv4_scan octet digits val bad (c # cs) \<longleftrightarrow>
     (if isdigit c then
        (let val' = val * 10 + digit_val c; digits' = digits + 1
         in ipv4_scan octet digits' val' (bad \<or> digits = 1 \<and> val = 0 \<or> 3 < digits' \<or> 255 < val') cs)
      else if c = CHR ''.'' then ipv4_scan (octet + 1) 0 0 (bad \<or> digits = 0) cs
      else False)"

text \<open>\<^verbatim>\<open>"$id$salt$digest"\<close>: at least three dollars and something after the last.\<close>

definition crypt_shape :: "string \<Rightarrow> bool" where
  "crypt_shape s \<longleftrightarrow> 3 \<le> length (filter (\<lambda>c. c = CHR ''$'') s) \<and> last s \<noteq> CHR ''$''"

definition render_text :: "rcd_key \<Rightarrow> string \<Rightarrow> rcd_error + string" where
  "render_text k s = (case check_text s (k_min k) (k_max k) of
     Some e \<Rightarrow> Inl e
   | None \<Rightarrow> if RCD_VAL_MAX \<le> length s then Inl RCD_E_RANGE else Inr s)"

definition render_cred :: "rcd_key \<Rightarrow> string \<Rightarrow> rcd_error + string" where
  "render_cred k s =
     (if k_max k < int (length s) \<or> RCD_VAL_MAX \<le> length s then Inl RCD_E_RANGE
      else if \<exists>c \<in> set s. \<not> (isalnum c \<or> c \<in> set ''-_.~'') then Inl RCD_E_CHOICE else Inr s)"

definition render_secret :: "rcd_key \<Rightarrow> string \<Rightarrow> rcd_error + string" where
  "render_secret k s =
     (if s = [] then (if k_min k \<noteq> 0 then Inl RCD_E_RANGE else Inr [])
      else if length s = 64 \<and> list_all isxdigit s then Inr s
      else if length s < 8 \<or> 63 < length s then Inl RCD_E_RANGE
      else if \<exists>c \<in> set s. \<not> isprint c \<or> c = CHR 0x22 \<or> c = CHR 0x5C then Inl RCD_E_CHOICE
      else Inr s)"

definition render_passwd :: "rcd_key \<Rightarrow> string \<Rightarrow> rcd_error + string" where
  "render_passwd k s =
     (if k_max k < int (length s) \<or> RCD_VAL_MAX \<le> length s then Inl RCD_E_RANGE
      else if \<exists>c \<in> set s. \<not> isprint c \<or> c = CHR '':'' then Inl RCD_E_CHOICE
      else if s \<noteq> [] \<and> hd s = CHR ''$'' then (if crypt_shape s then Inr s else Inl RCD_E_CHOICE)
      else if int (length s) < k_min k then Inl RCD_E_RANGE else Inr s)"

definition render_host :: "rcd_key \<Rightarrow> string \<Rightarrow> rcd_error + string" where
  "render_host k s =
     (if length s < 1 \<or> k_max k < int (length s) \<or> RCD_VAL_MAX \<le> length s then Inl RCD_E_RANGE
      else if \<exists>c \<in> set s. \<not> (isalnum c \<or> c = CHR ''.'' \<or> c = CHR ''-'') then Inl RCD_E_CHOICE
      else if hd s \<in> set ''.-'' \<or> last s \<in> set ''.-'' then Inl RCD_E_CHOICE else Inr s)"

definition render_ipv4 :: "rcd_key \<Rightarrow> string \<Rightarrow> rcd_error + string" where
  "render_ipv4 k s =
     (if s = [] then (if k_min k \<noteq> 0 then Inl RCD_E_RANGE else Inr [])
      else if ipv4_scan 0 0 0 False s then Inr (strlcpy RCD_VAL_MAX s) else Inl RCD_E_CHOICE)"

definition render_enum :: "string list \<Rightarrow> rcd_key \<Rightarrow> json \<Rightarrow> rcd_error + string" where
  "render_enum zones k v =
     (case (case v of JStr s \<Rightarrow> Some (strlcpy RCD_VAL_MAX s)
            | JNum d \<Rightarrow> if d = of_int \<lfloor>d\<rfloor> then Some (strlcpy RCD_VAL_MAX (signed_decimal \<lfloor>d\<rfloor>)) else None
            | _ \<Rightarrow> None) of
        None \<Rightarrow> Inl RCD_E_TYPE
      | Some given \<Rightarrow> (if given \<in> set (choices_of zones (k_choices k)) then Inr (strlcpy RCD_VAL_MAX given)
                        else Inl RCD_E_CHOICE))"

definition render_bool :: "json \<Rightarrow> rcd_error + bool" where
  "render_bool v = (case v of JBool b \<Rightarrow> Inr b
     | JNum d \<Rightarrow> (if d = 0 \<or> d = 1 then Inr (d \<noteq> 0) else Inl RCD_E_TYPE)
     | _ \<Rightarrow> Inl RCD_E_TYPE)"

text \<open>The text an integer key stores, and its number where it has one.\<close>

definition render_int :: "string list \<Rightarrow> rcd_key \<Rightarrow> json \<Rightarrow> rcd_error + (string \<times> rat option)" where
  "render_int zones k v =
     (if auto_ok k \<and> v = JStr ''auto'' then Inr (''auto'', None)
      else case v of
        JStr s \<Rightarrow>
          (if pct_ok k then
             (let t = pct_tenths s
              in if t < 0 then Inl RCD_E_TYPE
                 else if t < 5 \<or> 100 < t then Inl RCD_E_RANGE
                 else Inr (strlcpy RCD_VAL_MAX s, None))
           else if k_choices k \<noteq> No_choices then
             map_sum id (\<lambda>d. (signed_decimal \<lfloor>d\<rfloor>, Some d)) (label_to_num zones k s)
           else Inl RCD_E_TYPE)
      | _ \<Rightarrow> map_sum id (\<lambda>d. (signed_decimal \<lfloor>d\<rfloor>, Some d)) (check_int v (k_min k) (k_max k)))"

definition render_str :: "(rcd_key \<Rightarrow> string \<Rightarrow> rcd_error + string) \<Rightarrow> rcd_key \<Rightarrow> json \<Rightarrow> rcd_error + string" where
  "render_str f k v = (case v of JStr s \<Rightarrow> f k s | _ \<Rightarrow> Inl RCD_E_TYPE)"

definition render :: "string list \<Rightarrow> rcd_key \<Rightarrow> string \<Rightarrow> json option \<Rightarrow> rcd_error + rcd_edit" where
  "render zones k section v =
     (let e = \<lparr>e_key = k, e_section = strlcpy RCD_SECT_MAX section, rendered = [], e_num = 0,
                is_num = False, reset = False\<rparr>;
          text = map_sum id (\<lambda>s. e\<lparr>rendered := s\<rparr>)
      in case v of
        None \<Rightarrow> Inl RCD_E_TYPE
      | Some JNull \<Rightarrow> (if rcd_key_resettable k then Inr (e\<lparr>reset := True\<rparr>) else Inl RCD_E_RANGE)
      | Some w \<Rightarrow>
          (case k_type k of
             V_BOOL \<Rightarrow> map_sum id (\<lambda>on. e\<lparr>rendered := if on then ''true'' else ''false'',
                                            e_num := if on then 1 else 0, is_num := True\<rparr>) (render_bool w)
           | V_INT \<Rightarrow> map_sum id (\<lambda>(s, d). case d of None \<Rightarrow> e\<lparr>rendered := s\<rparr>
                                  | Some n \<Rightarrow> e\<lparr>rendered := s, e_num := n, is_num := True\<rparr>) (render_int zones k w)
           | V_CRED \<Rightarrow> text (render_str render_cred k w)
           | V_TEXT \<Rightarrow> text (render_str render_text k w)
           | V_SECRET \<Rightarrow> text (render_str render_secret k w)
           | V_PASSWD \<Rightarrow> text (render_str render_passwd k w)
           | V_HOST \<Rightarrow> text (render_str render_host k w)
           | V_IPV4 \<Rightarrow> text (render_str render_ipv4 k w)
           | V_ENUM \<Rightarrow> text (render_enum zones k w)))"

subsection \<open>Validating a request\<close>

record edit_item =
  i_section :: "json option"
  i_key :: "json option"
  i_value :: "json option"

text \<open>A request carries an array of edits, or one edit in its own fields.\<close>

datatype set_request = Edits "edit_item list" | Single edit_item

definition validate_one :: "string list \<Rightarrow> string \<Rightarrow> string \<Rightarrow> json option \<Rightarrow> rcd_error + rcd_edit" where
  "validate_one zones s n v = (case rcd_key_find s n of None \<Rightarrow> Inl RCD_E_UNKNOWN | Some k \<Rightarrow> render zones k s v)"

fun validate_items :: "string list \<Rightarrow> rcd_edit list \<Rightarrow> edit_item list \<Rightarrow> rcd_error + rcd_edit list" where
  "validate_items zones acc [] = (if acc = [] then Inl RCD_E_MALFORMED else Inr acc)"
| "validate_items zones acc (i # is) =
     (if RCD_EDITS_MAX \<le> length acc then Inl RCD_E_TOOMANY
      else case (i_section i, i_key i) of
        (Some (JStr s), Some (JStr n)) \<Rightarrow>
          (case validate_one zones s n (i_value i) of
             Inl e \<Rightarrow> Inl e | Inr ed \<Rightarrow> validate_items zones (acc @ [ed]) is)
      | _ \<Rightarrow> Inl RCD_E_MALFORMED)"

definition rcd_set_validate :: "string list \<Rightarrow> set_request \<Rightarrow> rcd_error + rcd_edit list" where
  "rcd_set_validate zones q = (case q of
     Edits is \<Rightarrow> validate_items zones [] is
   | Single i \<Rightarrow>
       (case (i_section i, i_key i) of
          (Some (JStr s), Some (JStr n)) \<Rightarrow> map_sum id (\<lambda>e. [e]) (validate_one zones s n (i_value i))
        | _ \<Rightarrow> Inl RCD_E_MALFORMED))"

subsection \<open>What reaches a store\<close>

text \<open>The shape of a rendered value, by the grammar of its key.\<close>

definition value_ok :: "rcd_key \<Rightarrow> string \<Rightarrow> bool" where
  "value_ok k s \<longleftrightarrow> length s < RCD_VAL_MAX \<and> list_all isprint s \<and>
     (case k_type k of
        V_BOOL \<Rightarrow> s = ''true'' \<or> s = ''false''
      | V_HOST \<Rightarrow> s \<noteq> [] \<and> list_all (\<lambda>c. isalnum c \<or> c = CHR ''.'' \<or> c = CHR ''-'') s \<and> hd s \<noteq> CHR ''-''
      | V_IPV4 \<Rightarrow> list_all (\<lambda>c. isdigit c \<or> c = CHR ''.'') s \<and> length s \<le> 15 \<and> (s = [] \<longrightarrow> k_min k = 0)
      | V_TEXT \<Rightarrow> CHR 0x22 \<notin> set s \<and> CHR 0x5C \<notin> set s \<and> k_min k \<le> int (length s)
      | V_SECRET \<Rightarrow> CHR 0x22 \<notin> set s \<and> CHR 0x5C \<notin> set s \<and> (s = [] \<longrightarrow> k_min k = 0)
      | V_PASSWD \<Rightarrow> CHR '':'' \<notin> set s \<and> s \<noteq> []
      | _ \<Rightarrow> True)"

definition edit_ok :: "rcd_edit \<Rightarrow> bool" where
  "edit_ok e \<longleftrightarrow> e_key e \<in> set keys \<and>
     (if reset e then rcd_key_resettable (e_key e) \<and> rendered e = [] else value_ok (e_key e) (rendered e))"

text \<open>Facts of the table, by evaluation.\<close>

definition row_ok :: "rcd_key \<Rightarrow> bool" where
  "row_ok k \<longleftrightarrow> - 1000 \<le> k_min k \<and> k_min k \<le> 100000 \<and> k_max k \<le> 100000000 \<and>
     list_all (list_all isprint) (choices_of [] (k_choices k)) \<and> length (choices_of [] (k_choices k)) < 100 \<and>
     (k_type k = V_INT \<longrightarrow> k_choices k \<noteq> Zone_names) \<and>
     (k_type k = V_PASSWD \<longrightarrow> 0 < k_min k)"

lemma rows_ok: "list_all row_ok keys"
  by code_simp

lemma row_okD: "k \<in> set keys \<Longrightarrow> row_ok k"
  using rows_ok by (auto simp: list_all_iff)

lemma isprint_chars [simp]:
  "isprint CHR ''-''" "isprint CHR ''_''" "isprint CHR ''.''" "isprint CHR ''~''" "isprint CHR ''%''"
  by code_simp+

lemma isprint_words: "list_all isprint ''true''" "list_all isprint ''false''" "list_all isprint ''auto''"
  by code_simp+

lemma ipv4_scan_chars: "ipv4_scan oct dig val bad s \<Longrightarrow> list_all (\<lambda>c. isdigit c \<or> c = CHR ''.'') s"
  by (induction oct dig val bad s rule: ipv4_scan.induct) (auto simp: Let_def split: if_splits)

lemma ipv4_scan_not_bad: "ipv4_scan oct dig val True s \<Longrightarrow> False"
  by (induction oct dig val "True" s rule: ipv4_scan.induct) (auto simp: Let_def split: if_splits)

lemma ipv4_scan_octets: "ipv4_scan oct dig val bad s \<Longrightarrow> oct \<le> 3"
  by (induction oct dig val bad s rule: ipv4_scan.induct) (auto simp: Let_def split: if_splits)

lemma ipv4_scan_length:
  "ipv4_scan oct dig val bad s \<Longrightarrow> dig \<le> 3 \<Longrightarrow> length s + dig + 4 * oct \<le> 15"
proof (induction oct dig val bad s rule: ipv4_scan.induct)
  case (2 oct dig val bad c cs)
  show ?case
  proof (cases "isdigit c")
    case True
    define bad' where "bad' \<longleftrightarrow> bad \<or> dig = 1 \<and> val = 0 \<or> 3 < dig + 1 \<or> 255 < val * 10 + digit_val c"
    have rest: "ipv4_scan oct (dig + 1) (val * 10 + digit_val c) bad' cs"
      using 2(3) True by (simp add: Let_def bad'_def)
    then have "\<not> bad'" using ipv4_scan_not_bad by (metis (full_types))
    then have small: "dig + 1 \<le> 3" by (auto simp: bad'_def)
    have "length cs + (dig + 1) + 4 * oct \<le> 15"
      using 2(1) [OF True refl refl _ small] rest unfolding bad'_def by blast
    then show ?thesis by simp
  next
    case False
    then have dot: "c = CHR ''.''" and rest: "ipv4_scan (oct + 1) 0 0 (bad \<or> dig = 0) cs"
      using 2(3) by (auto split: if_splits)
    have "length cs + 0 + 4 * (oct + 1) \<le> 15" using 2(2) [OF False dot rest] by simp
    then show ?thesis using 2(4) by simp
  qed
qed simp

lemma digits_print: "list_all (\<lambda>c. isdigit c \<or> c = CHR ''.'') s \<Longrightarrow> list_all isprint s"
  by (auto simp: list_all_iff isprint_isdigit)

lemma signed_decimal_ok:
  assumes "- 1000000000 < i" "i < 1000000000"
  shows "list_all isprint (signed_decimal i)" and "length (signed_decimal i) < RCD_VAL_MAX"
proof -
  show "list_all isprint (signed_decimal i)"
    by (auto simp: signed_decimal_def list_all_iff isprint_isdigit decimal_digits)
  have "nat \<bar>i\<bar> < 10 ^ 9" using assms by simp
  then have "length (decimal (nat \<bar>i\<bar>)) \<le> 9" by (rule decimal_length) simp
  then show "length (signed_decimal i) < RCD_VAL_MAX" by (auto simp: signed_decimal_def)
qed

lemma pct_tenths_chars:
  assumes "0 \<le> pct_tenths s"
  shows "list_all isprint s" and "length s < RCD_VAL_MAX"
proof -
  define ds r where "ds = takeWhile isdigit s" and "r = dropWhile isdigit s"
  have s: "s = ds @ r" by (simp add: ds_def r_def)
  have short: "length ds \<le> 3" using assms by (auto simp: pct_tenths_def Let_def ds_def [symmetric] split: if_splits)
  have "r = ''%'' \<or> (\<exists>d. isdigit d \<and> r = CHR ''.'' # d # ''%'')"
    using assms unfolding pct_tenths_def Let_def ds_def [symmetric] r_def [symmetric]
    by (auto split: if_splits list.splits char.splits bool.splits)
  then have r: "list_all isprint r" "length r \<le> 3"
    by (auto simp: isprint_isdigit)
  have ds: "list_all isprint ds"
    by (auto simp: ds_def list_all_iff isprint_isdigit dest: set_takeWhileD)
  show "list_all isprint s" using ds r(1) by (simp add: s)
  show "length s < RCD_VAL_MAX" using short r(2) by (simp add: s)
qed

lemma index_of_bound: "index_of s cs = Some i \<Longrightarrow> i < length cs"
  by (induction cs arbitrary: i) (auto split: if_splits)

lemma render_int_ok:
  assumes "row_ok k" "k_type k = V_INT" "render_int zones k v = Inr (s, d)"
  shows "list_all isprint s" and "length s < RCD_VAL_MAX"
proof -
  have "list_all isprint s \<and> length s < RCD_VAL_MAX"
  proof -
    consider "s = ''auto''" | t where "v = JStr t" "s = strlcpy RCD_VAL_MAX t" "0 \<le> pct_tenths t"
      | t n where "k_choices k \<noteq> No_choices" "label_to_num zones k t = Inr n" "s = signed_decimal \<lfloor>n\<rfloor>"
      | n where "check_int v (k_min k) (k_max k) = Inr n" "s = signed_decimal \<lfloor>n\<rfloor>"
      using assms(3) unfolding render_int_def
      by (auto simp: Let_def map_sum_def split: if_splits json.splits sum.splits)
    then show ?thesis
    proof cases
      case 1
      then show ?thesis using isprint_words by simp
    next
      case 2
      from pct_tenths_chars [OF 2(3)] show ?thesis by (simp add: 2 strlcpy_def)
    next
      case 3
      then obtain i where i: "index_of t (choices_of zones (k_choices k)) = Some i" and n: "n = of_int (k_min k + int i)"
        by (auto simp: label_to_num_def split: option.splits)
      have "choices_of zones (k_choices k) = choices_of [] (k_choices k)"
        using assms(1,2) by (auto simp: row_ok_def choices_of_def split: choice_list.splits)
      with i have "i < 100" using assms(1) index_of_bound by (fastforce simp: row_ok_def)
      then show ?thesis using assms(1) signed_decimal_ok [of "k_min k + int i"]
        by (simp add: 3(3) n row_ok_def)
    next
      case 4
      then have "of_int (k_min k) \<le> n" "n \<le> of_int (k_max k)"
        by (auto simp: check_int_def split: json.splits if_splits)
      then have "k_min k \<le> \<lfloor>n\<rfloor>" "\<lfloor>n\<rfloor> \<le> k_max k"
        by (simp_all add: le_floor_iff floor_le_iff)
      then have "- 1000000000 < \<lfloor>n\<rfloor>" "\<lfloor>n\<rfloor> < 1000000000" using assms(1) unfolding row_ok_def by linarith+
      from signed_decimal_ok [OF this] show ?thesis unfolding 4(2) by simp
    qed
  qed
  then show "list_all isprint s" and "length s < RCD_VAL_MAX" by simp_all
qed

lemmas render_defs = render_cred_def render_text_def render_secret_def render_passwd_def render_host_def
  render_ipv4_def check_text_def

lemma isprint_isxdigit: "isxdigit c \<Longrightarrow> isprint c \<and> c \<noteq> CHR 0x22 \<and> c \<noteq> CHR 0x5C"
  by (auto simp: isxdigit_def isprint_def isdigit_def code_def)

lemma render_str_ok:
  assumes "row_ok k"
  shows "k_type k = V_CRED \<Longrightarrow> render_cred k s = Inr t \<Longrightarrow> value_ok k t"
    and "k_type k = V_TEXT \<Longrightarrow> render_text k s = Inr t \<Longrightarrow> value_ok k t"
    and "k_type k = V_SECRET \<Longrightarrow> render_secret k s = Inr t \<Longrightarrow> value_ok k t"
    and "k_type k = V_PASSWD \<Longrightarrow> render_passwd k s = Inr t \<Longrightarrow> value_ok k t"
    and "k_type k = V_HOST \<Longrightarrow> render_host k s = Inr t \<Longrightarrow> value_ok k t"
    and "k_type k = V_IPV4 \<Longrightarrow> render_ipv4 k s = Inr t \<Longrightarrow> value_ok k t"
proof -
  show "k_type k = V_CRED \<Longrightarrow> render_cred k s = Inr t \<Longrightarrow> value_ok k t"
    by (auto simp: render_cred_def value_ok_def list_all_iff dest!: bspec intro: isprint_isalnum split: if_splits)
  show "k_type k = V_TEXT \<Longrightarrow> render_text k s = Inr t \<Longrightarrow> value_ok k t"
    by (auto simp: render_text_def check_text_def value_ok_def list_all_iff split: if_splits)
  show "k_type k = V_SECRET \<Longrightarrow> render_secret k s = Inr t \<Longrightarrow> value_ok k t"
    by (auto simp: render_secret_def value_ok_def list_all_iff dest!: isprint_isxdigit split: if_splits)
  show "k_type k = V_PASSWD \<Longrightarrow> render_passwd k s = Inr t \<Longrightarrow> value_ok k t"
    using assms by (auto simp: render_passwd_def value_ok_def list_all_iff row_ok_def split: if_splits)
  show "k_type k = V_HOST \<Longrightarrow> render_host k s = Inr t \<Longrightarrow> value_ok k t"
    by (auto simp: render_host_def value_ok_def list_all_iff dest!: bspec intro: isprint_isalnum split: if_splits)
  show "k_type k = V_IPV4 \<Longrightarrow> render_ipv4 k s = Inr t \<Longrightarrow> value_ok k t"
  proof -
    assume ty: "k_type k = V_IPV4" and r: "render_ipv4 k s = Inr t"
    show "value_ok k t"
    proof (cases "s = []")
      case True
      then show ?thesis using ty r by (auto simp: render_ipv4_def value_ok_def split: if_splits)
    next
      case False
      then have scan: "ipv4_scan 0 0 0 False s" and t: "t = strlcpy RCD_VAL_MAX s"
        using r by (auto simp: render_ipv4_def split: if_splits)
      have "length s \<le> 15" using ipv4_scan_length [OF scan] by simp
      then have "t = s" by (simp add: t strlcpy_def)
      then show ?thesis using \<open>length s \<le> 15\<close> ipv4_scan_chars [OF scan] False ty digits_print
        by (simp add: value_ok_def)
    qed
  qed
qed

lemma render_enum_ok:
  assumes "row_ok k" "k_type k = V_ENUM" "list_all (list_all isprint) zones" "render_enum zones k v = Inr s"
  shows "value_ok k s"
proof -
  obtain g where g: "g \<in> set (choices_of zones (k_choices k))" "s = strlcpy RCD_VAL_MAX g"
    using assms(4) by (auto simp: render_enum_def split: option.splits if_splits)
  have "list_all isprint g" using g(1) assms(1,3)
    by (auto simp: row_ok_def choices_of_def list_all_iff split: choice_list.splits)
  then have "list_all isprint s" by (auto simp: g(2) strlcpy_def list_all_iff dest: in_set_takeD)
  then show ?thesis using assms(2) by (simp add: value_ok_def g(2) strlcpy_def)
qed

lemma map_sum_Inr: "map_sum id f x = Inr y \<Longrightarrow> \<exists>z. x = Inr z \<and> y = f z"
  by (cases x) auto

lemma render_str_InrD: "render_str f k v = Inr s \<Longrightarrow> \<exists>t. v = JStr t \<and> f k t = Inr s"
  by (auto simp: render_str_def split: json.splits)

lemma render_ok:
  assumes "k \<in> set keys" "list_all (list_all isprint) zones" "render zones k sec v = Inr e"
  shows "edit_ok e"
proof -
  note row = row_okD [OF assms(1)]
  have key: "e_key e = k"
    using assms(3) by (auto simp: render_def Let_def split: option.splits json.splits rcd_val_type.splits if_splits dest!: map_sum_Inr)
  show ?thesis
  proof (cases "v = Some JNull")
    case True
    then show ?thesis using assms(1,3) by (auto simp: render_def Let_def edit_ok_def split: if_splits)
  next
    case False
    then obtain w where w: "v = Some w" "w \<noteq> JNull" using assms(3) by (cases v) (auto simp: render_def)
    define e0 where "e0 = \<lparr>e_key = k, e_section = strlcpy RCD_SECT_MAX sec, rendered = [], e_num = 0,
                is_num = False, reset = False\<rparr>"
    have "\<not> reset e \<and> value_ok k (rendered e)"
    proof (cases "k_type k")
      case V_INT
      then obtain s d where "render_int zones k w = Inr (s, d)" "rendered e = s" "\<not> reset e"
        using assms(3) w by (cases w) (auto simp: render_def Let_def split: option.splits dest!: map_sum_Inr)
      then show ?thesis using render_int_ok [OF row V_INT] V_INT by (simp add: value_ok_def)
    next
      case V_BOOL
      then show ?thesis using assms(3) w isprint_words
        by (cases w) (auto simp: render_def Let_def value_ok_def split: if_splits dest!: map_sum_Inr)
    next
      case V_ENUM
      then obtain s where "render_enum zones k w = Inr s" "rendered e = s" "\<not> reset e"
        using assms(3) w by (cases w) (auto simp: render_def Let_def dest!: map_sum_Inr)
      then show ?thesis using render_enum_ok [OF row V_ENUM assms(2)] by simp
    qed (use assms(3) w render_str_ok [OF row] in
      \<open>cases w; auto simp: render_def Let_def dest!: map_sum_Inr render_str_InrD\<close>)+
    then show ?thesis using assms(1) key by (simp add: edit_ok_def)
  qed
qed

lemma find_in_set: "find P xs = Some x \<Longrightarrow> x \<in> set xs"
  by (auto simp: find_Some_iff)

lemma validate_one_ok: "list_all (list_all isprint) zones \<Longrightarrow> validate_one zones s n v = Inr e \<Longrightarrow> edit_ok e"
  by (auto simp: validate_one_def rcd_key_find_def split: option.splits dest: find_in_set intro: render_ok)

lemma validate_items_ok:
  "list_all (list_all isprint) zones \<Longrightarrow> validate_items zones acc is = Inr es \<Longrightarrow> list_all edit_ok acc \<Longrightarrow>
     length acc \<le> RCD_EDITS_MAX \<Longrightarrow> list_all edit_ok es \<and> length es \<le> RCD_EDITS_MAX \<and> es \<noteq> []"
proof (induction "is" arbitrary: acc)
  case (Cons i "is")
  from Cons.prems(2) obtain s n ed where parts:
      "validate_one zones s n (i_value i) = Inr ed" "validate_items zones (acc @ [ed]) is = Inr es"
      "length acc < RCD_EDITS_MAX"
    by (auto split: if_splits option.splits json.splits sum.splits)
  then show ?case using Cons.IH [of "acc @ [ed]"] Cons.prems(1,3) validate_one_ok [OF _ parts(1)] by simp
qed (auto split: if_splits)


definition demo_request :: set_request where
  "demo_request = Edits
     [\<lparr>i_section = Some (JStr ''network''), i_key = Some (JStr ''address''), i_value = Some (JStr ''192.168.1.20'')\<rparr>,
      \<lparr>i_section = Some (JStr ''wifi''), i_key = Some (JStr ''psk''), i_value = Some JNull\<rparr>,
      \<lparr>i_section = Some (JStr ''device''), i_key = Some (JStr ''hostname''), i_value = Some (JStr ''porch'')\<rparr>]"


end
