(* ===== verification/Rcd_Stores.thy ===== *)
theory Rcd_Stores
  imports Rcd_Schema
begin

text \<open>
  The stores behind the guarded keys: the interface stanza of \<^verbatim>\<open>rcd/rcd_network.c\<close>, the host name
  files of \<^verbatim>\<open>rcd/rcd_system.c\<close> and the boot environment of \<^verbatim>\<open>rcd/rcd_wifi.c\<close>. Files hold their
  text. An operation that can fail outside the daemon (a temporary file that cannot be written
  and renamed, an allocation, a command that exits with an error) takes its outcome from the
  list \<open>io\<close>; an exhausted list means success. What the commands do to the running system is
  recorded as what they read: the stanza of the last successful \<^verbatim>\<open>ifup\<close> and the credentials of
  the last successful reconfiguration of the radio.
\<close>

datatype radio = Radio_down | Setup_mode | Station "string option" "string option"

datatype enact = Enact_hostname | Enact_net | Enact_wifi

record camera =
  stanzas :: "string \<Rightarrow> string option"
  hostfile :: "string option"
  hostsfile :: "string option"
  kname :: string
  fwenv :: "string \<Rightarrow> string option"
  fw_ok :: bool
  resolv :: "string option"
  net_up :: "string option"
  radio_up :: radio
  enacts :: "(enact \<times> bool) list"
  io :: "bool list"

definition outcome :: "camera \<Rightarrow> bool \<times> camera" where
  "outcome c = (case io c of [] \<Rightarrow> (True, c) | b # bs \<Rightarrow> (b, c\<lparr>io := bs\<rparr>))"

subsection \<open>The interface stanza\<close>

definition owned :: "string list" where
  "owned = [''address'', ''netmask'', ''gateway'', ''dns-nameserver'']"

text \<open>
  The answer is cached by the code after the first call; the variable it reads is one that the
  daemon never writes.
\<close>

definition rcd_net_iface :: "camera \<Rightarrow> string" where
  "rcd_net_iface c = (case fwenv c ''wlandev'' of
     None \<Rightarrow> ''eth0''
   | Some v \<Rightarrow> (let dev = takeWhile (\<lambda>x. x \<noteq> CHR '' '' \<and> x \<noteq> TAB \<and> x \<noteq> CR \<and> x \<noteq> LF) (take 31 v)
                in if fw_ok c \<and> dev \<noteq> [] then ''wlan0'' else ''eth0''))"

text \<open>First word of a line, at most 31 characters, and what follows it.\<close>

definition first_word :: "string \<Rightarrow> string \<times> string" where
  "first_word line = (let l = dropWhile isblank line;
       w = take 31 (takeWhile (\<lambda>x. \<not> isblank x \<and> x \<noteq> LF) l)
     in (w, drop (length w) l))"

definition is_owned :: "string \<Rightarrow> bool" where
  "is_owned word \<longleftrightarrow> word \<in> set owned"

text \<open>\<^verbatim>\<open>sscanf(rest, "%31s %15s %31s", name, family, method) == 3\<close>.\<close>

definition iface_words :: "string \<Rightarrow> (string \<times> string \<times> string) option" where
  "iface_words rest = (case scan_word 31 rest of None \<Rightarrow> None
     | Some (n, r1) \<Rightarrow> (case scan_word 15 r1 of None \<Rightarrow> None
        | Some (f, r2) \<Rightarrow> (case scan_word 31 r2 of None \<Rightarrow> None | Some (m, _) \<Rightarrow> Some (n, f, m))))"

definition directive_value :: "nat \<Rightarrow> string \<Rightarrow> string" where
  "directive_value outsz rest =
     take (outsz - 1) (takeWhile (\<lambda>x. x \<noteq> CR \<and> x \<noteq> LF) (dropWhile isblank rest))"

fun stanza_scan :: "string \<Rightarrow> nat \<Rightarrow> bool \<Rightarrow> string option \<Rightarrow> string list \<Rightarrow> string option" where
  "stanza_scan want outsz in_stanza out [] = out"
| "stanza_scan want outsz in_stanza out (line # lines) =
     (let (word, rest) = first_word line
      in if word = ''iface'' then
           (if in_stanza then out
            else stanza_scan want outsz True
              (if want = ''method'' then
                 (case iface_words rest of Some (_, _, m) \<Rightarrow> Some (strlcpy outsz m) | None \<Rightarrow> out)
               else out) lines)
         else if \<not> in_stanza \<or> word \<noteq> want then stanza_scan want outsz in_stanza out lines
         else stanza_scan want outsz in_stanza (Some (directive_value outsz rest)) lines)"

definition stanza_get :: "string \<Rightarrow> nat \<Rightarrow> camera \<Rightarrow> string option" where
  "stanza_get want outsz c = (case stanzas c (rcd_net_iface c) of
     None \<Rightarrow> None | Some t \<Rightarrow> stanza_scan want outsz False None (fgets_lines 511 t))"

definition directive_line :: "string \<Rightarrow> string \<Rightarrow> string" where
  "directive_line name val = ''    '' @ name @ '' '' @ val"

fun stanza_rewrite :: "string \<Rightarrow> string \<Rightarrow> bool \<Rightarrow> bool \<Rightarrow> bool \<Rightarrow> string list \<Rightarrow> string list" where
  "stanza_rewrite name val written in_stanza past [] =
     (if in_stanza \<and> \<not> written \<and> val \<noteq> [] then [directive_line name val] else [])"
| "stanza_rewrite name val written in_stanza past (line # lines) =
     (let word = fst (first_word line)
      in if word = ''iface'' then
           (if in_stanza then
              (if \<not> written \<and> val \<noteq> [] then [directive_line name val] else []) @
              line # stanza_rewrite name val True False True lines
            else line # stanza_rewrite name val written (\<not> past) past lines)
         else if in_stanza \<and> word = name then
           (if \<not> written \<and> val \<noteq> [] then
              directive_line name val # stanza_rewrite name val True in_stanza past lines
            else stanza_rewrite name val written in_stanza past lines)
         else line # stanza_rewrite name val written in_stanza past lines)"

definition put_stanza :: "string \<Rightarrow> camera \<Rightarrow> bool \<times> camera" where
  "put_stanza t c = (let (ok, c1) = outcome c
     in if ok then (True, c1\<lparr>stanzas := (stanzas c1)(rcd_net_iface c1 := Some t)\<rparr>) else (False, c1))"

definition stanza_set :: "string \<Rightarrow> string \<Rightarrow> camera \<Rightarrow> bool \<times> camera" where
  "stanza_set name val c =
     (if \<not> is_owned name then (False, c)
      else case stanzas c (rcd_net_iface c) of
        None \<Rightarrow> (False, c)
      | Some t \<Rightarrow>
          (if 4096 < length t then (False, c)
           else put_stanza (join_lines (stanza_rewrite name val False False False (strtok_lines t))) c))"

definition iface_line :: "string \<Rightarrow> string \<Rightarrow> string \<Rightarrow> string" where
  "iface_line name family method = ''iface '' @ name @ '' '' @ family @ '' '' @ method"

fun method_rewrite :: "string \<Rightarrow> string list \<Rightarrow> (string list) option" where
  "method_rewrite method [] = None"
| "method_rewrite method (line # lines) =
     (let (word, rest) = first_word line
      in case (if word = ''iface'' then iface_words rest else None) of
           Some (n, f, _) \<Rightarrow> Some (iface_line n f method # lines)
         | None \<Rightarrow> map_option (Cons line) (method_rewrite method lines))"

definition method_set :: "string \<Rightarrow> camera \<Rightarrow> bool \<times> camera" where
  "method_set method c = (case stanzas c (rcd_net_iface c) of
     None \<Rightarrow> (False, c)
   | Some t \<Rightarrow>
       (if 4096 < length t then (False, c)
        else case method_rewrite method (strtok_lines t) of
          None \<Rightarrow> (False, c)
        | Some ls \<Rightarrow> put_stanza (join_lines ls) c))"

text \<open>
  The interface goes down and up again; with a static address the stored name server is written
  out.
\<close>

definition write_resolv :: "camera \<Rightarrow> camera" where
  "write_resolv c =
     (if stanza_get ''method'' 32 c = Some ''static'' then
        (case stanza_get ''dns-nameserver'' 64 c of
           None \<Rightarrow> c
         | Some d \<Rightarrow>
             (if d = [] then c
              else let (ok, c') = outcome c
                   in if ok then c'\<lparr>resolv := Some (take 127 (''nameserver '' @ d @ [LF]))\<rparr> else c'))
      else c)"

definition net_enact :: "camera \<Rightarrow> bool \<times> camera" where
  "net_enact c =
     (let (up, c1) = outcome c;
          c2 = write_resolv (if up then c1\<lparr>net_up := stanzas c1 (rcd_net_iface c1)\<rparr> else c1)
      in (up, c2\<lparr>enacts := enacts c2 @ [(Enact_net, up)]\<rparr>))"

definition dhcp_get :: "camera \<Rightarrow> string option" where
  "dhcp_get c = (case stanza_get ''method'' 32 c of
     None \<Rightarrow> None | Some m \<Rightarrow> if m = [] then None else Some (if m = ''dhcp'' then ''true'' else ''false''))"

definition dhcp_set :: "string \<Rightarrow> camera \<Rightarrow> bool \<times> camera" where
  "dhcp_set val c = (if val = [] then method_set ''dhcp'' c
     else method_set (if val = ''true'' then ''dhcp'' else ''static'') c)"

definition directive_get :: "string \<Rightarrow> camera \<Rightarrow> string option" where
  "directive_get name c = (case stanza_get name RCD_VAL_MAX c of
     None \<Rightarrow> None | Some v \<Rightarrow> if v = [] then None else Some v)"

text \<open>\<^verbatim>\<open>sscanf(line, " nameserver %127s", host) == 1\<close>.\<close>

definition nameserver_of :: "string \<Rightarrow> string option" where
  "nameserver_of line = (let l = dropWhile isspace line
     in if take 10 l = ''nameserver'' then map_option fst (scan_word 127 (drop 10 l)) else None)"

fun first_some :: "('a \<Rightarrow> 'b option) \<Rightarrow> 'a list \<Rightarrow> 'b option" where
  "first_some f [] = None"
| "first_some f (x # xs) = (case f x of Some y \<Rightarrow> Some y | None \<Rightarrow> first_some f xs)"

definition dns_get :: "camera \<Rightarrow> string option" where
  "dns_get c = (case directive_get ''dns-nameserver'' c of
     Some v \<Rightarrow> Some v
   | None \<Rightarrow> (case resolv c of None \<Rightarrow> None
      | Some t \<Rightarrow> map_option (strlcpy RCD_VAL_MAX) (first_some nameserver_of (fgets_lines 255 t))))"

subsection \<open>The host name\<close>

definition strip_eol :: "string \<Rightarrow> string" where
  "strip_eol s = rev (dropWhile (\<lambda>x. x = LF \<or> x = CR) (rev s))"

definition read_line :: "string option \<Rightarrow> nat \<Rightarrow> string" where
  "read_line f outsz = (case f of None \<Rightarrow> [] | Some t \<Rightarrow> strip_eol (fgets_line (outsz - 1) t))"

definition hostname_get :: "camera \<Rightarrow> string option" where
  "hostname_get c = (let name = read_line (hostfile c) 128;
       name' = (if name = [] then take 127 (kname c) else name)
     in if name' = [] then None else Some (strlcpy RCD_VAL_MAX name'))"

definition hostname_set :: "string \<Rightarrow> camera \<Rightarrow> bool \<times> camera" where
  "hostname_set name c =
     (if name = [] then (False, c)
      else let (ok, c1) = outcome c
           in if ok then (True, c1\<lparr>hostfile := Some (take 127 (name @ [LF]))\<rparr>) else (False, c1))"

text \<open>The first line of \<^verbatim>\<open>/etc/hosts\<close> for \<^verbatim>\<open>127.0.1.1\<close> names the camera.\<close>

fun hosts_rewrite :: "string \<Rightarrow> string list \<Rightarrow> (string list) option" where
  "hosts_rewrite name [] = None"
| "hosts_rewrite name (line # lines) =
     (if map_option fst (scan_word 63 line) = Some ''127.0.1.1'' then
        Some ((''127.0.1.1'' @ [TAB] @ name) # lines)
      else map_option (Cons line) (hosts_rewrite name lines))"

definition hosts_rename :: "string \<Rightarrow> camera \<Rightarrow> camera" where
  "hosts_rename name c = (case hostsfile c of None \<Rightarrow> c
     | Some t \<Rightarrow>
         (if 8192 < length t then c
          else case hosts_rewrite name (strtok_lines t) of None \<Rightarrow> c
          | Some ls \<Rightarrow> (let (ok, c1) = outcome c
                        in if ok then c1\<lparr>hostsfile := Some (join_lines ls)\<rparr> else c1)))"

definition hostname_enact :: "camera \<Rightarrow> bool \<times> camera" where
  "hostname_enact c =
     (let name = read_line (hostfile c) 128
      in if name = [] then (False, c\<lparr>enacts := enacts c @ [(Enact_hostname, False)]\<rparr>)
         else let c1 = hosts_rename name c; (ok, c2) = outcome c1;
                  c3 = (if ok then c2\<lparr>kname := name\<rparr> else c2)
              in (True, c3\<lparr>enacts := enacts c3 @ [(Enact_hostname, True)]\<rparr>))"

subsection \<open>The boot environment\<close>

definition env_get :: "string \<Rightarrow> nat \<Rightarrow> camera \<Rightarrow> string option" where
  "env_get name outsz c =
     (if \<not> fw_ok c then None
      else case fwenv c name of None \<Rightarrow> None
      | Some v \<Rightarrow> (let out = strip_eol (take (outsz - 1) (v @ [LF])) in if out = [] then None else Some out))"

text \<open>
  The tool's exit status and whether the sector really changed are two outcomes; the value is
  read back before success is reported.
\<close>

definition env_set :: "string \<Rightarrow> string \<Rightarrow> camera \<Rightarrow> bool \<times> camera" where
  "env_set name val c =
     (let (ran, c1) = outcome c
      in if \<not> ran \<or> \<not> fw_ok c1 then (False, c1)
         else let (landed, c2) = outcome c1;
                  c3 = (if landed then c2\<lparr>fwenv := (fwenv c2)(name := if val = [] then None else Some val)\<rparr> else c2);
                  back = env_get name RCD_VAL_MAX c3
              in (if val = [] then back = None else back = Some val, c3))"

abbreviation ssid_var :: string where "ssid_var \<equiv> ''wlanssid''"
abbreviation psk_var :: string where "psk_var \<equiv> ''wlanpass''"

definition wifi_enact :: "camera \<Rightarrow> bool \<times> camera" where
  "wifi_enact c =
     (let (_, c0) = outcome c; (gen, c1) = outcome c0;
          (ok, c2) =
            (if \<not> gen then
               (let (started, c') = outcome c1
                in if started then (True, c'\<lparr>radio_up := Setup_mode\<rparr>) else (False, c'))
             else
               (let (reconf, c') = outcome c1;
                    (up, c'') = (if reconf then (True, c') else outcome c')
                in if up then (True, c''\<lparr>radio_up := Station (env_get ssid_var RCD_VAL_MAX c'') (env_get psk_var RCD_VAL_MAX c'')\<rparr>)
                   else (False, c'')))
      in (ok, c2\<lparr>enacts := enacts c2 @ [(Enact_wifi, ok)]\<rparr>))"

subsection \<open>The provider table\<close>

definition p_get :: "store \<Rightarrow> camera \<Rightarrow> string option" where
  "p_get s c = (case s of
     Hostname \<Rightarrow> hostname_get c | Net_dhcp \<Rightarrow> dhcp_get c
   | Net_address \<Rightarrow> directive_get ''address'' c | Net_netmask \<Rightarrow> directive_get ''netmask'' c
   | Net_gateway \<Rightarrow> directive_get ''gateway'' c | Net_dns \<Rightarrow> dns_get c
   | Wifi_ssid \<Rightarrow> env_get ssid_var RCD_VAL_MAX c | Wifi_psk \<Rightarrow> env_get psk_var RCD_VAL_MAX c)"

definition p_stored :: "store \<Rightarrow> camera \<Rightarrow> string option" where
  "p_stored s c = (if s = Net_dns then directive_get ''dns-nameserver'' c else p_get s c)"

definition p_set :: "store \<Rightarrow> string \<Rightarrow> camera \<Rightarrow> bool \<times> camera" where
  "p_set s v c = (case s of
     Hostname \<Rightarrow> hostname_set v c | Net_dhcp \<Rightarrow> dhcp_set v c
   | Net_address \<Rightarrow> stanza_set ''address'' v c | Net_netmask \<Rightarrow> stanza_set ''netmask'' v c
   | Net_gateway \<Rightarrow> stanza_set ''gateway'' v c | Net_dns \<Rightarrow> stanza_set ''dns-nameserver'' v c
   | Wifi_ssid \<Rightarrow> env_set ssid_var v c | Wifi_psk \<Rightarrow> env_set psk_var v c)"

definition enact_of :: "store \<Rightarrow> enact" where
  "enact_of s = (case s of Hostname \<Rightarrow> Enact_hostname | Wifi_ssid \<Rightarrow> Enact_wifi | Wifi_psk \<Rightarrow> Enact_wifi
     | _ \<Rightarrow> Enact_net)"

definition run_enact :: "enact \<Rightarrow> camera \<Rightarrow> bool \<times> camera" where
  "run_enact e c = (case e of Enact_hostname \<Rightarrow> hostname_enact c | Enact_net \<Rightarrow> net_enact c | Enact_wifi \<Rightarrow> wifi_enact c)"

end
