(* ===== verification/Rcd_Store_Laws.thy ===== *)
theory Rcd_Store_Laws
  imports Rcd_Stores
begin

text \<open>
  What the stores promise. The rewriters of the interface stanza change the directive they are
  asked for and nothing a reader can see besides; the other stores read back what was written.
  The contract is the locale \<open>key_stores\<close>, and the camera's stores are an interpretation of it.
\<close>

subsection \<open>Reading a stanza line by line\<close>

lemma takeWhile_snoc_LF: "\<not> P LF \<Longrightarrow> takeWhile P (s @ [LF]) = takeWhile P s"
  by (induction s) auto

lemma dropWhile_snoc_LF: "\<not> P LF \<Longrightarrow> dropWhile P (s @ [LF]) = dropWhile P s @ [LF]"
  by (induction s) auto

lemma not_blank_LF [simp]: "\<not> isblank LF"
  by (simp add: isblank_def)

lemma first_word_LF: "first_word (l @ [LF]) = (fst (first_word l), snd (first_word l) @ [LF])"
proof -
  define d w where "d = dropWhile isblank l" and "w = take 31 (takeWhile (\<lambda>x. \<not> isblank x \<and> x \<noteq> LF) d)"
  have "length w \<le> length (takeWhile (\<lambda>x. \<not> isblank x \<and> x \<noteq> LF) d)" by (simp add: w_def)
  also have "\<dots> \<le> length d" by (rule length_takeWhile_le)
  finally have "length w \<le> length d" .
  moreover have "dropWhile isblank (l @ [LF]) = d @ [LF]" by (simp add: d_def dropWhile_snoc_LF)
  moreover have "take 31 (takeWhile (\<lambda>x. \<not> isblank x \<and> x \<noteq> LF) (d @ [LF])) = w"
    unfolding w_def by (subst takeWhile_snoc_LF) simp_all
  ultimately show ?thesis unfolding first_word_def Let_def by (simp add: d_def [symmetric] w_def [symmetric] del: length_take)
qed

lemma scan_word_LF: "scan_word m (s @ [LF]) = map_option (\<lambda>(w, r). (w, r @ [LF])) (scan_word m s)"
proof (cases "\<exists>x \<in> set s. \<not> isspace x")
  case True
  then have d: "dropWhile isspace (s @ [LF]) = dropWhile isspace s @ [LF]"
    by (induction s) auto
  define w where "w = take m (takeWhile (\<lambda>x. \<not> isspace x) (dropWhile isspace s))"
  have "length w \<le> length (takeWhile (\<lambda>x. \<not> isspace x) (dropWhile isspace s))" by (simp add: w_def)
  also have "\<dots> \<le> length (dropWhile isspace s)" by (rule length_takeWhile_le)
  finally have "length w \<le> length (dropWhile isspace s)" .
  then show ?thesis
    by (simp add: scan_word_def Let_def d takeWhile_snoc_LF w_def [symmetric])
next
  case False
  then have none: "dropWhile isspace (s @ [LF]) = []" "dropWhile isspace s = []"
    by (simp_all add: dropWhile_eq_Nil_conv)
  show ?thesis unfolding scan_word_def none by simp
qed

lemma iface_words_LF: "iface_words (s @ [LF]) = iface_words s"
  by (auto simp: iface_words_def scan_word_LF split: option.splits)

lemma directive_value_LF: "directive_value m (s @ [LF]) = directive_value m s"
  by (simp add: directive_value_def dropWhile_snoc_LF takeWhile_snoc_LF)

lemma fgets_line_shape: "\<exists>p. LF \<notin> set p \<and> (fgets_line m t = p \<or> fgets_line m t = p @ [LF])"
proof -
  define p where "p = takeWhile (\<lambda>c. c \<noteq> LF) t"
  have free: "LF \<notin> set p" by (auto simp: p_def dest: set_takeWhileD)
  then have "LF \<notin> set (take m p)" by (auto dest: in_set_takeD)
  show ?thesis
  proof (cases "length p < m")
    case True
    then show ?thesis using free by (intro exI [of _ p]) (auto simp: fgets_line_def p_def [symmetric] Let_def)
  next
    case False
    then have "fgets_line m t = take m p" by (simp add: fgets_line_def p_def [symmetric] Let_def)
    then show ?thesis using \<open>LF \<notin> set (take m p)\<close> by blast
  qed
qed

lemma fgets_lines_shape: "l \<in> set (fgets_lines m t) \<Longrightarrow> l = chomp l \<or> l = chomp l @ [LF]"
proof (induction m t rule: fgets_lines.induct)
  case (1 m t)
  show ?case
  proof (cases "t = [] \<or> m = 0")
    case False
    with 1(2) have "l = fgets_line m t \<or> l \<in> set (fgets_lines m (drop (length (fgets_line m t)) t))"
      by (subst (asm) fgets_lines.simps) auto
    then show ?thesis
    proof
      assume "l = fgets_line m t"
      then show ?thesis using fgets_line_shape [of m t] by force
    qed (use 1(1) [OF False] in blast)
  qed (use 1(2) in \<open>subst (asm) fgets_lines.simps; simp\<close>)
qed

lemma stanza_scan_chomp:
  "\<forall>l \<in> set ls. l = chomp l \<or> l = chomp l @ [LF] \<Longrightarrow>
     stanza_scan want m ins out ls = stanza_scan want m ins out (map chomp ls)"
proof (induction ls arbitrary: ins out)
  case (Cons l ls)
  have rest: "\<And>ins out. stanza_scan want m ins out ls = stanza_scan want m ins out (map chomp ls)"
    using Cons by simp
  from Cons.prems consider "l = chomp l" | "l = chomp l @ [LF]" by auto
  then show ?case
  proof cases
    case 1
    then show ?thesis using rest by (simp split: prod.splits)
  next
    case 2
    define k where "k = chomp l"
    have l: "l = k @ [LF]" using 2 by (simp add: k_def)
    show ?thesis unfolding list.map k_def [symmetric] unfolding l
      using rest by (simp add: first_word_LF iface_words_LF directive_value_LF split: prod.splits)
  qed
qed simp

lemma first_word_Nil [simp]: "first_word [] = ([], [])"
  by (simp add: first_word_def)

lemma stanza_scan_filter:
  "want \<noteq> [] \<Longrightarrow> stanza_scan want m ins out (filter (\<lambda>l. l \<noteq> []) ls) = stanza_scan want m ins out ls"
  by (induction ls arbitrary: ins out) (auto split: prod.splits)

text \<open>A reader sees the lines that a rewriter works on.\<close>

lemma stanza_scan_text:
  assumes "want \<noteq> []" "short_lines 511 t"
  shows "stanza_scan want m False None (fgets_lines 511 t) = stanza_scan want m False None (strtok_lines t)"
proof -
  have "stanza_scan want m False None (fgets_lines 511 t) = stanza_scan want m False None (map chomp (fgets_lines 511 t))"
    by (intro stanza_scan_chomp ballI fgets_lines_shape)
  also have "\<dots> = stanza_scan want m False None (filter (\<lambda>l. l \<noteq> []) (map chomp (fgets_lines 511 t)))"
    using assms(1) by (simp only: stanza_scan_filter not_False_eq_True)
  also have "\<dots> = stanza_scan want m False None (strtok_lines t)"
    using assms(2) by (simp only: strtok_fgets zero_less_numeral)
  finally show ?thesis .
qed

subsection \<open>Rewriting one directive\<close>

definition word_of :: "string \<Rightarrow> string" where
  "word_of l = fst (first_word l)"

definition rest_of :: "string \<Rightarrow> string" where
  "rest_of l = snd (first_word l)"

lemma stanza_scan_Cons:
  "stanza_scan want m ins out (l # ls) =
     (if word_of l = ''iface'' then
        (if ins then out
         else stanza_scan want m True
           (if want = ''method'' then
              (case iface_words (rest_of l) of Some (_, _, x) \<Rightarrow> Some (strlcpy m x) | None \<Rightarrow> out)
            else out) ls)
      else if \<not> ins \<or> word_of l \<noteq> want then stanza_scan want m ins out ls
      else stanza_scan want m ins (Some (directive_value m (rest_of l))) ls)"
  by (simp add: word_of_def rest_of_def split: prod.splits)

lemma stanza_rewrite_Cons:
  "stanza_rewrite name v w ins past (l # ls) =
     (if word_of l = ''iface'' then
        (if ins then (if \<not> w \<and> v \<noteq> [] then [directive_line name v] else []) @
           l # stanza_rewrite name v True False True ls
         else l # stanza_rewrite name v w (\<not> past) past ls)
      else if ins \<and> word_of l = name then
        (if \<not> w \<and> v \<noteq> [] then directive_line name v # stanza_rewrite name v True ins past ls
         else stanza_rewrite name v w ins past ls)
      else l # stanza_rewrite name v w ins past ls)"
  by (simp add: word_of_def Let_def)

declare stanza_scan.simps(2) [simp del] stanza_rewrite.simps(2) [simp del]

definition has_iface :: "string list \<Rightarrow> bool" where
  "has_iface ls \<longleftrightarrow> (\<exists>l \<in> set ls. word_of l = ''iface'')"

definition first_iface :: "string list \<Rightarrow> string option" where
  "first_iface ls = find (\<lambda>l. word_of l = ''iface'') ls"

text \<open>A value that survives being written as a directive and read again.\<close>

definition plain :: "string \<Rightarrow> bool" where
  "plain v \<longleftrightarrow> v \<noteq> [] \<and> length v \<le> 127 \<and> LF \<notin> set v \<and> CR \<notin> set v \<and> \<not> isblank (hd v)"

lemma first_word_owned:
  assumes "name \<in> set owned"
  shows "word_of (directive_line name v) = name" "rest_of (directive_line name v) = CHR '' '' # v"
  using assms
  by (auto simp: owned_def directive_line_def first_word_def word_of_def rest_of_def isblank_def Let_def)

lemma owned_names: "name \<in> set owned \<Longrightarrow> name \<noteq> ''iface'' \<and> name \<noteq> ''method'' \<and> name \<noteq> []"
  by (auto simp: owned_def)

lemma directive_value_plain: "plain v \<Longrightarrow> directive_value RCD_VAL_MAX (CHR '' '' # v) = v"
proof -
  assume p: "plain v"
  then have d: "dropWhile isblank (CHR '' '' # v) = v"
    by (cases v) (auto simp: plain_def isblank_def)
  have whole: "takeWhile (\<lambda>x. x \<noteq> CR \<and> x \<noteq> LF) v = v" using p by (subst takeWhile_eq_all_conv) (auto simp: plain_def)
  show ?thesis unfolding directive_value_def d whole using p by (simp add: plain_def)
qed

lemma scan_rewrite_written:
  "name \<in> set owned \<Longrightarrow> stanza_scan name m True out (stanza_rewrite name v True True past ls) = out"
  by (induction ls) (auto simp: stanza_scan_Cons stanza_rewrite_Cons)

lemma scan_rewrite_in:
  assumes own: "name \<in> set owned" and val: "v = [] \<or> plain v"
  shows "stanza_scan name RCD_VAL_MAX True None (stanza_rewrite name v False True past ls) =
    (if v = [] then None else Some v)"
proof -
  note facts = first_word_owned [OF own] owned_names [OF own, THEN conjunct1] scan_rewrite_written [OF own]
  show ?thesis
  proof (cases "v = []")
    case True
    show ?thesis unfolding True using facts
      by (induction ls) (simp_all add: stanza_scan_Cons stanza_rewrite_Cons)
  next
    case False
    then have "directive_value RCD_VAL_MAX (CHR '' '' # v) = v" using val directive_value_plain by blast
    then show ?thesis using facts False
      by (induction ls) (simp_all add: stanza_scan_Cons stanza_rewrite_Cons)
  qed
qed

lemma scan_rewrite_same:
  assumes own: "name \<in> set owned" and val: "v = [] \<or> plain v"
  shows "stanza_scan name RCD_VAL_MAX False None (stanza_rewrite name v False False False ls) =
    (if v = [] \<or> \<not> has_iface ls then None else Some v)"
proof (induction ls)
  case Nil
  then show ?case by (simp add: has_iface_def)
next
  case (Cons l ls)
  then show ?case using scan_rewrite_in [OF own val] owned_names [OF own]
    by (cases "word_of l = ''iface''") (simp_all add: stanza_scan_Cons stanza_rewrite_Cons has_iface_def)
qed

lemma scan_rewrite_other_in:
  assumes own: "name \<in> set owned" and "want \<noteq> name" "want \<noteq> ''iface''"
  shows "stanza_scan want m True out (stanza_rewrite name v w True past ls) = stanza_scan want m True out ls"
proof (induction ls arbitrary: out w)
  case Nil
  then show ?case using assms first_word_owned [OF own] owned_names [OF own]
    by (simp add: stanza_scan_Cons)
next
  case (Cons l ls)
  note facts = first_word_owned [OF own] owned_names [OF own, THEN conjunct1] assms(2,3) Cons
  consider "word_of l = ''iface''" | "word_of l = name" "name \<noteq> ''iface''" | "word_of l \<noteq> ''iface''" "word_of l \<noteq> name"
    using facts by blast
  then show ?case by cases (use facts in \<open>simp_all add: stanza_scan_Cons stanza_rewrite_Cons\<close>)
qed

lemma scan_rewrite_other:
  assumes own: "name \<in> set owned" and "want \<noteq> name" "want \<noteq> ''iface''"
  shows "stanza_scan want m False out (stanza_rewrite name v False False False ls) = stanza_scan want m False out ls"
proof (induction ls arbitrary: out)
  case (Cons l ls)
  then show ?case using scan_rewrite_other_in [OF assms]
    by (cases "word_of l = ''iface''") (simp_all add: stanza_scan_Cons stanza_rewrite_Cons)
qed simp

lemma first_iface_rewrite: "first_iface (stanza_rewrite name v False False False ls) = first_iface ls"
  by (induction ls) (auto simp: first_iface_def stanza_rewrite_Cons)

lemma has_iface_first: "has_iface ls \<longleftrightarrow> first_iface ls \<noteq> None"
  by (auto simp: has_iface_def first_iface_def find_None_iff)

lemma rewrite_lines_from:
  "l \<in> set (stanza_rewrite name v w ins past ls) \<Longrightarrow> l \<in> set ls \<or> l = directive_line name v \<and> v \<noteq> []"
  by (induction ls arbitrary: w ins past) (auto simp: stanza_rewrite_Cons split: if_splits)

subsection \<open>Rewriting the method\<close>

definition is_word :: "nat \<Rightarrow> string \<Rightarrow> bool" where
  "is_word m w \<longleftrightarrow> w \<noteq> [] \<and> length w \<le> m \<and> (\<forall>x \<in> set w. \<not> isspace x)"

lemma scan_word_is_word: "scan_word m s = Some (w, r) \<Longrightarrow> is_word m w"
  by (auto simp: scan_word_def is_word_def Let_def split: if_splits dest!: in_set_takeD set_takeWhileD)

lemma iface_words_are_words: "iface_words s = Some (n, f, m) \<Longrightarrow> is_word 31 n \<and> is_word 15 f \<and> is_word 31 m"
  by (auto simp: iface_words_def split: option.splits prod.splits dest!: scan_word_is_word)

lemma isspace_space [simp]: "isspace CHR '' ''"
  by (simp add: isspace_def code_def)

lemma scan_word_blank_word:
  assumes "is_word m w" "r = [] \<or> isspace (hd r)"
  shows "scan_word m ('' '' @ w @ r) = Some (w, r)"
proof -
  have "dropWhile isspace ('' '' @ w @ r) = w @ r"
    using assms(1) by (cases w) (auto simp: is_word_def)
  moreover have "takeWhile (\<lambda>x. \<not> isspace x) (w @ r) = w"
  proof -
    have "takeWhile (\<lambda>x. \<not> isspace x) (w @ r) = w @ takeWhile (\<lambda>x. \<not> isspace x) r"
      using assms(1) by (intro takeWhile_append2) (simp add: is_word_def)
    then show ?thesis using assms(2) by (cases r) auto
  qed
  ultimately show ?thesis using assms(1) by (cases w) (auto simp: scan_word_def is_word_def Let_def)
qed

lemma iface_line_words:
  "word_of (iface_line n f m) = ''iface''"
  "rest_of (iface_line n f m) = '' '' @ n @ '' '' @ f @ '' '' @ m"
  by (simp_all add: iface_line_def word_of_def rest_of_def first_word_def isblank_def Let_def)

lemma iface_words_line:
  assumes "is_word 31 n" "is_word 15 f" "is_word 31 m"
  shows "iface_words ('' '' @ n @ '' '' @ f @ '' '' @ m) = Some (n, f, m)"
proof -
  have "scan_word 31 ('' '' @ n @ ('' '' @ f @ '' '' @ m)) = Some (n, '' '' @ f @ '' '' @ m)"
    using assms(1) by (intro scan_word_blank_word) auto
  moreover have "scan_word 15 ('' '' @ f @ ('' '' @ m)) = Some (f, '' '' @ m)"
    using assms(2) by (intro scan_word_blank_word) auto
  moreover have "scan_word 31 ('' '' @ m @ []) = Some (m, [])"
    using assms(3) by (intro scan_word_blank_word) auto
  ultimately show ?thesis by (simp add: iface_words_def)
qed

text \<open>The first interface line says which method it is.\<close>

definition parses :: "string list \<Rightarrow> bool" where
  "parses ls \<longleftrightarrow> (case first_iface ls of None \<Rightarrow> False | Some l \<Rightarrow> iface_words (rest_of l) \<noteq> None)"

lemma method_rewrite_Cons:
  "method_rewrite m (l # ls) =
     (case (if word_of l = ''iface'' then iface_words (rest_of l) else None) of
        Some (n, f, _) \<Rightarrow> Some (iface_line n f m # ls)
      | None \<Rightarrow> map_option (Cons l) (method_rewrite m ls))"
  by (simp add: word_of_def rest_of_def split: prod.splits)

declare method_rewrite.simps(2) [simp del]

text \<open>Either the line in hand is the one replaced, or it is copied.\<close>

lemma method_rewrite_cases:
  assumes "method_rewrite m (l # ls) = Some ls'"
  obtains n f x where "word_of l = ''iface''" "iface_words (rest_of l) = Some (n, f, x)" "ls' = iface_line n f m # ls"
  | ls1 where "word_of l = ''iface'' \<longrightarrow> iface_words (rest_of l) = None" "method_rewrite m ls = Some ls1" "ls' = l # ls1"
  using assms by (auto simp: method_rewrite_Cons split: option.splits if_splits)

lemma scan_method_other:
  assumes "want \<noteq> ''method''"
  shows "method_rewrite m ls = Some ls' \<Longrightarrow> stanza_scan want k ins out ls' = stanza_scan want k ins out ls"
proof (induction ls arbitrary: ls' ins out)
  case (Cons l ls)
  from Cons.prems show ?case
  proof (cases rule: method_rewrite_cases)
    case (1 n f x)
    then show ?thesis using assms by (simp add: stanza_scan_Cons iface_line_words)
  next
    case (2 ls1)
    then show ?thesis using assms Cons.IH by (simp add: stanza_scan_Cons)
  qed
qed simp

definition no_method :: "string list \<Rightarrow> bool" where
  "no_method ls \<longleftrightarrow> (\<forall>l \<in> set ls. word_of l \<noteq> ''method'')"

lemma no_method_Cons [simp]: "no_method (l # ls) \<longleftrightarrow> word_of l \<noteq> ''method'' \<and> no_method ls"
  by (auto simp: no_method_def)

lemma scan_method_in: "no_method ls \<Longrightarrow> stanza_scan ''method'' k True out ls = out"
  by (induction ls) (simp_all add: stanza_scan_Cons)

definition iface_method :: "string list \<Rightarrow> string option" where
  "iface_method ls = (case first_iface ls of None \<Rightarrow> None
     | Some l \<Rightarrow> map_option (\<lambda>(n, f, m). m) (iface_words (rest_of l)))"

lemma first_iface_Cons: "first_iface (l # ls) = (if word_of l = ''iface'' then Some l else first_iface ls)"
  by (simp add: first_iface_def)

lemma scan_method: "no_method ls \<Longrightarrow> stanza_scan ''method'' k False None ls = map_option (strlcpy k) (iface_method ls)"
proof (induction ls)
  case (Cons l ls)
  then show ?case
    by (cases "word_of l = ''iface''")
      (auto simp: stanza_scan_Cons iface_method_def first_iface_Cons scan_method_in split: option.splits)
qed (simp add: iface_method_def first_iface_def)

lemma parses_iface_method: "parses ls \<longleftrightarrow> iface_method ls \<noteq> None"
  by (auto simp: parses_def iface_method_def split: option.splits)

lemma method_rewrite_method:
  assumes "is_word 31 m"
  shows "method_rewrite m ls = Some ls' \<Longrightarrow> iface_method ls' = (if parses ls then Some m else None)"
proof (induction ls arbitrary: ls')
  case (Cons l ls)
  from Cons.prems show ?case
  proof (cases rule: method_rewrite_cases)
    case (1 n f x)
    have w: "is_word 31 n" "is_word 15 f" using iface_words_are_words [OF 1(2)] by auto
    show ?thesis using 1 iface_words_line [OF w assms]
      by (simp add: iface_method_def first_iface_Cons iface_line_words parses_def del: append.simps)
  next
    case (2 ls1)
    then show ?thesis using Cons.IH [OF 2(2)]
      by (auto simp: iface_method_def first_iface_Cons parses_def split: option.splits if_splits)
  qed
qed simp

lemma method_rewrite_lines:
  "method_rewrite m ls = Some ls' \<Longrightarrow> l \<in> set ls' \<Longrightarrow>
     l \<in> set ls \<or> (\<exists>n f. is_word 31 n \<and> is_word 15 f \<and> l = iface_line n f m)"
proof (induction ls arbitrary: ls')
  case (Cons x ls)
  from Cons.prems(1) show ?case
  proof (cases rule: method_rewrite_cases)
    case (1 n f y)
    then show ?thesis using Cons.prems(2) iface_words_are_words [OF 1(2)] by auto
  next
    case (2 ls1)
    then show ?thesis using Cons.IH [OF 2(2)] Cons.prems(2) by auto
  qed
qed simp

lemma has_iface_method_rewrite: "method_rewrite m ls = Some ls' \<Longrightarrow> has_iface ls' = has_iface ls"
proof (induction ls arbitrary: ls')
  case (Cons x ls)
  from Cons.prems show ?case
  proof (cases rule: method_rewrite_cases)
    case (1 n f y)
    then show ?thesis by (simp add: has_iface_def iface_line_words)
  next
    case (2 ls1)
    then show ?thesis using Cons.IH [OF 2(2)] by (simp add: has_iface_def)
  qed
qed simp

subsection \<open>Stores of the camera\<close>

definition good_line :: "string \<Rightarrow> bool" where
  "good_line l \<longleftrightarrow> l \<noteq> [] \<and> LF \<notin> set l \<and> length l < 511 \<and> word_of l \<noteq> ''method''"

lemma good_line_directive:
  assumes "name \<in> set owned" "plain v"
  shows "good_line (directive_line name v)"
proof -
  have "word_of (directive_line name v) \<noteq> ''method''"
    using first_word_owned(1) [OF assms(1)] owned_names [OF assms(1)] by simp
  moreover have "LF \<notin> set name" "length name \<le> 14" using assms(1) by (auto simp: owned_def)
  ultimately show ?thesis using assms(2) by (auto simp: good_line_def directive_line_def plain_def)
qed

lemma good_line_iface:
  assumes "is_word 31 n" "is_word 15 f" "is_word 31 m"
  shows "good_line (iface_line n f m)"
proof -
  have "LF \<notin> set n" "LF \<notin> set f" "LF \<notin> set m" using assms by (auto simp: is_word_def)
  then show ?thesis using assms iface_line_words(1) [of n f m]
    by (auto simp: good_line_def iface_line_def is_word_def)
qed

lemma strtok_good: "\<forall>l \<in> set ls. good_line l \<Longrightarrow> strtok_lines (join_lines ls) = ls"
  by (intro strtok_join_lines) (auto simp: good_line_def)

definition stanza_lines :: "camera \<Rightarrow> string list" where
  "stanza_lines c = (case stanzas c (rcd_net_iface c) of None \<Rightarrow> [] | Some t \<Rightarrow> strtok_lines t)"

text \<open>
  Every line of the stanza file fits the reader's buffer and none is a directive called
  \<^verbatim>\<open>method\<close>; the kernel's host name is one a line of a file can hold.
\<close>

definition wf_camera :: "camera \<Rightarrow> bool" where
  "wf_camera c \<longleftrightarrow>
     (case stanzas c (rcd_net_iface c) of None \<Rightarrow> True | Some t \<Rightarrow> short_lines 511 t \<and> no_method (strtok_lines t)) \<and>
     LF \<notin> set (kname c) \<and> length (kname c) \<le> 127 \<and> (kname c \<noteq> [] \<longrightarrow> last (kname c) \<noteq> CR)"

lemma wf_camera_lines: "wf_camera c \<Longrightarrow> l \<in> set (stanza_lines c) \<Longrightarrow> good_line l"
  by (auto simp: wf_camera_def stanza_lines_def good_line_def no_method_def short_strtok_lines
      split: option.splits dest: strtok_lines_wf)

lemma stanza_get_lines:
  "wf_camera c \<Longrightarrow> want \<noteq> [] \<Longrightarrow> stanza_get want m c = stanza_scan want m False None (stanza_lines c)"
  by (auto simp: stanza_get_def stanza_lines_def wf_camera_def stanza_scan_text split: option.splits)

definition directive_name :: "store \<Rightarrow> string" where
  "directive_name s = (case s of Net_address \<Rightarrow> ''address'' | Net_netmask \<Rightarrow> ''netmask''
     | Net_gateway \<Rightarrow> ''gateway'' | Net_dns \<Rightarrow> ''dns-nameserver'' | _ \<Rightarrow> [])"

definition is_directive :: "store \<Rightarrow> bool" where
  "is_directive s \<longleftrightarrow> s \<in> {Net_address, Net_netmask, Net_gateway, Net_dns}"

lemma directive_owned: "is_directive s \<Longrightarrow> directive_name s \<in> set owned"
  by (auto simp: is_directive_def directive_name_def owned_def)

lemma directive_name_inj: "is_directive s \<Longrightarrow> is_directive t \<Longrightarrow> s \<noteq> t \<Longrightarrow> directive_name s \<noteq> directive_name t"
  by (auto simp: is_directive_def directive_name_def)

lemma p_stored_directive: "is_directive s \<Longrightarrow> p_stored s c = directive_get (directive_name s) c"
  by (auto simp: is_directive_def directive_name_def p_stored_def p_get_def)

lemma p_set_directive: "is_directive s \<Longrightarrow> p_set s v c = stanza_set (directive_name s) v c"
  by (auto simp: is_directive_def directive_name_def p_set_def)

definition settable :: "store \<Rightarrow> camera \<Rightarrow> bool" where
  "settable s c \<longleftrightarrow> (if is_directive s then has_iface (stanza_lines c)
     else if s = Net_dhcp then parses (stanza_lines c) else True)"

definition valid :: "store \<Rightarrow> string \<Rightarrow> bool" where
  "valid s v \<longleftrightarrow> (if is_directive s then plain v
     else if s = Net_dhcp then v = ''true'' \<or> v = ''false''
     else if s = Hostname then v \<noteq> [] \<and> length v \<le> 127 \<and> LF \<notin> set v \<and> last v \<noteq> CR
     else v \<noteq> [])"

lemma store_cases:
  obtains (directive) "is_directive s" | (dhcp) "s = Net_dhcp" | (host) "s = Hostname"
  | (env) name where "s = Wifi_ssid \<and> name = ssid_var \<or> s = Wifi_psk \<and> name = psk_var"
  by (cases s) (auto simp: is_directive_def)

lemma outcome_io: "outcome c = (b, c') \<Longrightarrow> \<exists>x. c' = c\<lparr>io := x\<rparr>"
  by (auto simp: outcome_def split: list.splits intro: exI [of _ "io c"])

text \<open>What the readers look at.\<close>

definition stored_part :: "camera \<Rightarrow> (string \<Rightarrow> string option) \<times> string option \<times> string \<times> (string \<Rightarrow> string option) \<times> bool" where
  "stored_part c = (stanzas c, hostfile c, kname c, fwenv c, fw_ok c)"

lemma iface_same: "fwenv c' ''wlandev'' = fwenv c ''wlandev'' \<Longrightarrow> fw_ok c' = fw_ok c \<Longrightarrow> rcd_net_iface c' = rcd_net_iface c"
  by (simp add: rcd_net_iface_def Let_def cong: option.case_cong)

lemma stored_part_same:
  assumes "stored_part c' = stored_part c"
  shows "p_stored s c' = p_stored s c" "wf_camera c' = wf_camera c" "settable s c' = settable s c"
    "stanza_lines c' = stanza_lines c"
proof -
  have eq: "stanzas c' = stanzas c" "hostfile c' = hostfile c" "kname c' = kname c" "fwenv c' = fwenv c" "fw_ok c' = fw_ok c"
    using assms by (simp_all add: stored_part_def)
  have i: "rcd_net_iface c' = rcd_net_iface c" by (rule iface_same) (simp_all add: eq)
  show l: "stanza_lines c' = stanza_lines c" by (simp add: stanza_lines_def eq i)
  show "wf_camera c' = wf_camera c" by (simp add: wf_camera_def eq i)
  show "settable s c' = settable s c" by (simp add: settable_def l)
  have g: "\<And>w m. stanza_get w m c' = stanza_get w m c" by (simp add: stanza_get_def eq i)
  show "p_stored s c' = p_stored s c"
    by (cases s) (simp_all add: p_stored_def p_get_def directive_get_def dhcp_get_def hostname_get_def env_get_def g eq Let_def)
qed

subsubsection \<open>Writing the stanza\<close>

lemma put_stanza_effect:
  assumes "put_stanza (join_lines ls) c = (b, c')" "\<forall>l \<in> set ls. good_line l" "wf_camera c"
  shows "wf_camera c' \<and> hostfile c' = hostfile c \<and> kname c' = kname c \<and> fwenv c' = fwenv c \<and> fw_ok c' = fw_ok c \<and>
    stanza_lines c' = (if b then ls else stanza_lines c)"
proof -
  obtain ok c1 where o: "outcome c = (ok, c1)" by force
  then obtain x where c1: "c1 = c\<lparr>io := x\<rparr>" using outcome_io by blast
  have i: "rcd_net_iface c1 = rcd_net_iface c" by (rule iface_same) (simp_all add: c1)
  show ?thesis
  proof (cases ok)
    case True
    then have b: "b" and c': "c' = c1\<lparr>stanzas := (stanzas c1)(rcd_net_iface c1 := Some (join_lines ls))\<rparr>"
      using assms(1) o by (simp_all add: put_stanza_def)
    have i': "rcd_net_iface c' = rcd_net_iface c" by (rule iface_same) (simp_all add: c1 c')
    have short: "short_lines 511 (join_lines ls)"
      using assms(2) by (intro short_join_lines) (auto simp: good_line_def)
    have "no_method ls" using assms(2) by (auto simp: no_method_def good_line_def)
    then show ?thesis
      using assms(3) short strtok_good [OF assms(2)] b
      unfolding wf_camera_def stanza_lines_def i' by (simp add: c' c1 i [unfolded c1])
  next
    case False
    then have "\<not> b" and c': "c' = c1" using assms(1) o by (simp_all add: put_stanza_def)
    moreover have "stored_part c1 = stored_part c" by (simp add: stored_part_def c1)
    ultimately show ?thesis using assms(3) stored_part_same [of c1 c] by (simp add: c1)
  qed
qed

text \<open>
  Both rewriters end in \<^const>\<open>put_stanza\<close> or change nothing.
\<close>

lemma stanza_set_effect:
  assumes "stanza_set name v c = (b, c')" "wf_camera c" "name \<in> set owned" "v = [] \<or> plain v"
  shows "wf_camera c' \<and> hostfile c' = hostfile c \<and> kname c' = kname c \<and> fwenv c' = fwenv c \<and> fw_ok c' = fw_ok c \<and>
    stanza_lines c' = (if b then stanza_rewrite name v False False False (stanza_lines c) else stanza_lines c)"
proof (cases "stanzas c (rcd_net_iface c)")
  case None
  then show ?thesis using assms by (simp add: stanza_set_def is_owned_def)
next
  case (Some t)
  show ?thesis
  proof (cases "4096 < length t")
    case True
    then show ?thesis using assms Some by (simp add: stanza_set_def is_owned_def)
  next
    case False
    define ls where "ls = stanza_rewrite name v False False False (stanza_lines c)"
    have lines: "stanza_lines c = strtok_lines t" by (simp add: stanza_lines_def Some)
    have put: "put_stanza (join_lines ls) c = (b, c')"
      using assms(1,3) Some False by (simp add: stanza_set_def is_owned_def ls_def lines)
    have good: "\<forall>l \<in> set ls. good_line l"
    proof
      fix l assume "l \<in> set ls"
      then have "l \<in> set (stanza_lines c) \<or> l = directive_line name v \<and> v \<noteq> []"
        unfolding ls_def by (rule rewrite_lines_from)
      then show "good_line l" using wf_camera_lines [OF assms(2)] good_line_directive [OF assms(3)] assms(4) by blast
    qed
    show ?thesis using put_stanza_effect [OF put good assms(2)] by (simp add: ls_def)
  qed
qed

lemma method_set_effect:
  assumes "method_set m c = (b, c')" "wf_camera c" "is_word 31 m"
  shows "wf_camera c' \<and> hostfile c' = hostfile c \<and> kname c' = kname c \<and> fwenv c' = fwenv c \<and> fw_ok c' = fw_ok c \<and>
    (if b then method_rewrite m (stanza_lines c) = Some (stanza_lines c') else stanza_lines c' = stanza_lines c)"
proof (cases "stanzas c (rcd_net_iface c)")
  case None
  then show ?thesis using assms by (simp add: method_set_def)
next
  case (Some t)
  have lines: "stanza_lines c = strtok_lines t" by (simp add: stanza_lines_def Some)
  show ?thesis
  proof (cases "4096 < length t \<or> method_rewrite m (stanza_lines c) = None")
    case True
    then have "b = False \<and> c' = c" using assms(1) Some lines
      by (cases "4096 < length t") (simp_all add: method_set_def)
    then show ?thesis using assms(2) by simp
  next
    case False
    then obtain ls where ls: "method_rewrite m (stanza_lines c) = Some ls" by auto
    have put: "put_stanza (join_lines ls) c = (b, c')"
      using assms(1) Some False ls by (simp add: method_set_def lines)
    have good: "\<forall>l \<in> set ls. good_line l"
      using method_rewrite_lines [OF ls] wf_camera_lines [OF assms(2)] good_line_iface assms(3) by blast
    show ?thesis using put_stanza_effect [OF put good assms(2)] ls by simp
  qed
qed

subsubsection \<open>Readings\<close>

lemma directive_value_valid: "directive_value RCD_VAL_MAX r \<noteq> [] \<Longrightarrow> plain (directive_value RCD_VAL_MAX r)"
proof -
  define d where "d = dropWhile isblank r"
  define v where "v = takeWhile (\<lambda>x. x \<noteq> CR \<and> x \<noteq> LF) d"
  assume ne: "directive_value RCD_VAL_MAX r \<noteq> []"
  then have v: "v \<noteq> []" "d \<noteq> []" by (auto simp: directive_value_def d_def [symmetric] v_def)
  have "hd v = hd d" using v by (cases d) (auto simp: v_def split: if_splits)
  moreover have "\<not> isblank (hd d)" using v(2) by (simp add: d_def hd_dropWhile)
  moreover have "\<forall>x \<in> set v. x \<noteq> CR \<and> x \<noteq> LF" by (auto simp: v_def dest: set_takeWhileD)
  ultimately show ?thesis using ne
    by (auto simp: directive_value_def d_def [symmetric] v_def [symmetric] plain_def dest: in_set_takeD)
qed

lemma scan_valid:
  assumes "want \<noteq> ''method''"
  shows "stanza_scan want RCD_VAL_MAX ins out ls = Some v \<Longrightarrow> v \<noteq> [] \<Longrightarrow>
     out = Some v \<or> plain v \<and> (ins \<or> has_iface ls)"
proof (induction ls arbitrary: ins out)
  case (Cons l ls)
  consider "word_of l = ''iface''" "ins" | "word_of l = ''iface''" "\<not> ins"
    | "word_of l \<noteq> ''iface''" "\<not> ins \<or> word_of l \<noteq> want" | "word_of l \<noteq> ''iface''" "ins" "word_of l = want"
    by blast
  then show ?case
  proof cases
    case 1
    then show ?thesis using Cons.prems by (simp add: stanza_scan_Cons)
  next
    case 2
    then show ?thesis using Cons.prems Cons.IH [of True out] assms
      by (auto simp: stanza_scan_Cons has_iface_def)
  next
    case 3
    then have "stanza_scan want RCD_VAL_MAX ins out ls = Some v" using Cons.prems(1) by (auto simp: stanza_scan_Cons split: if_splits)
    then show ?thesis using Cons.IH Cons.prems(2) by (fastforce simp: has_iface_def)
  next
    case 4
    then have "stanza_scan want RCD_VAL_MAX True (Some (directive_value RCD_VAL_MAX (rest_of l))) ls = Some v"
      using Cons.prems(1) by (simp add: stanza_scan_Cons)
    from Cons.IH [OF this Cons.prems(2)] show ?thesis using 4(2) Cons.prems(2) directive_value_valid by auto
  qed
qed simp

lemma directive_get_Some:
  assumes "wf_camera c" "name \<in> set owned" "directive_get name c = Some v"
  shows "plain v \<and> has_iface (stanza_lines c)"
proof -
  have "stanza_scan name RCD_VAL_MAX False None (stanza_lines c) = Some v" "v \<noteq> []"
    using assms owned_names [OF assms(2)] stanza_get_lines [OF assms(1), of name RCD_VAL_MAX]
    by (auto simp: directive_get_def split: option.splits if_splits)
  then show ?thesis using scan_valid [of name False None "stanza_lines c" v] owned_names [OF assms(2)] by simp
qed

lemma dhcp_get_lines:
  assumes "wf_camera c"
  shows "dhcp_get c = map_option (\<lambda>m. if m = ''dhcp'' then ''true'' else ''false'') (iface_method (stanza_lines c))"
proof -
  have nm: "no_method (stanza_lines c)" using wf_camera_lines [OF assms] by (auto simp: no_method_def good_line_def)
  have get: "stanza_get ''method'' 32 c = map_option (strlcpy 32) (iface_method (stanza_lines c))"
    using stanza_get_lines [OF assms, of "''method''" 32] scan_method [OF nm, of 32] by simp
  show ?thesis
  proof (cases "iface_method (stanza_lines c)")
    case (Some m)
    then have "is_word 31 m"
      by (auto simp: iface_method_def split: option.splits dest: iface_words_are_words)
    then have "strlcpy 32 m = m" "m \<noteq> []" by (auto simp: strlcpy_def is_word_def)
    then show ?thesis by (simp add: dhcp_get_def get Some)
  qed (simp add: dhcp_get_def get)
qed

lemma strip_eol_LF [simp]: "strip_eol (p @ [LF]) = strip_eol p"
  by (simp add: strip_eol_def)

lemma strip_eol_id: "v = [] \<or> last v \<noteq> CR \<and> last v \<noteq> LF \<Longrightarrow> strip_eol v = v"
  by (cases v rule: rev_cases) (auto simp: strip_eol_def)

lemma strip_eol_last: "strip_eol s \<noteq> [] \<Longrightarrow> last (strip_eol s) \<noteq> CR"
proof -
  assume ne: "strip_eol s \<noteq> []"
  then have "dropWhile (\<lambda>x. x = LF \<or> x = CR) (rev s) \<noteq> []" by (simp add: strip_eol_def)
  from hd_dropWhile [OF this] show ?thesis by (simp add: strip_eol_def last_rev)
qed

lemma strip_eol_prefix: "\<exists>t. s = strip_eol s @ t"
proof -
  have "rev s = takeWhile (\<lambda>x. x = LF \<or> x = CR) (rev s) @ dropWhile (\<lambda>x. x = LF \<or> x = CR) (rev s)" by simp
  then have "s = rev (dropWhile (\<lambda>x. x = LF \<or> x = CR) (rev s)) @ rev (takeWhile (\<lambda>x. x = LF \<or> x = CR) (rev s))"
    by (metis rev_append rev_rev_ident)
  then show ?thesis unfolding strip_eol_def by blast
qed

definition host_ok :: "string \<Rightarrow> bool" where
  "host_ok v \<longleftrightarrow> LF \<notin> set v \<and> length v \<le> 127 \<and> (v \<noteq> [] \<longrightarrow> last v \<noteq> CR)"

lemma read_line_ok: "host_ok (read_line f 128)"
proof (cases f)
  case (Some t)
  obtain p where p: "LF \<notin> set p" "fgets_line 127 t = p \<or> fgets_line 127 t = p @ [LF]" using fgets_line_shape by blast
  have len: "length (fgets_line 127 t) \<le> 127" by (simp add: fgets_line_def Let_def)
  have r: "read_line f 128 = strip_eol p" using p(2) Some by (auto simp: read_line_def)
  obtain q where "p = strip_eol p @ q" using strip_eol_prefix by blast
  then have sub: "set (strip_eol p) \<subseteq> set p" "length (strip_eol p) \<le> length p"
    by (metis Un_upper1 set_append, metis le_add1 length_append)
  show ?thesis unfolding r host_ok_def using sub p len strip_eol_last by auto
qed (simp add: read_line_def host_ok_def)

lemma read_line_written:
  assumes "host_ok v" "v \<noteq> []"
  shows "read_line (Some (take 127 (v @ [LF]))) 128 = v"
proof (cases "length v = 127")
  case True
  then have "fgets_line 127 v = v" using assms by (intro fgets_line_last) (auto simp: host_ok_def)
  then show ?thesis using True assms strip_eol_id [of v]
    by (auto simp: read_line_def host_ok_def) (metis last_in_set)
next
  case False
  then have "length v < 127" using assms by (simp add: host_ok_def)
  then have "fgets_line 127 (v @ [LF]) = v @ [LF]" using assms by (intro fgets_line_terminated) (auto simp: host_ok_def)
  moreover have "strip_eol v = v" using assms by (intro strip_eol_id) (metis host_ok_def last_in_set)
  ultimately show ?thesis using \<open>length v < 127\<close> by (simp add: read_line_def)
qed

lemma hostname_get_Some: "wf_camera c \<Longrightarrow> hostname_get c = Some v \<Longrightarrow> host_ok v \<and> v \<noteq> []"
proof -
  assume wf: "wf_camera c" and get: "hostname_get c = Some v"
  have k: "host_ok (kname c)" using wf by (simp add: wf_camera_def host_ok_def)
  define name where "name = read_line (hostfile c) 128"
  have n: "host_ok name" by (simp add: name_def read_line_ok)
  have v: "v = (if name = [] then kname c else name) \<and> v \<noteq> []"
    using get n k by (auto simp: hostname_get_def name_def [symmetric] strlcpy_def host_ok_def Let_def split: if_splits)
  then show ?thesis using n k by (auto split: if_splits)
qed

lemma strip_eol_length: "length (strip_eol s) \<le> length s"
  using strip_eol_prefix [of s] by (metis le_add1 length_append)

lemma env_get_Some: "env_get name RCD_VAL_MAX c = Some v \<Longrightarrow> v \<noteq> [] \<and> length v < RCD_VAL_MAX"
proof -
  assume get: "env_get name RCD_VAL_MAX c = Some v"
  then obtain w where w: "v = strip_eol (take 127 (w @ [LF]))" "v \<noteq> []"
    by (auto simp: env_get_def Let_def split: if_splits option.splits)
  have "length v \<le> length (take 127 (w @ [LF]))" unfolding w(1) by (rule strip_eol_length)
  then show ?thesis using w(2) by simp
qed

subsection \<open>The contract\<close>

text \<open>
  What the guard relies on when it calls through the provider table. \<open>settable\<close> says that the
  store has a place for the value; no write changes that. A store that is \<open>always\<close> set reads as
  something whenever it has such a place, so it is never asked to forget.
\<close>

locale key_stores =
  fixes rd :: "store \<Rightarrow> 'c \<Rightarrow> string option"
    and wr :: "store \<Rightarrow> string \<Rightarrow> 'c \<Rightarrow> bool \<times> 'c"
    and force :: "enact \<Rightarrow> 'c \<Rightarrow> bool \<times> 'c"
    and wf :: "'c \<Rightarrow> bool"
    and place :: "store \<Rightarrow> 'c \<Rightarrow> bool"
    and fits :: "store \<Rightarrow> string \<Rightarrow> bool"
    and always :: "store \<Rightarrow> bool"
  assumes read_fits: "wf c \<Longrightarrow> rd s c = Some v \<Longrightarrow> place s c \<and> fits s v \<and> v \<noteq> [] \<and> length v < RCD_VAL_MAX"
    and write_keeps: "wf c \<Longrightarrow> v = [] \<or> fits s v \<Longrightarrow> wr s v c = (b, c') \<Longrightarrow>
      wf c' \<and> place t c' = place t c \<and> (t \<noteq> s \<longrightarrow> rd t c' = rd t c)"
    and write_read: "wf c \<Longrightarrow> fits s v \<Longrightarrow> v \<noteq> [] \<Longrightarrow> place s c \<Longrightarrow> wr s v c = (True, c') \<Longrightarrow> rd s c' = Some v"
    and write_clear: "wf c \<Longrightarrow> \<not> always s \<Longrightarrow> wr s [] c = (True, c') \<Longrightarrow> rd s c' = None"
    and always_reads: "wf c \<Longrightarrow> always s \<Longrightarrow> place s c \<Longrightarrow> rd s c \<noteq> None"
    and force_keeps: "wf c \<Longrightarrow> force e c = (b, c') \<Longrightarrow>
      wf c' \<and> place t c' = place t c \<and> rd t c' = rd t c"

subsubsection \<open>The camera's stores keep it\<close>

lemma stored_read_fits:
  assumes "wf_camera c" "p_stored s c = Some v"
  shows "settable s c \<and> valid s v \<and> v \<noteq> [] \<and> length v < RCD_VAL_MAX"
proof (cases s rule: store_cases)
  case directive
  then show ?thesis using directive_get_Some [OF assms(1) directive_owned [OF directive]] assms(2)
    by (auto simp: p_stored_directive settable_def valid_def plain_def)
next
  case dhcp
  then have "dhcp_get c = Some v" using assms(2) by (simp add: p_stored_def p_get_def)
  then show ?thesis using dhcp_get_lines [OF assms(1)] dhcp
    by (auto simp: settable_def valid_def is_directive_def parses_iface_method split: if_splits)
next
  case host
  then have "hostname_get c = Some v" using assms(2) by (simp add: p_stored_def p_get_def)
  from hostname_get_Some [OF assms(1) this] host show ?thesis
    by (simp add: settable_def valid_def is_directive_def host_ok_def)
next
  case (env name)
  then show ?thesis using assms(2)
    by (auto simp: settable_def valid_def is_directive_def p_stored_def p_get_def dest: env_get_Some)
qed

text \<open>A write to one file leaves the readers of the others where they were.\<close>

lemma stanza_frame:
  assumes "hostfile c' = hostfile c" "kname c' = kname c" "fwenv c' = fwenv c" "fw_ok c' = fw_ok c"
  shows "p_stored Hostname c' = p_stored Hostname c" "p_stored Wifi_ssid c' = p_stored Wifi_ssid c"
    "p_stored Wifi_psk c' = p_stored Wifi_psk c"
  using assms by (simp_all add: p_stored_def p_get_def hostname_get_def env_get_def Let_def)

lemma other_frame:
  assumes "stanzas c' = stanzas c" "fwenv c' ''wlandev'' = fwenv c ''wlandev''" "fw_ok c' = fw_ok c"
  shows "stanza_lines c' = stanza_lines c" "is_directive s \<Longrightarrow> p_stored s c' = p_stored s c"
    "p_stored Net_dhcp c' = p_stored Net_dhcp c" "settable t c' = settable t c"
    "kname c' = kname c \<Longrightarrow> wf_camera c' = wf_camera c"
proof -
  have i: "rcd_net_iface c' = rcd_net_iface c" by (rule iface_same) (simp_all add: assms)
  show l: "stanza_lines c' = stanza_lines c" by (simp add: stanza_lines_def assms i)
  have g: "\<And>w m. stanza_get w m c' = stanza_get w m c" by (simp add: stanza_get_def assms i)
  show "is_directive s \<Longrightarrow> p_stored s c' = p_stored s c" by (simp add: p_stored_directive directive_get_def g)
  show "p_stored Net_dhcp c' = p_stored Net_dhcp c" by (simp add: p_stored_def p_get_def dhcp_get_def g)
  show "settable t c' = settable t c" by (simp add: settable_def l)
  show "kname c' = kname c \<Longrightarrow> wf_camera c' = wf_camera c" by (simp add: wf_camera_def assms i)
qed

lemma directive_get_lines:
  assumes "wf_camera c" "name \<in> set owned"
  shows "directive_get name c = (case stanza_scan name RCD_VAL_MAX False None (stanza_lines c) of
     None \<Rightarrow> None | Some v \<Rightarrow> if v = [] then None else Some v)"
  using stanza_get_lines [OF assms(1), of name RCD_VAL_MAX] owned_names [OF assms(2)]
  by (simp add: directive_get_def)

lemma directive_write:
  assumes "is_directive s" "wf_camera c" "v = [] \<or> valid s v" "p_set s v c = (b, c')"
  shows "wf_camera c' \<and> settable t c' = settable t c \<and> (t \<noteq> s \<longrightarrow> p_stored t c' = p_stored t c) \<and>
    (b \<longrightarrow> p_stored s c' = (if v = [] \<or> \<not> settable s c then None else Some v))"
proof -
  define name where "name = directive_name s"
  have own: "name \<in> set owned" by (simp add: name_def directive_owned assms(1))
  have v: "v = [] \<or> plain v" using assms(1,3) by (simp add: valid_def)
  have set: "stanza_set name v c = (b, c')" using assms(1,4) by (simp add: p_set_directive name_def)
  note eff = stanza_set_effect [OF set assms(2) own v]
  have wf': "wf_camera c'" using eff by blast
  define ls where "ls = stanza_lines c"
  have lines: "stanza_lines c' = (if b then stanza_rewrite name v False False False ls else ls)"
    using eff by (simp add: ls_def)
  have first: "first_iface (stanza_lines c') = first_iface ls" by (simp add: lines first_iface_rewrite)
  have settable: "settable t c' = settable t c"
    by (simp add: settable_def parses_def has_iface_first first flip: ls_def)
  have other: "p_stored t c' = p_stored t c" if "t \<noteq> s"
  proof (cases t rule: store_cases)
    case directive
    have ne: "directive_name t \<noteq> name" using directive_name_inj [OF directive assms(1)] that by (simp add: name_def)
    note ot = directive_owned [OF directive]
    have "stanza_scan (directive_name t) RCD_VAL_MAX False None (stanza_lines c') =
        stanza_scan (directive_name t) RCD_VAL_MAX False None ls"
      using scan_rewrite_other [OF own ne] owned_names [OF ot] by (simp add: lines)
    then show ?thesis
      using directive_get_lines [OF assms(2) ot] directive_get_lines [OF wf' ot]
      by (simp add: p_stored_directive [OF directive] ls_def)
  next
    case dhcp
    have "iface_method (stanza_lines c') = iface_method ls" by (simp add: iface_method_def first)
    then show ?thesis using dhcp_get_lines [OF assms(2)] dhcp_get_lines [OF wf'] dhcp
      by (simp add: p_stored_def p_get_def ls_def)
  qed (use eff stanza_frame [of c' c] in auto)
  have same: "p_stored s c' = (if v = [] \<or> \<not> settable s c then None else Some v)" if b
  proof -
    have "stanza_scan name RCD_VAL_MAX False None (stanza_lines c') = (if v = [] \<or> \<not> has_iface ls then None else Some v)"
      using scan_rewrite_same [OF own v] that by (simp add: lines)
    then show ?thesis using directive_get_lines [OF wf' own] assms(1)
      by (simp add: p_stored_directive name_def [symmetric] settable_def ls_def)
  qed
  show ?thesis using wf' settable other same by blast
qed

lemma dhcp_write:
  assumes "wf_camera c" "v = [] \<or> valid Net_dhcp v" "p_set Net_dhcp v c = (b, c')"
  shows "wf_camera c' \<and> settable t c' = settable t c \<and> (t \<noteq> Net_dhcp \<longrightarrow> p_stored t c' = p_stored t c) \<and>
    (b \<longrightarrow> v \<noteq> [] \<longrightarrow> settable Net_dhcp c \<longrightarrow> p_stored Net_dhcp c' = Some v)"
proof -
  define m where "m = (if v = [] \<or> v = ''true'' then ''dhcp'' else ''static'')"
  have set: "method_set m c = (b, c')" using assms(3) by (auto simp: p_set_def dhcp_set_def m_def)
  have m: "is_word 31 m" by (simp add: m_def is_word_def isspace_def code_def)
  note eff = method_set_effect [OF set assms(1) m]
  have wf': "wf_camera c'" using eff by blast
  define ls where "ls = stanza_lines c"
  have scan: "stanza_scan want k False None (stanza_lines c') = stanza_scan want k False None ls" if "want \<noteq> ''method''" for want k
    using eff scan_method_other [OF that] by (auto simp: ls_def split: if_splits)
  have iface: "has_iface (stanza_lines c') = has_iface ls" using eff has_iface_method_rewrite by (auto simp: ls_def split: if_splits)
  have meth: "b \<longrightarrow> iface_method (stanza_lines c') = (if parses ls then Some m else None)"
    using eff method_rewrite_method [OF m] by (auto simp: ls_def)
  have parses: "parses (stanza_lines c') = parses ls"
    using eff meth by (cases b) (auto simp: parses_iface_method ls_def)
  have settable: "settable t c' = settable t c" by (simp add: settable_def iface parses flip: ls_def)
  have other: "p_stored t c' = p_stored t c" if "t \<noteq> Net_dhcp"
  proof (cases t rule: store_cases)
    case directive
    note ot = directive_owned [OF directive]
    show ?thesis using scan [of "directive_name t"] owned_names [OF ot]
        directive_get_lines [OF assms(1) ot] directive_get_lines [OF wf' ot]
      by (simp add: p_stored_directive [OF directive] ls_def)
  qed (use eff stanza_frame [of c' c] that in auto)
  have same: "p_stored Net_dhcp c' = Some v" if "b" "v \<noteq> []" "settable Net_dhcp c"
  proof -
    have "parses ls" using that(3) by (simp add: settable_def is_directive_def ls_def)
    then have "dhcp_get c' = Some (if m = ''dhcp'' then ''true'' else ''false'')"
      using dhcp_get_lines [OF wf'] meth that(1) by simp
    then show ?thesis using assms(2) that(2)
      by (auto simp: p_stored_def p_get_def m_def valid_def is_directive_def split: if_splits)
  qed
  show ?thesis using wf' settable other same by blast
qed

lemma host_write:
  assumes "wf_camera c" "v = [] \<or> valid Hostname v" "p_set Hostname v c = (b, c')"
  shows "wf_camera c' \<and> settable t c' = settable t c \<and> (t \<noteq> Hostname \<longrightarrow> p_stored t c' = p_stored t c) \<and>
    (b \<longrightarrow> v \<noteq> [] \<and> p_stored Hostname c' = Some v)"
proof -
  obtain ok c1 where o: "outcome c = (ok, c1)" by force
  then obtain x where c1: "c1 = c\<lparr>io := x\<rparr>" using outcome_io by blast
  have c': "c' = c \<and> \<not> b \<and> v = [] \<or> v \<noteq> [] \<and> c' = c1 \<and> \<not> b \<or>
      v \<noteq> [] \<and> c' = c1\<lparr>hostfile := Some (take 127 (v @ [LF]))\<rparr> \<and> b"
    using assms(3) o by (auto simp: p_set_def hostname_set_def split: if_splits)
  have eq: "stanzas c' = stanzas c" "fwenv c' = fwenv c" "fw_ok c' = fw_ok c" "kname c' = kname c"
    using c' by (auto simp: c1)
  have other: "p_stored t c' = p_stored t c" if "t \<noteq> Hostname"
    by (cases t rule: store_cases)
      (use that other_frame [of c' c] eq in \<open>auto simp: p_stored_def p_get_def env_get_def\<close>)
  have same: "v \<noteq> [] \<and> p_stored Hostname c' = Some v" if b
  proof -
    have v: "host_ok v" "v \<noteq> []" using c' that assms(2) by (auto simp: valid_def host_ok_def is_directive_def)
    have "hostfile c' = Some (take 127 (v @ [LF]))" using c' that by auto
    then show ?thesis using read_line_written [OF v] v
      by (simp add: p_stored_def p_get_def hostname_get_def Let_def strlcpy_def host_ok_def)
  qed
  show ?thesis using other same other_frame(4,5) [of c' c] eq assms(1) by auto
qed

lemma env_write:
  assumes "wf_camera c" "s = Wifi_ssid \<and> name = ssid_var \<or> s = Wifi_psk \<and> name = psk_var" "p_set s v c = (b, c')"
  shows "wf_camera c' \<and> settable t c' = settable t c \<and> (t \<noteq> s \<longrightarrow> p_stored t c' = p_stored t c) \<and>
    (b \<longrightarrow> p_stored s c' = (if v = [] then None else Some v))"
proof -
  have set: "env_set name v c = (b, c')" using assms(2,3) by (auto simp: p_set_def)
  obtain ran c1 where o1: "outcome c = (ran, c1)" by force
  then obtain x1 where c1: "c1 = c\<lparr>io := x1\<rparr>" using outcome_io by blast
  obtain landed c2 where o2: "outcome c1 = (landed, c2)" by force
  then obtain x2 where c2: "c2 = c1\<lparr>io := x2\<rparr>" using outcome_io by blast
  have eq: "stanzas c' = stanzas c \<and> fw_ok c' = fw_ok c \<and> kname c' = kname c \<and> hostfile c' = hostfile c \<and>
      (\<forall>n. n \<noteq> name \<longrightarrow> fwenv c' n = fwenv c n)"
    using set o1 o2 by (auto simp: env_set_def c1 c2 Let_def split: if_splits)
  have wl: "fwenv c' ''wlandev'' = fwenv c ''wlandev''" using eq assms(2) by auto
  have other: "p_stored t c' = p_stored t c" if "t \<noteq> s"
  proof (cases t rule: store_cases)
    case host
    then show ?thesis using eq by (simp add: p_stored_def p_get_def hostname_get_def Let_def)
  next
    case (env n)
    then have "n \<noteq> name" using assms(2) that by auto
    then show ?thesis using env eq by (auto simp: p_stored_def p_get_def env_get_def)
  qed (use eq wl other_frame [of c' c] in auto)
  have "b \<longrightarrow> env_get name RCD_VAL_MAX c' = (if v = [] then None else Some v)"
    using set o1 o2 by (auto simp: env_set_def Let_def split: if_splits)
  then have same: "b \<longrightarrow> p_stored s c' = (if v = [] then None else Some v)"
    using assms(2) by (auto simp: p_stored_def p_get_def)
  show ?thesis using other same other_frame(4,5) [of c' c] eq wl assms(1) by auto
qed

lemma stored_part_simps [simp]:
  "stored_part (c\<lparr>radio_up := r\<rparr>) = stored_part c" "stored_part (c\<lparr>enacts := es\<rparr>) = stored_part c"
  "stored_part (c\<lparr>hostsfile := h\<rparr>) = stored_part c" "stored_part (c\<lparr>io := x\<rparr>) = stored_part c"
  by (simp_all add: stored_part_def)

lemma outcome_stored: "outcome c = (b, c') \<Longrightarrow> stored_part c' = stored_part c"
  using outcome_io by fastforce

lemma hosts_rename_stored: "stored_part (hosts_rename name c) = stored_part c"
  by (auto simp: hosts_rename_def split: option.splits prod.splits dest: outcome_stored)

lemma write_resolv_stored: "stored_part (write_resolv c) = stored_part c"
  by (auto simp: write_resolv_def outcome_def stored_part_def split: option.splits list.splits)

lemma net_enact_stored: "net_enact c = (b, c') \<Longrightarrow> stored_part c' = stored_part c"
proof -
  assume r: "net_enact c = (b, c')"
  obtain up c1 where o: "outcome c = (up, c1)" by force
  define c2 where "c2 = (if up then c1\<lparr>net_up := stanzas c1 (rcd_net_iface c1)\<rparr> else c1)"
  have "c' = (write_resolv c2)\<lparr>enacts := enacts (write_resolv c2) @ [(Enact_net, up)]\<rparr>"
    using r o by (auto simp: net_enact_def c2_def Let_def)
  then have "stored_part c' = stored_part c2" by (simp add: write_resolv_stored)
  also have "\<dots> = stored_part c1" by (simp add: c2_def stored_part_def)
  also have "\<dots> = stored_part c" using outcome_stored [OF o] .
  finally show ?thesis .
qed

lemma wifi_enact_stored: "wifi_enact c = (b, c') \<Longrightarrow> stored_part c' = stored_part c"
proof -
  assume r: "wifi_enact c = (b, c')"
  obtain b0 c0 where o0: "outcome c = (b0, c0)" by force
  obtain gen c1 where o1: "outcome c0 = (gen, c1)" by force
  obtain b2 c2 where o2: "outcome c1 = (b2, c2)" by force
  obtain b3 c3 where o3: "outcome c2 = (b3, c3)" by force
  note eqs = outcome_stored [OF o0] outcome_stored [OF o1] outcome_stored [OF o2] outcome_stored [OF o3]
  have "stored_part c' = stored_part c2 \<or> stored_part c' = stored_part c3"
    using r by (auto simp: wifi_enact_def o0 o1 o2 o3 Let_def split: if_splits)
  then show ?thesis using eqs by argo
qed

lemma hostname_enact_effect:
  assumes "hostname_enact c = (b, c')" "wf_camera c"
  shows "wf_camera c' \<and> settable t c' = settable t c \<and> p_stored t c' = p_stored t c"
proof -
  define name where "name = read_line (hostfile c) 128"
  have ok: "host_ok name" by (simp add: name_def read_line_ok)
  obtain ok2 c2 where o: "outcome (hosts_rename name c) = (ok2, c2)" by force
  have c2: "stored_part c2 = stored_part c" using outcome_stored [OF o] by (simp add: hosts_rename_stored)
  have c': "stored_part c' = stored_part c \<or> name \<noteq> [] \<and> stored_part c' = stored_part (c2\<lparr>kname := name\<rparr>)"
    using assms(1) o c2
    by (auto simp: hostname_enact_def name_def [symmetric] Let_def split: if_splits)
  have eq: "stanzas c' = stanzas c" "hostfile c' = hostfile c" "fwenv c' = fwenv c" "fw_ok c' = fw_ok c"
      "kname c' = kname c \<or> name \<noteq> [] \<and> kname c' = name"
    using c' c2 by (auto simp: stored_part_def)
  have i: "rcd_net_iface c' = rcd_net_iface c" by (rule iface_same) (simp_all add: eq)
  have wf: "wf_camera c'" using assms(2) eq(5) ok by (auto simp: wf_camera_def host_ok_def eq(1) i)
  have "p_stored t c' = p_stored t c"
  proof (cases t rule: store_cases)
    case host
    then show ?thesis using eq(2,5) by (auto simp: p_stored_def p_get_def hostname_get_def name_def Let_def)
  next
    case (env n)
    then show ?thesis using eq by (auto simp: p_stored_def p_get_def env_get_def)
  qed (use other_frame(2,3) [of c' c] eq(1,3,4) in simp_all)
  then show ?thesis using wf other_frame(4) [of c' c] eq(1,3,4) by simp
qed

lemma enact_stored:
  assumes "run_enact e c = (b, c')" "wf_camera c"
  shows "wf_camera c' \<and> settable t c' = settable t c \<and> p_stored t c' = p_stored t c"
  using assms net_enact_stored wifi_enact_stored hostname_enact_effect stored_part_same [of c' c]
  by (cases e) (auto simp: run_enact_def)

lemma p_set_effect:
  assumes "wf_camera c" "v = [] \<or> valid s v" "p_set s v c = (b, c')"
  shows "wf_camera c' \<and> settable t c' = settable t c \<and> (t \<noteq> s \<longrightarrow> p_stored t c' = p_stored t c) \<and>
    (b \<longrightarrow> v \<noteq> [] \<longrightarrow> settable s c \<longrightarrow> p_stored s c' = Some v) \<and>
    (b \<longrightarrow> v = [] \<longrightarrow> s \<noteq> Net_dhcp \<longrightarrow> p_stored s c' = None)"
proof (cases s rule: store_cases)
  case directive
  then show ?thesis using directive_write [OF directive assms] by simp
next
  case dhcp
  then show ?thesis using dhcp_write [of c v b c' t] assms by simp
next
  case host
  then show ?thesis using host_write [of c v b c' t] assms by auto
next
  case (env name)
  then show ?thesis using env_write [OF assms(1) env assms(3), of t] by auto
qed

interpretation cam: key_stores p_stored p_set run_enact wf_camera settable valid "\<lambda>s. s = Net_dhcp"
proof
  show "settable s c \<and> valid s v \<and> v \<noteq> [] \<and> length v < RCD_VAL_MAX" if "wf_camera c" "p_stored s c = Some v" for c s v
    using stored_read_fits that .
  show "wf_camera c' \<and> settable t c' = settable t c \<and> (t \<noteq> s \<longrightarrow> p_stored t c' = p_stored t c)"
    if "wf_camera c" "v = [] \<or> valid s v" "p_set s v c = (b, c')" for c v s b c' t
    using p_set_effect [OF that] by blast
  show "p_stored s c' = Some v"
    if "wf_camera c" "valid s v" "v \<noteq> []" "settable s c" "p_set s v c = (True, c')" for c s v c'
    using p_set_effect [OF that(1) _ that(5)] that by blast
  show "p_stored s c' = None" if "wf_camera c" "s \<noteq> Net_dhcp" "p_set s [] c = (True, c')" for c s c'
    using p_set_effect [OF that(1) _ that(3)] that by blast
  show "p_stored s c \<noteq> None" if "wf_camera c" "s = Net_dhcp" "settable s c" for c s
    using dhcp_get_lines [OF that(1)] that
    by (auto simp: p_stored_def p_get_def settable_def is_directive_def parses_iface_method)
  show "wf_camera c' \<and> settable t c' = settable t c \<and> p_stored t c' = p_stored t c"
    if "wf_camera c" "run_enact e c = (b, c')" for c e b c' t
    using enact_stored [OF that(2,1)] .
qed

subsection \<open>The size of a rewritten file\<close>

lemma length_join_lines: "length (join_lines ls) = (\<Sum>l\<leftarrow>ls. Suc (length l))"
  by (induction ls) simp_all

lemma length_split_lines: "(\<Sum>l\<leftarrow>split_lines t. Suc (length l)) = Suc (length t)"
  by (induction t) (auto split: list.splits)

lemma length_strtok_lines: "length (join_lines (strtok_lines t)) \<le> Suc (length t)"
proof -
  have "(\<Sum>l\<leftarrow>strtok_lines t. Suc (length l)) \<le> (\<Sum>l\<leftarrow>split_lines t. Suc (length l))"
    unfolding strtok_lines_def by (rule sum_list_filter_le_nat)
  then show ?thesis by (simp add: length_join_lines length_split_lines)
qed

lemma length_stanza_rewrite:
  "length (join_lines (stanza_rewrite name v w i p ls)) \<le>
     length (join_lines ls) + (if w then 0 else Suc (length (directive_line name v)))"
proof (induction ls arbitrary: w i p)
  case (Cons l ls)
  show ?case
    using Cons.IH [of True False True] Cons.IH [of True i p] Cons.IH [of w "\<not> p" p] Cons.IH [of w i p]
    by (auto simp: stanza_rewrite.simps Let_def split: if_splits)
qed (simp add: stanza_rewrite.simps)

lemma scan_word_length: "scan_word m s = Some (w, r) \<Longrightarrow> length w \<le> m"
  by (auto simp: scan_word_def Let_def split: if_splits)

lemma length_method_rewrite:
  "method_rewrite m ls = Some ls' \<Longrightarrow> length (join_lines ls') \<le> length (join_lines ls) + 49 + length m"
proof (induction ls arbitrary: ls')
  case (Cons l ls)
  show ?case
  proof (cases "method_rewrite m (l # ls) = map_option (Cons l) (method_rewrite m ls)")
    case True
    then obtain ms where "method_rewrite m ls = Some ms" "ls' = l # ms" using Cons.prems by (cases "method_rewrite m ls") (auto simp: map_option_eq_Some)
    then show ?thesis using Cons.IH by simp
  next
    case False
    obtain w rest where wr: "first_word l = (w, rest)" by (cases "first_word l")
    obtain n f x where it: "w = ''iface''" "iface_words rest = Some (n, f, x)"
      using False wr by (auto simp: method_rewrite.simps split: if_splits option.splits)
    have "length ''iface'' \<le> length l"
      using wr it(1) length_dropWhile_le [of isblank l] length_takeWhile_le [of "\<lambda>x. \<not> isblank x \<and> x \<noteq> LF" "dropWhile isblank l"]
      by (auto simp: first_word_def Let_def dest!: arg_cong [where f = length])
    moreover have "length n \<le> 31" "length f \<le> 15"
      using it(2) by (auto simp: iface_words_def scan_word_length split: option.splits)
    ultimately show ?thesis using Cons.prems wr it by (auto simp: iface_line_def method_rewrite.simps)
  qed
qed (simp add: method_rewrite.simps)

text \<open>
  C38. The two rewriters of the interface file print into a buffer they never measure again: the
  text plus 256 bytes for a directive, plus 64 for the method. For the directives they own, a
  value that fits the daemon's value buffer and the two methods they write, what they print and
  its terminator fit, whatever the file holds.
\<close>

theorem rewrites_fit_their_buffers:
  assumes "is_owned name" and "length val < RCD_VAL_MAX" and "method \<in> {''dhcp'', ''static''}"
  shows "length (join_lines (stanza_rewrite name val False False False (strtok_lines t))) < length t + 256 \<and>
    length (join_lines (case method_rewrite method (strtok_lines t) of None \<Rightarrow> strtok_lines t | Some ls \<Rightarrow> ls))
      < length t + 64"
proof -
  have "length name \<le> 14" using assms(1) by (auto simp: is_owned_def owned_def)
  then have "length (join_lines (stanza_rewrite name val False False False (strtok_lines t))) < length t + 256"
    using length_stanza_rewrite [of name val False False False "strtok_lines t"] length_strtok_lines [of t] assms(2)
    by (simp add: directive_line_def)
  moreover have "length (join_lines ls) < length t + 64" if "method_rewrite method (strtok_lines t) = Some ls" for ls
    using length_method_rewrite [OF that] length_strtok_lines [of t] assms(3) by auto
  ultimately show ?thesis using length_strtok_lines [of t] by (auto split: option.splits)
qed

theorem rewrites_fit_their_buffers_witness:
  "length (join_lines (stanza_rewrite ''address'' ''10.0.0.9'' False False False (strtok_lines ''iface eth0 inet dhcp''))) < 276"
  using rewrites_fit_their_buffers [of "''address''" "''10.0.0.9''" "''dhcp''" "''iface eth0 inet dhcp''"]
  by (simp add: is_owned_def owned_def)
end
