(* ===== verification/Rcd_Guard.thy ===== *)
theory Rcd_Guard
  imports Rcd_Store_Laws
begin

text \<open>
  Confirm-or-revert, \<^verbatim>\<open>rcd/rcd_guard.c\<close>, with the drift record of \<^verbatim>\<open>rcd/rcd_config.c\<close> and the two
  commands that drive it: the provider branch of \<^verbatim>\<open>set\<close> and the system half of \<^verbatim>\<open>apply\<close>. The
  provider table is a record of functions, as it is in C, over a system state \<open>'c\<close>. The guard's
  three files are kept as what \<^verbatim>\<open>cJSON\<close> prints and parses: the record on flash, the deadline and
  the drift list on the tmpfs. Whether a file could be written (or the record removed) comes
  from the list \<open>fio\<close>; an exhausted list means success. Clocks are arguments.
\<close>

record 'c ops =
  o_get :: "store \<Rightarrow> 'c \<Rightarrow> string option"
  o_stored :: "store \<Rightarrow> 'c \<Rightarrow> string option"
  o_set :: "store \<Rightarrow> string \<Rightarrow> 'c \<Rightarrow> bool \<times> 'c"
  o_enact :: "enact \<Rightarrow> 'c \<Rightarrow> bool \<times> 'c"

definition camera_ops :: "camera ops" where
  "camera_ops = \<lparr>o_get = p_get, o_stored = p_stored, o_set = p_set, o_enact = run_enact\<rparr>"

record rcd_guard_snap =
  g_section :: string
  g_key :: string
  prev :: string
  had :: bool
  owed_enact :: bool

text \<open>What the record on flash says of one key: its name, and the value it had, if it had one.\<close>

type_synonym record_item = "string \<times> string \<times> string option"

datatype record_text = Unreadable | Record bool int "record_item list"

record 'c rcd =
  stale :: "(string \<times> string) list"
  stale_daemon :: "rcd_daemon \<Rightarrow> bool"
  guard :: "rcd_guard_snap list"
  guard_deadline_ms :: nat
  guard_window_sec :: int
  guard_wifi_moved :: bool
  guard_wifi_ask_ms :: nat
  guard_retries :: nat
  record_file :: "record_text option"
  armed_file :: "(nat \<times> int) option"
  stale_file :: "((string \<times> string) list) option"
  fio :: "bool list"
  cam :: 'c

abbreviation RCD_GUARD_MAX :: nat where "RCD_GUARD_MAX \<equiv> 12"
abbreviation RCD_STALE_MAX :: nat where "RCD_STALE_MAX \<equiv> 64"
abbreviation RCD_GUARD_RETRY_MS :: nat where "RCD_GUARD_RETRY_MS \<equiv> 15000"
abbreviation RCD_GUARD_RETRIES :: nat where "RCD_GUARD_RETRIES \<equiv> 4"
abbreviation RCD_GUARD_WIFI_DWELL_SEC :: nat where "RCD_GUARD_WIFI_DWELL_SEC \<equiv> 30"
abbreviation RCD_GUARD_WIFI_POLL_MS :: nat where "RCD_GUARD_WIFI_POLL_MS \<equiv> 5000"

definition file_outcome :: "'c rcd \<Rightarrow> bool \<times> 'c rcd" where
  "file_outcome st = (case fio st of [] \<Rightarrow> (True, st) | b # bs \<Rightarrow> (b, st\<lparr>fio := bs\<rparr>))"

subsection \<open>Drift\<close>

definition rcd_stale_add :: "string \<Rightarrow> string \<Rightarrow> rcd_daemon \<Rightarrow> 'c rcd \<Rightarrow> 'c rcd" where
  "rcd_stale_add sec key owner st =
     (let st1 = (if owner \<noteq> RCD_D_COUNT then st\<lparr>stale_daemon := (stale_daemon st)(owner := True)\<rparr> else st)
      in if (sec, key) \<in> set (stale st1) \<or> RCD_STALE_MAX \<le> length (stale st1) then st1
         else st1\<lparr>stale := stale st1 @ [(strlcpy RCD_SECT_MAX sec, strlcpy RCD_KEY_MAX key)]\<rparr>)"

definition rcd_stale_forget :: "string \<Rightarrow> string \<Rightarrow> 'c rcd \<Rightarrow> 'c rcd" where
  "rcd_stale_forget sec key st = st\<lparr>stale := filter (\<lambda>r. r \<noteq> (sec, key)) (stale st)\<rparr>"

definition rcd_stale_save :: "'c rcd \<Rightarrow> 'c rcd" where
  "rcd_stale_save st =
     (if stale st = [] then st\<lparr>stale_file := None\<rparr>
      else let (ok, st1) = file_outcome st in if ok then st1\<lparr>stale_file := Some (stale st)\<rparr> else st1)"

definition rcd_stale_load :: "'c rcd \<Rightarrow> 'c rcd" where
  "rcd_stale_load st = (case stale_file st of None \<Rightarrow> st
     | Some refs \<Rightarrow> fold (\<lambda>(s, k) st. if rcd_key_find s k = None then st else rcd_stale_add s k (rcd_section_owner s) st) refs st)"

subsection \<open>The record and the deadline\<close>

definition record_item_of :: "rcd_guard_snap \<Rightarrow> record_item" where
  "record_item_of s = (g_section s, g_key s, if had s then Some (prev s) else None)"

definition record_write :: "'c rcd \<Rightarrow> 'c rcd" where
  "record_write st = (let (ok, st1) = file_outcome st
     in if ok then st1\<lparr>record_file := Some (Record (guard_deadline_ms st \<noteq> 0) (guard_window_sec st)
                                             (map record_item_of (guard st)))\<rparr>
        else st1)"

definition record_clear :: "'c rcd \<Rightarrow> 'c rcd" where
  "record_clear st = (let (ok, st1) = file_outcome st
     in (if ok then st1\<lparr>record_file := None\<rparr> else st1)\<lparr>armed_file := None\<rparr>)"

definition armed_write :: "'c rcd \<Rightarrow> 'c rcd" where
  "armed_write st = (let (ok, st1) = file_outcome st
     in if ok then st1\<lparr>armed_file := Some (guard_deadline_ms st, guard_window_sec st)\<rparr> else st1)"

subsection \<open>Arming\<close>

definition key_store :: "rcd_key \<Rightarrow> store option" where
  "key_store k = (case k_provider k of Some (P_store s) \<Rightarrow> Some s | _ \<Rightarrow> None)"

definition store_of :: "string \<Rightarrow> string \<Rightarrow> store option" where
  "store_of sec key = (case rcd_key_find sec key of None \<Rightarrow> None | Some k \<Rightarrow> key_store k)"

definition guard_get :: "'c ops \<Rightarrow> store \<Rightarrow> 'c \<Rightarrow> string option" where
  "guard_get ops s c = o_stored ops s c"

definition snap_of :: "rcd_key \<Rightarrow> string option \<Rightarrow> rcd_guard_snap" where
  "snap_of k v = \<lparr>g_section = strlcpy RCD_SECT_MAX (k_section k), g_key = strlcpy RCD_KEY_MAX (k_key k),
     prev = (case v of Some x \<Rightarrow> x | None \<Rightarrow> []), had = (v \<noteq> None), owed_enact = False\<rparr>"

fun snapshot_keys :: "'c ops \<Rightarrow> 'c \<Rightarrow> rcd_guard_snap list \<Rightarrow> rcd_key list \<Rightarrow> rcd_guard_snap list" where
  "snapshot_keys ops c acc [] = acc"
| "snapshot_keys ops c acc (k # ks) =
     (case key_store k of
        None \<Rightarrow> snapshot_keys ops c acc ks
      | Some s \<Rightarrow>
          (if guard_sec k = 0 then snapshot_keys ops c acc ks
           else if RCD_GUARD_MAX \<le> length acc then acc
           else snapshot_keys ops c (acc @ [snap_of k (guard_get ops s c)]) ks))"

definition snapshot :: "'c ops \<Rightarrow> 'c rcd \<Rightarrow> 'c rcd" where
  "snapshot ops st = st\<lparr>guard := snapshot_keys ops (cam st) [] keys\<rparr>"

definition rcd_guard_hold :: "'c ops \<Rightarrow> 'c rcd \<Rightarrow> 'c rcd" where
  "rcd_guard_hold ops st = (if guard st \<noteq> [] then st else record_write (snapshot ops st))"

definition was_value :: "rcd_guard_snap \<Rightarrow> string option" where
  "was_value s = (if had s then Some (prev s) else None)"

definition wifi_moved :: "'c ops \<Rightarrow> 'c rcd \<Rightarrow> bool" where
  "wifi_moved ops st = list_ex (\<lambda>s. g_section s = ''wifi'' \<and>
     (case store_of (g_section s) (g_key s) of None \<Rightarrow> False
      | Some sto \<Rightarrow> guard_get ops sto (cam st) \<noteq> was_value s)) (guard st)"

definition rcd_guard_arm :: "'c ops \<Rightarrow> nat \<Rightarrow> nat \<Rightarrow> nat \<Rightarrow> 'c rcd \<Rightarrow> 'c rcd" where
  "rcd_guard_arm ops now now2 window_sec st =
     (if window_sec = 0 then st
      else let st1 = (if guard st = [] then snapshot ops st else st);
               extend = (guard_deadline_ms st1 \<noteq> 0);
               st2 = st1\<lparr>guard_retries := 0, guard_window_sec := int window_sec,
                         guard_deadline_ms := now + window_sec * 1000\<rparr>;
               st3 = st2\<lparr>guard_wifi_moved := (extend \<and> guard_wifi_moved st2) \<or> wifi_moved ops st2,
                         guard_wifi_ask_ms := now2 + RCD_GUARD_WIFI_DWELL_SEC * 1000\<rparr>
           in armed_write (record_write st3))"

definition rcd_guard_held :: "'c rcd \<Rightarrow> bool" where
  "rcd_guard_held st \<longleftrightarrow> guard st \<noteq> []"

definition rcd_guard_remaining :: "nat \<Rightarrow> 'c rcd \<Rightarrow> nat" where
  "rcd_guard_remaining now st =
     (if guard_deadline_ms st = 0 then 0
      else if guard_deadline_ms st \<le> now then 0
      else (guard_deadline_ms st - now + 999) div 1000)"

definition rcd_guard_report :: "nat \<Rightarrow> 'c rcd \<Rightarrow> (nat \<times> int \<times> (string \<times> string) list) option" where
  "rcd_guard_report now st =
     (if guard_deadline_ms st = 0 then None
      else Some (rcd_guard_remaining now st, guard_window_sec st, map (\<lambda>s. (g_section s, g_key s)) (guard st)))"

subsection \<open>Disarming, both ways\<close>

definition rcd_guard_confirm :: "'c rcd \<Rightarrow> 'c rcd" where
  "rcd_guard_confirm st =
     (if guard_deadline_ms st = 0 then st
      else record_clear (st\<lparr>guard_deadline_ms := 0, guard_window_sec := 0, guard := [], guard_retries := 0,
                            guard_wifi_moved := False, guard_wifi_ask_ms := 0\<rparr>))"

definition add_enact :: "enact list \<Rightarrow> enact \<Rightarrow> bool \<Rightarrow> enact list" where
  "add_enact lst e was_armed =
     (if \<not> was_armed \<or> RCD_GUARD_MAX \<le> length lst \<or> e \<in> set lst then lst else lst @ [e])"

definition guard_retry :: "nat \<Rightarrow> 'c rcd \<Rightarrow> 'c rcd" where
  "guard_retry now st =
     (let st1 = rcd_stale_save st
      in if guard_retries st1 < RCD_GUARD_RETRIES then
           armed_write (st1\<lparr>guard_retries := guard_retries st1 + 1, guard_deadline_ms := now + RCD_GUARD_RETRY_MS\<rparr>)
         else st1\<lparr>guard_deadline_ms := 0, guard_window_sec := 0, guard := [], guard_retries := 0, armed_file := None\<rparr>)"

text \<open>One key of the snapshot: the key as it is left, the state, the enacts collected, the failures.\<close>

definition revert_key ::
  "'c ops \<Rightarrow> bool \<Rightarrow> rcd_guard_snap \<Rightarrow> 'c rcd \<Rightarrow> enact list \<Rightarrow> nat \<Rightarrow> rcd_guard_snap \<times> 'c rcd \<times> enact list \<times> nat" where
  "revert_key ops was_armed s st enacted failed =
     (case store_of (g_section s) (g_key s) of
        None \<Rightarrow> (s, st, enacted, failed)
      | Some sto \<Rightarrow>
          (let cur = guard_get ops sto (cam st);
               settled = rcd_stale_forget (g_section s) (g_key s)
           in if cur = was_value s then
                (s, settled st, if owed_enact s then add_enact enacted (enact_of sto) was_armed else enacted, failed)
              else
                let (ok, c') = o_set ops sto (if had s then prev s else []) (cam st); st1 = st\<lparr>cam := c'\<rparr>
                in if \<not> ok then (s, st1, enacted, failed + 1)
                   else (s\<lparr>owed_enact := True\<rparr>, settled st1, add_enact enacted (enact_of sto) was_armed, failed)))"

fun revert_keys ::
  "'c ops \<Rightarrow> bool \<Rightarrow> rcd_guard_snap list \<Rightarrow> rcd_guard_snap list \<Rightarrow> 'c rcd \<Rightarrow> enact list \<Rightarrow> nat \<Rightarrow>
     rcd_guard_snap list \<times> 'c rcd \<times> enact list \<times> nat" where
  "revert_keys ops was_armed acc [] st enacted failed = (acc, st, enacted, failed)"
| "revert_keys ops was_armed acc (s # ss) st enacted failed =
     (let (s', st', enacted', failed') = revert_key ops was_armed s st enacted failed
      in revert_keys ops was_armed (acc @ [s']) ss st' enacted' failed')"

text \<open>A successful enact settles every key of its store.\<close>

definition settle :: "enact \<Rightarrow> rcd_guard_snap \<Rightarrow> rcd_guard_snap" where
  "settle e s = (case store_of (g_section s) (g_key s) of
     Some sto \<Rightarrow> if enact_of sto = e then s\<lparr>owed_enact := False\<rparr> else s
   | None \<Rightarrow> s)"

fun run_enacts :: "'c ops \<Rightarrow> enact list \<Rightarrow> 'c rcd \<Rightarrow> nat \<Rightarrow> 'c rcd \<times> nat" where
  "run_enacts ops [] st failed = (st, failed)"
| "run_enacts ops (e # es) st failed =
     (let (ok, c') = o_enact ops e (cam st); st1 = st\<lparr>cam := c'\<rparr>
      in if \<not> ok then run_enacts ops es st1 (failed + 1)
         else run_enacts ops es (st1\<lparr>guard := map (settle e) (guard st1)\<rparr>) failed)"

definition rcd_guard_revert :: "'c ops \<Rightarrow> nat \<Rightarrow> 'c rcd \<Rightarrow> 'c rcd" where
  "rcd_guard_revert ops now st =
     (if guard_deadline_ms st = 0 \<and> guard st = [] then st
      else
        let was_armed = (guard_deadline_ms st \<noteq> 0);
            (ss, st1, enacted, failed) = revert_keys ops was_armed [] (guard st) st [] 0;
            (st2, failed2) = run_enacts ops enacted (st1\<lparr>guard := ss\<rparr>) failed
        in if failed2 \<noteq> 0 then guard_retry now st2
           else rcd_stale_save (record_clear (st2\<lparr>guard_deadline_ms := 0, guard_window_sec := 0, guard := [],
                                                   guard_retries := 0\<rparr>)))"

text \<open>The tick; \<open>settled\<close> is what \<^verbatim>\<open>rcd_wifi_settled\<close> answers, \<open>now2\<close> the clock a failed revert reads.\<close>

definition rcd_guard_tick :: "'c ops \<Rightarrow> bool \<Rightarrow> nat \<Rightarrow> nat \<Rightarrow> 'c rcd \<Rightarrow> 'c rcd" where
  "rcd_guard_tick ops settled now now2 st =
     (if guard_deadline_ms st = 0 then st
      else
        let ask = (guard_wifi_moved st \<and> guard_wifi_ask_ms st \<noteq> 0 \<and> guard_wifi_ask_ms st \<le> now);
            st1 = (if ask then st\<lparr>guard_wifi_ask_ms := now + RCD_GUARD_WIFI_POLL_MS\<rparr> else st)
        in if ask \<and> settled then rcd_guard_confirm st1
           else if now < guard_deadline_ms st1 then st1
           else rcd_guard_revert ops now2 st1)"

subsection \<open>Startup\<close>

definition armed_read :: "'c rcd \<Rightarrow> nat \<times> int" where
  "armed_read st = (case armed_file st of None \<Rightarrow> (0, 0) | Some (d, w) \<Rightarrow> (d, w))"

fun load_items :: "rcd_guard_snap list \<Rightarrow> record_item list \<Rightarrow> rcd_guard_snap list" where
  "load_items acc [] = acc"
| "load_items acc ((sec, key, v) # is) =
     (if rcd_key_find sec key = None then load_items acc is
      else if RCD_GUARD_MAX \<le> length acc then acc
      else load_items (acc @ [\<lparr>g_section = strlcpy RCD_SECT_MAX sec, g_key = strlcpy RCD_KEY_MAX key,
             prev = (case v of Some x \<Rightarrow> strlcpy RCD_VAL_MAX x | None \<Rightarrow> []), had = (v \<noteq> None), owed_enact = False\<rparr>]) is)"

definition rcd_guard_load :: "'c ops \<Rightarrow> nat \<Rightarrow> 'c rcd \<Rightarrow> 'c rcd" where
  "rcd_guard_load ops now st = (case record_file st of
     None \<Rightarrow> st
   | Some Unreadable \<Rightarrow> record_clear st
   | Some (Record was_armed win is) \<Rightarrow>
       (let st1 = st\<lparr>guard := load_items [] is\<rparr>
        in if \<not> was_armed then st1
           else
             let (deadline, marker_win) = armed_read st1;
                 win_sec = (if 0 < marker_win then marker_win else win);
                 st2 = st1\<lparr>guard_window_sec := if 0 < win_sec then win_sec else int RCD_GUARD_NAME_SEC\<rparr>
             in if deadline = 0 then rcd_guard_revert ops now st2
                else let st3 = st2\<lparr>guard_deadline_ms := deadline\<rparr>
                     in if deadline \<le> now then rcd_guard_revert ops now st3 else st3))"

text \<open>A restart of the daemon loses its memory; a reboot loses the tmpfs as well.\<close>

definition fresh :: "'c rcd \<Rightarrow> 'c rcd" where
  "fresh st = st\<lparr>stale := [], stale_daemon := (\<lambda>_. False), guard := [], guard_deadline_ms := 0, guard_window_sec := 0,
     guard_wifi_moved := False, guard_wifi_ask_ms := 0, guard_retries := 0\<rparr>"

definition rcd_start :: "'c ops \<Rightarrow> nat \<Rightarrow> 'c rcd \<Rightarrow> 'c rcd" where
  "rcd_start ops now st = rcd_guard_load ops now (rcd_stale_load (fresh st))"

definition reboot :: "'c rcd \<Rightarrow> 'c rcd" where
  "reboot st = st\<lparr>armed_file := None, stale_file := None\<rparr>"

subsection \<open>The two verbs\<close>

definition rcd_cmd_confirm :: "'c rcd \<Rightarrow> (bool \<times> bool) \<times> 'c rcd" where
  "rcd_cmd_confirm st = ((guard_deadline_ms st \<noteq> 0, False), rcd_guard_confirm st)"

definition rcd_cmd_cancel :: "'c ops \<Rightarrow> nat \<Rightarrow> 'c rcd \<Rightarrow> (bool \<times> bool) \<times> 'c rcd" where
  "rcd_cmd_cancel ops now st =
     (let was = rcd_guard_held st; st1 = rcd_guard_revert ops now st; retrying = (guard_deadline_ms st1 \<noteq> 0)
      in ((was \<and> \<not> retrying, retrying), st1))"

subsection \<open>Setting and applying\<close>

text \<open>
  The provider branch of \<^verbatim>\<open>rcd_cmd_set\<close> for one guarded edit: whether the store took the value,
  and whether the edit is now owed to an apply.
\<close>

definition set_edit :: "'c ops \<Rightarrow> rcd_edit \<Rightarrow> 'c rcd \<Rightarrow> bool \<times> bool \<times> 'c rcd" where
  "set_edit ops e st = (case key_store (e_key e) of
     None \<Rightarrow> (True, False, st)
   | Some sto \<Rightarrow>
       (let st1 = (if 0 < guard_sec (e_key e) then rcd_guard_hold ops st else st);
            prior = o_get ops sto (cam st1);
            (ok, c') = o_set ops sto (if reset e then [] else rendered e) (cam st1);
            st2 = st1\<lparr>cam := c'\<rparr>
        in if \<not> ok then (False, False, st2)
           else let after = o_get ops sto (cam st2)
                in if prior = after then (True, False, st2)
                   else (True, True, rcd_stale_add (k_section (e_key e)) (k_key (e_key e)) RCD_D_COUNT st2)))"

fun set_edits :: "'c ops \<Rightarrow> rcd_edit list \<Rightarrow> nat \<Rightarrow> 'c rcd \<Rightarrow> bool \<times> 'c rcd" where
  "set_edits ops [] saved st = (True, if saved = 0 then st else rcd_stale_save st)"
| "set_edits ops (e # es) saved st =
     (let (ok, staged, st1) = set_edit ops e st
      in if \<not> ok then (False, st1) else set_edits ops es (if staged then saved + 1 else saved) st1)"

definition rcd_enact_owed :: "'c rcd \<Rightarrow> rcd_key list" where
  "rcd_enact_owed st = List.map_filter (\<lambda>(s, k). case rcd_key_find s k of None \<Rightarrow> None
     | Some key \<Rightarrow> if key_store key = None then None else Some key) (stale st)"

definition rcd_enact_done :: "enact list \<Rightarrow> 'c rcd \<Rightarrow> 'c rcd" where
  "rcd_enact_done es st = st\<lparr>stale := filter (\<lambda>(s, k). case store_of s k of
     None \<Rightarrow> True | Some sto \<Rightarrow> enact_of sto \<notin> set es) (stale st)\<rparr>"

fun distinct_enacts :: "enact list \<Rightarrow> rcd_key list \<Rightarrow> enact list" where
  "distinct_enacts acc [] = acc"
| "distinct_enacts acc (k # ks) = (case key_store k of
     None \<Rightarrow> distinct_enacts acc ks
   | Some sto \<Rightarrow> distinct_enacts (if enact_of sto \<in> set acc then acc else acc @ [enact_of sto]) ks)"

fun apply_enacts :: "'c ops \<Rightarrow> enact list \<Rightarrow> enact list \<Rightarrow> 'c rcd \<Rightarrow> enact list \<times> 'c rcd" where
  "apply_enacts ops oks [] st = (oks, st)"
| "apply_enacts ops oks (e # es) st =
     (let (ok, c') = o_enact ops e (cam st)
      in apply_enacts ops (if ok then oks @ [e] else oks) es (st\<lparr>cam := c'\<rparr>))"

definition enact_system :: "'c ops \<Rightarrow> nat \<Rightarrow> nat \<Rightarrow> 'c rcd \<Rightarrow> 'c rcd" where
  "enact_system ops now now2 st =
     (let owed = rcd_enact_owed st
      in if owed = [] then st
         else
           let window = fold max (map guard_sec owed) 0;
               st1 = rcd_guard_arm ops now now2 window st;
               (oks, st2) = apply_enacts ops [] (distinct_enacts [] owed) st1
           in rcd_enact_done oks st2)"

text \<open>An unscoped \<^verbatim>\<open>apply\<close> that has only the camera's own settings to enact.\<close>

definition apply_system :: "'c ops \<Rightarrow> nat \<Rightarrow> nat \<Rightarrow> 'c rcd \<Rightarrow> 'c rcd" where
  "apply_system ops now now2 st =
     (if rcd_enact_owed st = [] then st else rcd_stale_save (enact_system ops now now2 st))"

end
