(* ===== verification/Rcd_Guard_Laws.thy ===== *)
theory Rcd_Guard_Laws
  imports Rcd_Guard
begin

text \<open>
  What the guard promises, over any stores that keep the contract of \<open>key_stores\<close>: a snapshot
  encodes what every guarded store read when it was taken, a revert puts exactly that back or
  keeps the snapshot for another attempt, and what is on flash says the same as what is in
  memory.
\<close>

subsection \<open>The guarded keys\<close>

definition guarded :: "(rcd_key \<times> store) list" where
  "guarded = List.map_filter (\<lambda>k. case key_store k of None \<Rightarrow> None
     | Some s \<Rightarrow> if guard_sec k = 0 then None else Some (k, s)) keys"

definition snap_store :: "rcd_guard_snap \<Rightarrow> store option" where
  "snap_store s = store_of (g_section s) (g_key s)"

lemma guarded_facts:
  "length guarded = 8"
  "map snd guarded = [Hostname, Net_dhcp, Net_address, Net_netmask, Net_gateway, Net_dns, Wifi_ssid, Wifi_psk]"
  "list_all (\<lambda>(k, s). store_of (strlcpy RCD_SECT_MAX (k_section k)) (strlcpy RCD_KEY_MAX (k_key k)) = Some s \<and>
     length (k_section k) < RCD_SECT_MAX \<and> length (k_key k) < RCD_KEY_MAX) guarded"
  by code_simp+

lemma snapshot_keys_eq:
  "length acc + length (List.map_filter (\<lambda>k. case key_store k of None \<Rightarrow> None
     | Some s \<Rightarrow> if guard_sec k = 0 then None else Some (k, s)) ks) \<le> RCD_GUARD_MAX \<Longrightarrow>
   snapshot_keys ops c acc ks = acc @ map (\<lambda>(k, s). snap_of k (guard_get ops s c))
     (List.map_filter (\<lambda>k. case key_store k of None \<Rightarrow> None
        | Some s \<Rightarrow> if guard_sec k = 0 then None else Some (k, s)) ks)"
  by (induction ks arbitrary: acc) (auto simp: List.map_filter_simps split: option.splits)

lemma snapshot_guarded:
  "snapshot_keys ops c [] keys = map (\<lambda>(k, s). snap_of k (guard_get ops s c)) guarded"
  using snapshot_keys_eq [of "[]" keys ops c] guarded_facts(1) by (simp add: guarded_def)

text \<open>A snapshot encodes a reading of the stores: one entry per store, with its name and value.\<close>

definition entry_ok :: "(store \<Rightarrow> string option) \<Rightarrow> rcd_guard_snap \<Rightarrow> bool" where
  "entry_ok base s \<longleftrightarrow> length (g_section s) < RCD_SECT_MAX \<and> length (g_key s) < RCD_KEY_MAX \<and>
     (\<exists>sto. snap_store s = Some sto \<and> was_value s = base sto)"

definition encodes :: "(store \<Rightarrow> string option) \<Rightarrow> rcd_guard_snap list \<Rightarrow> bool" where
  "encodes base ss \<longleftrightarrow> map snap_store ss = map (Some \<circ> snd) guarded \<and> list_all (entry_ok base) ss"

lemma encodes_nonempty: "encodes base ss \<Longrightarrow> ss \<noteq> []"
  using guarded_facts(1) by (auto simp: encodes_def)

lemma encodes_length: "encodes base ss \<Longrightarrow> length ss = 8"
  using guarded_facts(1) by (metis encodes_def length_map)

lemma store_listed: "sto \<in> set (map snd guarded)"
  unfolding guarded_facts(2) by (cases sto) simp_all

lemma encodes_covers: "encodes base ss \<Longrightarrow> \<exists>s \<in> set ss. snap_store s = Some sto"
proof -
  assume "encodes base ss"
  then have "Some sto \<in> set (map snap_store ss)" using store_listed [of sto] by (auto simp: encodes_def)
  then show ?thesis by auto
qed

lemma was_value_snap_of: "was_value (snap_of k v) = v"
  by (cases v) (simp_all add: was_value_def snap_of_def)

lemma encodes_snapshot:
  "encodes (\<lambda>s. guard_get ops s c) (snapshot_keys ops c [] keys)"
proof -
  have ok: "snap_store (snap_of k v) = Some s \<and> length (g_section (snap_of k v)) < RCD_SECT_MAX \<and>
      length (g_key (snap_of k v)) < RCD_KEY_MAX" if "(k, s) \<in> set guarded" for k s v
    using guarded_facts(3) that by (auto simp: list_all_iff snap_store_def snap_of_def strlcpy_def)
  show ?thesis unfolding snapshot_guarded encodes_def
    using ok by (auto simp: list_all_iff entry_ok_def was_value_snap_of)
qed

text \<open>The flags of an entry do not matter to what it encodes.\<close>

lemma snap_owed [simp]:
  "snap_store (s\<lparr>owed_enact := b\<rparr>) = snap_store s" "was_value (s\<lparr>owed_enact := b\<rparr>) = was_value s"
  "entry_ok base (s\<lparr>owed_enact := b\<rparr>) = entry_ok base s" "record_item_of (s\<lparr>owed_enact := b\<rparr>) = record_item_of s"
  by (simp_all add: snap_store_def was_value_def entry_ok_def record_item_of_def)

lemma settle_same [simp]:
  "snap_store (settle e s) = snap_store s" "entry_ok base (settle e s) = entry_ok base s"
  "record_item_of (settle e s) = record_item_of s"
  by (simp_all add: settle_def split: option.splits)

lemma encodes_settle [simp]: "encodes base (map (settle e) ss) = encodes base ss"
  by (simp add: encodes_def list_all_iff comp_def)

text \<open>Written to flash and read back, a snapshot is the same snapshot, its flags cleared.\<close>

lemma strlcpy_id: "length s < m \<Longrightarrow> strlcpy m s = s"
  by (simp add: strlcpy_def)

definition stored_ok :: "(store \<Rightarrow> string option) \<Rightarrow> bool" where
  "stored_ok base \<longleftrightarrow> (\<forall>sto v. base sto = Some v \<longrightarrow> length v < RCD_VAL_MAX)"

lemma load_items_eq:
  assumes "stored_ok base"
  shows "list_all (entry_ok base) ss \<Longrightarrow> length acc + length ss \<le> RCD_GUARD_MAX \<Longrightarrow>
    load_items acc (map record_item_of ss) =
      acc @ map (\<lambda>s. s\<lparr>owed_enact := False, prev := if had s then prev s else []\<rparr>) ss"
proof (induction ss arbitrary: acc)
  case (Cons s ss)
  from Cons.prems(1) obtain sto where s: "length (g_section s) < RCD_SECT_MAX" "length (g_key s) < RCD_KEY_MAX"
      "snap_store s = Some sto" "was_value s = base sto" by (auto simp: entry_ok_def)
  then have found: "rcd_key_find (g_section s) (g_key s) \<noteq> None"
    by (auto simp: snap_store_def store_of_def split: option.splits)
  have val: "had s \<Longrightarrow> length (prev s) < RCD_VAL_MAX" using assms s(4) by (auto simp: was_value_def stored_ok_def)
  have entry: "\<lparr>g_section = strlcpy RCD_SECT_MAX (g_section s), g_key = strlcpy RCD_KEY_MAX (g_key s),
      prev = (case if had s then Some (prev s) else None of Some x \<Rightarrow> strlcpy RCD_VAL_MAX x | None \<Rightarrow> []),
      had = ((if had s then Some (prev s) else None) \<noteq> None), owed_enact = False\<rparr> =
      s\<lparr>owed_enact := False, prev := if had s then prev s else []\<rparr>"
    using s(1,2) val by (simp add: strlcpy_id)
  show ?case using Cons found entry by (simp add: record_item_of_def)
qed simp

lemma encodes_load:
  assumes "stored_ok base" "encodes base ss"
  shows "encodes base (load_items [] (map record_item_of ss))"
proof -
  have "load_items [] (map record_item_of ss) = map (\<lambda>s. s\<lparr>owed_enact := False, prev := if had s then prev s else []\<rparr>) ss"
    using load_items_eq [OF assms(1), of ss "[]"] assms(2) encodes_length [OF assms(2)] by (simp add: encodes_def)
  moreover have "snap_store (s\<lparr>owed_enact := False, prev := p\<rparr>) = snap_store s" for s p by (simp add: snap_store_def)
  moreover have "entry_ok base (s\<lparr>owed_enact := False, prev := if had s then prev s else []\<rparr>) = entry_ok base s" for s
    by (simp add: entry_ok_def snap_store_def was_value_def)
  ultimately show ?thesis using assms(2) by (simp add: encodes_def list_all_iff comp_def)
qed

subsection \<open>Frames\<close>

text \<open>The parts of the state that the bookkeeping of files and drift leaves alone.\<close>

lemma file_outcome_fio: "file_outcome st = (b, st') \<Longrightarrow> \<exists>x. st' = st\<lparr>fio := x\<rparr>"
  by (auto simp: file_outcome_def split: list.splits intro: exI [of _ "fio st"])

definition guard_part :: "'c rcd \<Rightarrow> rcd_guard_snap list \<times> nat \<times> int \<times> nat \<times> 'c" where
  "guard_part st = (guard st, guard_deadline_ms st, guard_window_sec st, guard_retries st, cam st)"

definition flash_ok :: "'c rcd \<Rightarrow> bool" where
  "flash_ok st \<longleftrightarrow> fio st = []"

lemma file_outcome_ok [simp]: "flash_ok st \<Longrightarrow> file_outcome st = (True, st)"
  by (simp add: file_outcome_def flash_ok_def)

lemma stale_frame [simp]:
  "guard_part (rcd_stale_forget a b st) = guard_part st" "guard_part (rcd_stale_add a b d st) = guard_part st"
  "guard_part (rcd_enact_done es st) = guard_part st"
  "record_file (rcd_stale_forget a b st) = record_file st" "record_file (rcd_stale_add a b d st) = record_file st"
  "record_file (rcd_enact_done es st) = record_file st"
  "armed_file (rcd_stale_forget a b st) = armed_file st" "armed_file (rcd_stale_add a b d st) = armed_file st"
  "armed_file (rcd_enact_done es st) = armed_file st"
  "fio (rcd_stale_forget a b st) = fio st" "fio (rcd_stale_add a b d st) = fio st" "fio (rcd_enact_done es st) = fio st"
  by (simp_all add: rcd_stale_forget_def rcd_stale_add_def rcd_enact_done_def guard_part_def Let_def)

lemma stale_save_frame:
  "guard_part (rcd_stale_save st) = guard_part st \<and> record_file (rcd_stale_save st) = record_file st \<and>
   armed_file (rcd_stale_save st) = armed_file st \<and> (flash_ok st \<longrightarrow> flash_ok (rcd_stale_save st))"
  by (auto simp: rcd_stale_save_def guard_part_def flash_ok_def file_outcome_def Let_def split: list.splits)

subsection \<open>Putting a snapshot back\<close>

lemma encodes_distinct: "encodes base ss \<Longrightarrow> distinct (map snap_store ss)"
proof -
  assume "encodes base ss"
  then have "map snap_store ss = map Some (map snd guarded)" by (simp add: encodes_def)
  moreover have "distinct (map Some (map snd guarded))" unfolding guarded_facts(2) by simp
  ultimately show ?thesis by simp
qed

lemma owed_self [simp]: "\<exists>b. s = s\<lparr>owed_enact := b\<rparr>" for s :: rcd_guard_snap
  by (rule exI [of _ "owed_enact s"]) simp

text \<open>Entries that differ in their flag only.\<close>

definition same_entries :: "rcd_guard_snap list \<Rightarrow> rcd_guard_snap list \<Rightarrow> bool" where
  "same_entries ss ss' \<longleftrightarrow> list_all2 (\<lambda>s s'. \<exists>b. s' = s\<lparr>owed_enact := b\<rparr>) ss ss'"

lemma same_entries_encodes: "same_entries ss ss' \<Longrightarrow> encodes base ss' = encodes base ss"
proof -
  assume "same_entries ss ss'"
  then have "map snap_store ss' = map snap_store ss \<and> list_all (entry_ok base) ss' = list_all (entry_ok base) ss"
    unfolding same_entries_def by (induction rule: list_all2_induct) auto
  then show ?thesis by (simp add: encodes_def)
qed

lemma same_entries_items: "same_entries ss ss' \<Longrightarrow> map record_item_of ss' = map record_item_of ss"
  unfolding same_entries_def by (induction rule: list_all2_induct) auto

lemma same_entries_refl [simp]: "same_entries ss ss"
  unfolding same_entries_def
by (rule list_all2_refl) simp

lemma same_entries_trans: "same_entries a b \<Longrightarrow> same_entries b c \<Longrightarrow> same_entries a c"
  unfolding same_entries_def
proof (rule list_all2_trans [of _ _ _ a b c])
  show "\<exists>b. z = x\<lparr>owed_enact := b\<rparr>" if "\<exists>b. y = x\<lparr>owed_enact := b\<rparr>" "\<exists>b. z = y\<lparr>owed_enact := b\<rparr>"
    for x y z :: rcd_guard_snap using that by auto
qed

lemma same_entries_settle: "same_entries ss (map (settle e) ss)"
proof -
  have "\<exists>b. settle e s = s\<lparr>owed_enact := b\<rparr>" for s
    by (cases "settle e s = s") (auto simp: settle_def split: option.splits if_splits intro: exI [of _ "owed_enact s"])
  then show ?thesis by (simp add: same_entries_def list_all2_conv_all_nth)
qed

locale guarded_stores = key_stores rd wr force wf place fits always
  for rd :: "store \<Rightarrow> 'c \<Rightarrow> string option" and wr :: "store \<Rightarrow> string \<Rightarrow> 'c \<Rightarrow> bool \<times> 'c"
    and force :: "enact \<Rightarrow> 'c \<Rightarrow> bool \<times> 'c" and wf :: "'c \<Rightarrow> bool" and place :: "store \<Rightarrow> 'c \<Rightarrow> bool"
    and fits :: "store \<Rightarrow> string \<Rightarrow> bool" and always :: "store \<Rightarrow> bool" +
  fixes ops :: "'c ops"
  assumes ops_simps: "o_stored ops = rd" "o_set ops = wr" "o_enact ops = force"
begin

text \<open>A reading the stores could have given, and can still hold.\<close>

definition can_hold :: "(store \<Rightarrow> string option) \<Rightarrow> 'c \<Rightarrow> bool" where
  "can_hold base c \<longleftrightarrow> wf c \<and>
     (\<forall>sto v. base sto = Some v \<longrightarrow> place sto c \<and> fits sto v \<and> v \<noteq> [] \<and> length v < RCD_VAL_MAX) \<and>
     (\<forall>sto. always sto \<and> place sto c \<longrightarrow> base sto \<noteq> None)"

lemma can_hold_reading: "wf c \<Longrightarrow> can_hold (\<lambda>s. rd s c) c"
  using read_fits always_reads unfolding can_hold_def by blast

lemma can_hold_write:
  "can_hold base c \<Longrightarrow> v = [] \<or> fits s v \<Longrightarrow> wr s v c = (b, c') \<Longrightarrow> can_hold base c'"
proof -
  assume h: "can_hold base c" and v: "v = [] \<or> fits s v" and w: "wr s v c = (b, c')"
  have wf: "wf c" using h by (simp add: can_hold_def)
  have "wf c'" "\<And>t. place t c' = place t c" using write_keeps [OF wf v w] by auto
  then show ?thesis using h by (simp add: can_hold_def)
qed

lemma can_hold_force: "can_hold base c \<Longrightarrow> force e c = (b, c') \<Longrightarrow> can_hold base c'"
proof -
  assume h: "can_hold base c" and f: "force e c = (b, c')"
  have wf: "wf c" using h by (simp add: can_hold_def)
  have "wf c'" "\<And>t. place t c' = place t c" using force_keeps [OF wf f] by auto
  then show ?thesis using h by (simp add: can_hold_def)
qed

lemma can_hold_stored: "can_hold base c \<Longrightarrow> stored_ok base"
  by (auto simp: can_hold_def stored_ok_def)

text \<open>Writing an entry's value back, when it differs, makes the store read as it did.\<close>

lemma put_back:
  assumes h: "can_hold base c" and differs: "rd sto c \<noteq> base sto"
    and w: "wr sto (case base sto of Some v \<Rightarrow> v | None \<Rightarrow> []) c = (ok, c')"
  shows "can_hold base c' \<and> (\<forall>t. t \<noteq> sto \<longrightarrow> rd t c' = rd t c) \<and> (ok \<longrightarrow> rd sto c' = base sto)"
proof (cases "base sto")
  case (Some v)
  then have v: "place sto c" "fits sto v" "v \<noteq> []" "wf c" using h by (auto simp: can_hold_def)
  have w': "wr sto v c = (ok, c')" using w Some by simp
  have "ok \<longrightarrow> rd sto c' = Some v" using write_read [OF v(4,2,3,1)] w' by (cases ok) auto
  then show ?thesis using can_hold_write [OF h _ w'] write_keeps [OF v(4) _ w'] v(2) Some by auto
next
  case None
  have wf: "wf c" using h by (simp add: can_hold_def)
  obtain u where u: "rd sto c = Some u" using differs None by auto
  have "\<not> always sto" using h None read_fits [OF wf u] by (auto simp: can_hold_def)
  moreover have w': "wr sto [] c = (ok, c')" using w None by simp
  ultimately have "ok \<longrightarrow> rd sto c' = None" using write_clear [OF wf, of sto] by (cases ok) auto
  then show ?thesis using can_hold_write [OF h _ w'] write_keeps [OF wf _ w'] None by auto
qed

lemma was_value_written: "(case was_value s of Some v \<Rightarrow> v | None \<Rightarrow> []) = (if had s then prev s else [])"
  by (simp add: was_value_def)

lemma revert_key_effect:
  assumes h: "can_hold base (cam st)" and entry: "entry_ok base s"
    and run: "revert_key ops wa s st en f = (s', st', en', f')"
  shows "can_hold base (cam st')" and "\<forall>t. snap_store s \<noteq> Some t \<longrightarrow> rd t (cam st') = rd t (cam st)"
    and "f \<le> f'" and "f' = f \<longrightarrow> (\<forall>t. snap_store s = Some t \<longrightarrow> rd t (cam st') = base t)"
    and "\<exists>b. s' = s\<lparr>owed_enact := b\<rparr>" and "st' = st\<lparr>cam := cam st', stale := stale st'\<rparr>"
    and "\<not> wa \<longrightarrow> en' = en"
proof -
  obtain sto where sto: "store_of (g_section s) (g_key s) = Some sto" "was_value s = base sto"
    using entry by (auto simp: entry_ok_def snap_store_def)
  have store: "snap_store s = Some sto" by (simp add: snap_store_def sto)
  have "can_hold base (cam st') \<and> (\<forall>t. t \<noteq> sto \<longrightarrow> rd t (cam st') = rd t (cam st)) \<and> f \<le> f' \<and>
      (f' = f \<longrightarrow> rd sto (cam st') = base sto) \<and> (\<exists>b. s' = s\<lparr>owed_enact := b\<rparr>) \<and>
      st' = st\<lparr>cam := cam st', stale := stale st'\<rparr> \<and> (\<not> wa \<longrightarrow> en' = en)"
  proof (cases "rd sto (cam st) = base sto")
    case True
    show ?thesis using run True h
      by (auto simp: revert_key_def sto guard_get_def ops_simps rcd_stale_forget_def add_enact_def Let_def split: if_splits)
  next
    case False
    obtain ok c' where w: "wr sto (if had s then prev s else []) (cam st) = (ok, c')" by force
    have "wr sto (case base sto of Some v \<Rightarrow> v | None \<Rightarrow> []) (cam st) = (ok, c')"
      using w was_value_written [of s] sto(2) by simp
    note restored = put_back [OF h False this]
    show ?thesis using run False restored w
      by (cases ok) (auto simp: revert_key_def sto guard_get_def ops_simps rcd_stale_forget_def add_enact_def Let_def)
  qed
  then show "can_hold base (cam st')" and "\<forall>t. snap_store s \<noteq> Some t \<longrightarrow> rd t (cam st') = rd t (cam st)"
    and "f \<le> f'" and "f' = f \<longrightarrow> (\<forall>t. snap_store s = Some t \<longrightarrow> rd t (cam st') = base t)"
    and "\<exists>b. s' = s\<lparr>owed_enact := b\<rparr>" and "st' = st\<lparr>cam := cam st', stale := stale st'\<rparr>"
    and "\<not> wa \<longrightarrow> en' = en"
    using store by auto
qed

lemma revert_keys_effect:
  assumes "can_hold base (cam st)" "list_all (entry_ok base) ss" "distinct (map snap_store ss)"
    "revert_keys ops wa acc ss st en f = (out, st', en', f')"
  shows "can_hold base (cam st') \<and> f \<le> f' \<and>
    (\<forall>t. Some t \<notin> set (map snap_store ss) \<longrightarrow> rd t (cam st') = rd t (cam st)) \<and>
    (f' = f \<longrightarrow> (\<forall>t. Some t \<in> set (map snap_store ss) \<longrightarrow> rd t (cam st') = base t)) \<and>
    (\<exists>ss'. out = acc @ ss' \<and> same_entries ss ss') \<and> st' = st\<lparr>cam := cam st', stale := stale st'\<rparr> \<and>
    (\<not> wa \<longrightarrow> en' = en)"
  using assms
proof (induction ss arbitrary: acc st en f)
  case Nil
  then show ?case by (auto simp: same_entries_def)
next
  case (Cons s ss)
  obtain s1 st1 en1 f1 where one: "revert_key ops wa s st en f = (s1, st1, en1, f1)" by (metis prod_cases4)
  have entry: "entry_ok base s" and rest: "list_all (entry_ok base) ss" "distinct (map snap_store ss)"
    and new: "snap_store s \<notin> set (map snap_store ss)" using Cons.prems by auto
  note e = revert_key_effect [OF Cons.prems(1) entry one]
  have run: "revert_keys ops wa (acc @ [s1]) ss st1 en1 f1 = (out, st', en', f')"
    using Cons.prems(4) one by simp
  note IH = Cons.IH [OF e(1) rest run]
  obtain ss' where ss': "out = (acc @ [s1]) @ ss'" "same_entries ss ss'" using IH by blast
  have all: "rd t (cam st') = base t" if "f' = f" "Some t \<in> set (map snap_store (s # ss))" for t
  proof -
    have "f1 = f" "f' = f1" using that(1) e(3) IH by auto
    then show ?thesis using that(2) e(4) IH new by auto
  qed
  have others: "rd t (cam st') = rd t (cam st)" if "Some t \<notin> set (map snap_store (s # ss))" for t
    using that e(2) IH by auto
  have frame: "st' = st\<lparr>cam := cam st', stale := stale st'\<rparr>"
  proof -
    have 1: "st' = st1\<lparr>cam := cam st', stale := stale st'\<rparr>" using IH by blast
    have "st1\<lparr>cam := cam st', stale := stale st'\<rparr> = st\<lparr>cam := cam st', stale := stale st'\<rparr>"
      by (subst e(6)) simp
    with 1 show ?thesis by metis
  qed
  have out: "\<exists>ss''. out = acc @ ss'' \<and> same_entries (s # ss) ss''"
    using ss' e(5) by (intro exI [of _ "s1 # ss'"]) (auto simp: same_entries_def)
  show ?case using IH e(3,7) all others frame out by auto
qed

lemma run_enacts_effect:
  assumes "can_hold base (cam st)" "run_enacts ops es st f = (st', f')"
  shows "can_hold base (cam st') \<and> f \<le> f' \<and> (\<forall>t. rd t (cam st') = rd t (cam st)) \<and>
    same_entries (guard st) (guard st') \<and> st' = st\<lparr>cam := cam st', guard := guard st'\<rparr>"
  using assms
proof (induction es arbitrary: st f)
  case (Cons e es)
  obtain ok c' where o: "force e (cam st) = (ok, c')" by force
  define st1 where "st1 = (if ok then (st\<lparr>cam := c'\<rparr>)\<lparr>guard := map (settle e) (guard st)\<rparr> else st\<lparr>cam := c'\<rparr>)"
  have cam1: "cam st1 = c'" by (simp add: st1_def)
  have run: "run_enacts ops es st1 (if ok then f else f + 1) = (st', f')"
    using Cons.prems(2) o by (cases ok) (simp_all add: ops_simps st1_def)
  have wf: "wf (cam st)" using Cons.prems(1) by (simp add: can_hold_def)
  have hold: "can_hold base (cam st1)" unfolding cam1 by (rule can_hold_force [OF Cons.prems(1) o])
  note IH = Cons.IH [OF hold run]
  have g: "same_entries (guard st) (guard st1)" using same_entries_settle by (simp add: st1_def)
  have frame: "st1\<lparr>cam := cam st', guard := guard st'\<rparr> = st\<lparr>cam := cam st', guard := guard st'\<rparr>"
    by (simp add: st1_def)
  have le: "f \<le> f'" using IH by (auto split: if_splits)
  have "\<forall>t. rd t (cam st') = rd t (cam st)" using IH force_keeps [OF wf o] cam1 by auto
  then show ?case using IH le frame same_entries_trans [OF g] by auto
qed simp

text \<open>
  A revert ends in one of three ways: everything reads as the snapshot says and the guard is
  disarmed; something failed and the snapshot is kept for another attempt; or the attempts are
  used up and the record on flash is kept.
\<close>

lemma revert_effect:
  assumes h: "can_hold base (cam st)" and enc: "encodes base (guard st)"
    and st': "st' = rcd_guard_revert ops now st"
  shows "can_hold base (cam st') \<and> (flash_ok st \<longrightarrow> flash_ok st') \<and>
    (guard st' = [] \<and> guard_deadline_ms st' = 0 \<and> armed_file st' = None \<and> guard_retries st' = 0 \<and>
       (flash_ok st \<longrightarrow> record_file st' = None) \<and> (\<forall>sto. rd sto (cam st') = base sto) \<or>
     guard_retries st < RCD_GUARD_RETRIES \<and> encodes base (guard st') \<and> guard_deadline_ms st' = now + RCD_GUARD_RETRY_MS \<and>
       guard_retries st' = guard_retries st + 1 \<and> record_file st' = record_file st \<and>
       map record_item_of (guard st') = map record_item_of (guard st) \<or>
     RCD_GUARD_RETRIES \<le> guard_retries st \<and> guard st' = [] \<and> guard_deadline_ms st' = 0 \<and> armed_file st' = None \<and>
       guard_retries st' = 0 \<and> record_file st' = record_file st)"
proof -
  define wa where "wa \<longleftrightarrow> guard_deadline_ms st \<noteq> 0"
  obtain ss st1 en f1 where keys: "revert_keys ops wa [] (guard st) st [] 0 = (ss, st1, en, f1)" by (metis prod_cases4)
  have entries: "list_all (entry_ok base) (guard st)" using enc by (simp add: encodes_def)
  note k = revert_keys_effect [OF h entries encodes_distinct [OF enc] keys]
  have ss: "same_entries (guard st) ss" using k by auto
  define st1' where "st1' = st1\<lparr>guard := ss\<rparr>"
  obtain st2 f2 where enacts: "run_enacts ops en st1' f1 = (st2, f2)" by force
  have h1: "can_hold base (cam st1')" using k by (simp add: st1'_def)
  note r = run_enacts_effect [OF h1 enacts]
  have gs: "same_entries (guard st) (guard st2)" using r ss same_entries_trans by (auto simp: st1'_def)
  have frame1: "st1' = st\<lparr>cam := cam st1', stale := stale st1', guard := ss\<rparr>"
  proof -
    have "st1 = st\<lparr>cam := cam st1, stale := stale st1\<rparr>" using k by blast
    then have "st1\<lparr>guard := ss\<rparr> = (st\<lparr>cam := cam st1, stale := stale st1\<rparr>)\<lparr>guard := ss\<rparr>" by metis
    then show ?thesis by (simp add: st1'_def)
  qed
  have frame: "guard_retries st2 = guard_retries st" "record_file st2 = record_file st" "fio st2 = fio st"
  proof -
    have 2: "st2 = st1'\<lparr>cam := cam st2, guard := guard st2\<rparr>" using r by blast
    show "guard_retries st2 = guard_retries st" "record_file st2 = record_file st" "fio st2 = fio st"
      by (subst 2, subst frame1, simp)+
  qed
  have def: "st' = (if f2 \<noteq> 0 then guard_retry now st2
      else rcd_stale_save (record_clear (st2\<lparr>guard_deadline_ms := 0, guard_window_sec := 0, guard := [], guard_retries := 0\<rparr>)))"
    using st' encodes_nonempty [OF enc] keys enacts by (simp add: rcd_guard_revert_def wa_def st1'_def)
  show ?thesis
  proof (cases "f2 = 0")
    case True
    define st3 where "st3 = st2\<lparr>guard_deadline_ms := 0, guard_window_sec := 0, guard := [], guard_retries := 0\<rparr>"
    obtain ok st4 where o: "file_outcome st3 = (ok, st4)" by force
    then obtain x where st4: "st4 = st3\<lparr>fio := x\<rparr>" using file_outcome_fio by blast
    have clear: "record_clear st3 = (if ok then st4\<lparr>record_file := None\<rparr> else st4)\<lparr>armed_file := None\<rparr>"
      by (simp add: record_clear_def o)
    have flash: "flash_ok st \<longrightarrow> ok \<and> st4 = st3" using o frame(3) by (auto simp: flash_ok_def st3_def file_outcome_def)
    have e: "st' = rcd_stale_save (record_clear st3)" using def True by (simp add: st3_def)
    note s = stale_save_frame [of "record_clear st3"]
    have reads: "rd sto (cam st2) = base sto" for sto
    proof -
      have "f1 = 0" using True r by simp
      then show ?thesis using k r encodes_covers [OF enc, of sto] by (force simp: st1'_def)
    qed
    have part: "guard_part (record_clear st3) = ([], 0, 0, 0, cam st2)"
      unfolding clear by (simp add: guard_part_def st4 st3_def)
    have "guard st' = [] \<and> guard_deadline_ms st' = 0 \<and> guard_retries st' = 0 \<and> cam st' = cam st2"
      using s part e by (simp add: guard_part_def)
    moreover have "armed_file st' = None" using s e unfolding clear by simp
    moreover have "flash_ok st \<longrightarrow> record_file st' = None \<and> flash_ok st'"
      using s e flash frame(3) unfolding clear by (auto simp: flash_ok_def st3_def)
    ultimately show ?thesis using reads r by auto
  next
    case False
    note s = stale_save_frame [of st2]
    define st5 where "st5 = rcd_stale_save st2"
    have part: "guard st5 = guard st2" "guard_retries st5 = guard_retries st" "cam st5 = cam st2"
      using s frame by (simp_all add: guard_part_def st5_def)
    have rec: "record_file st5 = record_file st" "flash_ok st \<longrightarrow> flash_ok st5"
      using s frame by (auto simp: st5_def flash_ok_def)
    have enc2: "encodes base (guard st2)" using same_entries_encodes [OF gs] enc by simp
    show ?thesis
    proof (cases "guard_retries st < RCD_GUARD_RETRIES")
      case True
      define st6 where "st6 = st5\<lparr>guard_retries := guard_retries st5 + 1, guard_deadline_ms := now + RCD_GUARD_RETRY_MS\<rparr>"
      obtain ok st7 where o: "file_outcome st6 = (ok, st7)" by force
      then obtain x where st7: "st7 = st6\<lparr>fio := x\<rparr>" using file_outcome_fio by blast
      have "guard_retry now st2 = armed_write st6"
        using True part(2) unfolding guard_retry_def Let_def st5_def [symmetric] st6_def [symmetric] by simp
      then have "st' = (if ok then st7\<lparr>armed_file := Some (guard_deadline_ms st6, guard_window_sec st6)\<rparr> else st7)"
        using def False o by (simp add: armed_write_def)
      moreover have "flash_ok st \<longrightarrow> ok \<and> st7 = st6" using o rec(2) by (auto simp: flash_ok_def st6_def file_outcome_def)
      ultimately show ?thesis
        using True part rec r enc2 same_entries_items [OF gs] by (auto simp: st7 st6_def flash_ok_def)
    next
      case no: False
      have "st' = st5\<lparr>guard_deadline_ms := 0, guard_window_sec := 0, guard := [], guard_retries := 0, armed_file := None\<rparr>"
        using def False no part(2) by (simp add: guard_retry_def st5_def [symmetric] Let_def)
      then show ?thesis using no part rec r by (auto simp: flash_ok_def)
    qed
  qed
qed

end

interpretation gcam: guarded_stores p_stored p_set run_enact wf_camera settable valid "\<lambda>s. s = Net_dhcp" camera_ops
  by unfold_locales (simp_all add: camera_ops_def)

end
