(* ===== verification/Rcd_Serve.thy ===== *)
theory Rcd_Serve
  imports Rcd_Guard_Laws
begin

text \<open>
  The configuration daemon as its clients, its clock and its power supply drive it: a sequence
  of requests, ticks, restarts and reboots over the guard. A reading of the stores that was in
  force when the guard was last at rest is never lost by such a sequence, short of a
  confirmation.
\<close>

datatype event =
    Set_edits "rcd_edit list"
  | Apply nat nat
  | Tick bool nat nat
  | Cancel nat
  | Confirm
  | Restart nat
  | Reboot nat

fun serve_event :: "'c ops \<Rightarrow> event \<Rightarrow> 'c rcd \<Rightarrow> 'c rcd" where
  "serve_event ops (Set_edits es) st = snd (set_edits ops es 0 st)"
| "serve_event ops (Apply now now2) st = apply_system ops now now2 st"
| "serve_event ops (Tick settled now now2) st = rcd_guard_tick ops settled now now2 st"
| "serve_event ops (Cancel now) st = snd (rcd_cmd_cancel ops now st)"
| "serve_event ops Confirm st = snd (rcd_cmd_confirm st)"
| "serve_event ops (Restart now) st = rcd_start ops now st"
| "serve_event ops (Reboot now) st = rcd_start ops now (reboot st)"

fun serve :: "'c ops \<Rightarrow> event list \<Rightarrow> 'c rcd \<Rightarrow> 'c rcd" where
  "serve ops [] st = st"
| "serve ops (e # es) st = serve ops es (serve_event ops e st)"

text \<open>
  A session that nobody confirms: no confirmation, no tick on which the radio reports success,
  and no further edit once the guard has given up and left only its record on flash.
\<close>

definition given_up :: "'c rcd \<Rightarrow> bool" where
  "given_up st \<longleftrightarrow> guard st = [] \<and> record_file st \<noteq> None"

text \<open>Ticks that each come at or after the deadline standing at the time.\<close>

fun expire :: "'c ops \<Rightarrow> (nat \<times> nat) list \<Rightarrow> 'c rcd \<Rightarrow> 'c rcd" where
  "expire ops [] st = st"
| "expire ops ((late, now2) # ts) st =
     expire ops ts (rcd_guard_tick ops False (guard_deadline_ms st + late) now2 st)"

fun unconfirmed :: "(rcd_edit \<Rightarrow> bool) \<Rightarrow> 'c ops \<Rightarrow> event list \<Rightarrow> 'c rcd \<Rightarrow> bool" where
  "unconfirmed ok ops [] st = True"
| "unconfirmed ok ops (e # es) st =
     ((case e of Set_edits eds \<Rightarrow> list_all ok eds \<and> \<not> given_up st
       | Apply _ _ \<Rightarrow> \<not> given_up st
       | Tick settled _ _ \<Rightarrow> \<not> settled
       | Confirm \<Rightarrow> False
       | _ \<Rightarrow> True) \<and> unconfirmed ok ops es (serve_event ops e st))"

subsection \<open>What is on flash\<close>

definition on_flash :: "bool \<Rightarrow> rcd_guard_snap list \<Rightarrow> 'c rcd \<Rightarrow> bool" where
  "on_flash armed ss st \<longleftrightarrow> (\<exists>w. record_file st = Some (Record armed w (map record_item_of ss)))"

lemma record_write_flash:
  "flash_ok st \<Longrightarrow> record_write st = st\<lparr>record_file := Some (Record (guard_deadline_ms st \<noteq> 0) (guard_window_sec st)
     (map record_item_of (guard st)))\<rparr>"
  by (simp add: record_write_def)

lemma armed_write_flash:
  "flash_ok st \<Longrightarrow> armed_write st = st\<lparr>armed_file := Some (guard_deadline_ms st, guard_window_sec st)\<rparr>"
  by (simp add: armed_write_def)

lemma flash_ok_simps [simp]:
  "flash_ok (st\<lparr>record_file := r\<rparr>) = flash_ok st" "flash_ok (st\<lparr>armed_file := a\<rparr>) = flash_ok st"
  "flash_ok (st\<lparr>guard := g\<rparr>) = flash_ok st" "flash_ok (st\<lparr>cam := c\<rparr>) = flash_ok st"
  "flash_ok (st\<lparr>guard_deadline_ms := d\<rparr>) = flash_ok st" "flash_ok (st\<lparr>guard_window_sec := w\<rparr>) = flash_ok st"
  "flash_ok (st\<lparr>guard_retries := n\<rparr>) = flash_ok st" "flash_ok (st\<lparr>guard_wifi_moved := m\<rparr>) = flash_ok st"
  "flash_ok (st\<lparr>guard_wifi_ask_ms := k\<rparr>) = flash_ok st" "flash_ok (st\<lparr>stale_file := f\<rparr>) = flash_ok st"
  by (simp_all add: flash_ok_def)

lemma stored_items: "list_all (entry_ok base) ss \<Longrightarrow> stored_ok base \<Longrightarrow> length ss \<le> RCD_GUARD_MAX \<Longrightarrow>
  map record_item_of (load_items [] (map record_item_of ss)) = map record_item_of ss"
  using load_items_eq [of base ss "[]"] by (simp add: record_item_of_def comp_def)

lemma stale_load_frame:
  "guard_part (rcd_stale_load st) = guard_part st \<and> record_file (rcd_stale_load st) = record_file st \<and>
   armed_file (rcd_stale_load st) = armed_file st \<and> fio (rcd_stale_load st) = fio st"
proof -
  define f where "f = (\<lambda>(s, k) st :: 'a rcd. if rcd_key_find s k = None then st else rcd_stale_add s k (rcd_section_owner s) st)"
  have one: "guard_part (f r st) = guard_part st \<and> record_file (f r st) = record_file st \<and>
      armed_file (f r st) = armed_file st \<and> fio (f r st) = fio st" for r and st :: "'a rcd"
    by (cases r) (simp add: f_def)
  have "guard_part (fold f refs st) = guard_part st \<and> record_file (fold f refs st) = record_file st \<and>
      armed_file (fold f refs st) = armed_file st \<and> fio (fold f refs st) = fio st" for refs and st :: "'a rcd"
    by (induction refs arbitrary: st) (simp_all add: one)
  then show ?thesis by (simp add: rcd_stale_load_def f_def split: option.splits)
qed

subsection \<open>The invariant of a session\<close>

context guarded_stores
begin

definition steady :: "(store \<Rightarrow> string option) \<Rightarrow> 'c rcd \<Rightarrow> bool" where
  "steady base st \<longleftrightarrow> guard st = [] \<and> guard_deadline_ms st = 0 \<and> record_file st = None \<and> (\<forall>s. rd s (cam st) = base s)"

definition held :: "(store \<Rightarrow> string option) \<Rightarrow> 'c rcd \<Rightarrow> bool" where
  "held base st \<longleftrightarrow> encodes base (guard st) \<and>
     (\<exists>a. on_flash a (guard st) st \<and> (guard_deadline_ms st \<noteq> 0 \<and> guard_retries st = 0 \<longrightarrow> a))"

definition abandoned :: "(store \<Rightarrow> string option) \<Rightarrow> 'c rcd \<Rightarrow> bool" where
  "abandoned base st \<longleftrightarrow> guard st = [] \<and> guard_deadline_ms st = 0 \<and> (\<exists>a ss. on_flash a ss st \<and> encodes base ss)"

definition inv :: "(store \<Rightarrow> string option) \<Rightarrow> 'c rcd \<Rightarrow> bool" where
  "inv base st \<longleftrightarrow> can_hold base (cam st) \<and> flash_ok st \<and> guard_retries st \<le> RCD_GUARD_RETRIES \<and>
     (steady base st \<or> held base st \<or> abandoned base st)"

text \<open>The invariant does not look at drift or at the marker.\<close>

lemma inv_frame:
  assumes "guard_part st' = guard_part st" "record_file st' = record_file st" "fio st' = fio st"
  shows "inv base st' = inv base st" "held base st' = held base st"
  using assms
  by (simp_all add: inv_def steady_def held_def abandoned_def on_flash_def flash_ok_def guard_part_def)

lemma inv_stale_save: "inv base st \<Longrightarrow> inv base (rcd_stale_save st)"
  and held_stale_save: "held base st \<Longrightarrow> held base (rcd_stale_save st)"
  using stale_save_frame [of st]
  by (auto simp: inv_def steady_def held_def abandoned_def on_flash_def guard_part_def)

text \<open>A revert of a held snapshot ends at rest, held again, or given up.\<close>

lemma inv_revert:
  assumes "can_hold base (cam st)" "flash_ok st" "encodes base (guard st)" "guard_retries st \<le> RCD_GUARD_RETRIES"
    "on_flash a (guard st) st"
  shows "inv base (rcd_guard_revert ops now st)"
    and "guard (rcd_guard_revert ops now st) = [] \<and> guard_deadline_ms (rcd_guard_revert ops now st) = 0 \<or>
      guard_deadline_ms (rcd_guard_revert ops now st) = now + RCD_GUARD_RETRY_MS \<and>
      guard_retries (rcd_guard_revert ops now st) = guard_retries st + 1 \<and> guard_retries st < RCD_GUARD_RETRIES"
proof -
  define st' where "st' = rcd_guard_revert ops now st"
  note e = revert_effect [OF assms(1,3) st'_def]
  have "inv base st' \<and> (guard st' = [] \<and> guard_deadline_ms st' = 0 \<or> guard_deadline_ms st' = now + RCD_GUARD_RETRY_MS \<and> guard_retries st' = guard_retries st + 1 \<and> guard_retries st < RCD_GUARD_RETRIES)"
    using e
  proof (elim conjE disjE)
    assume "guard st' = []" "record_file st' = record_file st" "guard_deadline_ms st' = 0" "guard_retries st' = 0"
    then have "abandoned base st'" using assms(3,5) unfolding abandoned_def on_flash_def by auto
    then show ?thesis using e assms(2) \<open>guard_deadline_ms st' = 0\<close> \<open>guard_retries st' = 0\<close> \<open>guard st' = []\<close> by (simp add: inv_def)
  next
    assume *: "encodes base (guard st')" "record_file st' = record_file st"
      "map record_item_of (guard st') = map record_item_of (guard st)" "guard_retries st' = guard_retries st + 1"
      "guard_retries st < RCD_GUARD_RETRIES" "guard_deadline_ms st' = now + RCD_GUARD_RETRY_MS"
    then have "held base st'" using assms(5) by (auto simp: held_def on_flash_def)
    then show ?thesis using e assms(2) * by (simp add: inv_def)
  qed (use assms(2) in \<open>auto simp: inv_def steady_def\<close>)
  then show "inv base (rcd_guard_revert ops now st)"
    and "guard (rcd_guard_revert ops now st) = [] \<and> guard_deadline_ms (rcd_guard_revert ops now st) = 0 \<or>
      guard_deadline_ms (rcd_guard_revert ops now st) = now + RCD_GUARD_RETRY_MS \<and>
      guard_retries (rcd_guard_revert ops now st) = guard_retries st + 1 \<and> guard_retries st < RCD_GUARD_RETRIES"
    by (simp_all add: st'_def)
qed

lemma revert_idle: "guard st = [] \<Longrightarrow> guard_deadline_ms st = 0 \<Longrightarrow> rcd_guard_revert ops now st = st"
  by (simp add: rcd_guard_revert_def)

lemma inv_revert_any: "inv base st \<Longrightarrow> inv base (rcd_guard_revert ops now st)"
proof -
  assume i: "inv base st"
  show ?thesis
  proof (cases "held base st")
    case True
    then obtain a where "encodes base (guard st)" "on_flash a (guard st) st" by (auto simp: held_def)
    moreover have "can_hold base (cam st)" "flash_ok st" "guard_retries st \<le> RCD_GUARD_RETRIES"
      using i by (simp_all add: inv_def)
    ultimately show ?thesis using inv_revert(1) by blast
  next
    case False
    then have "guard st = []" "guard_deadline_ms st = 0" using i by (auto simp: inv_def steady_def abandoned_def)
    then show ?thesis using i by (simp add: revert_idle)
  qed
qed

lemma inv_tick: "inv base st \<Longrightarrow> inv base (rcd_guard_tick ops False now now2 st)"
proof -
  assume i: "inv base st"
  have ask: "inv base (st\<lparr>guard_wifi_ask_ms := k\<rparr>)" for k
    using i by (simp add: inv_frame(1) [of "st\<lparr>guard_wifi_ask_ms := k\<rparr>" st] guard_part_def)
  then show ?thesis using i by (auto simp: rcd_guard_tick_def Let_def intro!: inv_revert_any)
qed

text \<open>Taking the snapshot: from rest it encodes what the stores read.\<close>

lemma encodes_now: "(\<forall>s. rd s c = base s) \<Longrightarrow> encodes base (snapshot_keys ops c [] keys)"
proof -
  assume "\<forall>s. rd s c = base s"
  then have "(\<lambda>s. guard_get ops s c) = base" by (auto simp: guard_get_def ops_simps)
  then show ?thesis using encodes_snapshot [of ops c] by simp
qed

lemma hold_held:
  assumes "inv base st" "\<not> given_up st"
  shows "held base (rcd_guard_hold ops st) \<and> inv base (rcd_guard_hold ops st)"
proof (cases "guard st = []")
  case True
  then have s: "steady base st" using assms(1,2) encodes_nonempty
    by (auto simp: inv_def held_def abandoned_def given_up_def on_flash_def)
  have f: "flash_ok (snapshot ops st)" using assms(1) by (simp add: inv_def snapshot_def)
  have "encodes base (snapshot_keys ops (cam st) [] keys)" using s encodes_now by (simp add: steady_def)
  moreover have "rcd_guard_hold ops st = (snapshot ops st)\<lparr>record_file := Some (Record (guard_deadline_ms (snapshot ops st) \<noteq> 0)
      (guard_window_sec (snapshot ops st)) (map record_item_of (guard (snapshot ops st))))\<rparr>"
    using True by (simp add: rcd_guard_hold_def record_write_flash [OF f])
  ultimately show ?thesis using s assms(1)
    by (auto simp: snapshot_def held_def on_flash_def inv_def steady_def)
next
  case False
  then have "held base st" using assms(1) by (auto simp: inv_def steady_def abandoned_def)
  then show ?thesis using False assms(1) by (simp add: rcd_guard_hold_def inv_def)
qed

lemma inv_cam:
  assumes "inv base st" "can_hold base c" "held base st \<or> (\<forall>s. rd s c = rd s (cam st))"
  shows "inv base (st\<lparr>cam := c\<rparr>)"
  using assms by (auto simp: inv_def steady_def held_def abandoned_def on_flash_def)

lemma held_not_given_up: "held base st \<Longrightarrow> \<not> given_up st"
  by (auto simp: held_def given_up_def dest: encodes_nonempty)

definition fits_edit :: "rcd_edit \<Rightarrow> bool" where
  "fits_edit e \<longleftrightarrow> (\<forall>sto. key_store (e_key e) = Some sto \<longrightarrow> 0 < guard_sec (e_key e) \<and>
     (reset e \<or> rendered e = [] \<or> fits sto (rendered e)))"

lemma inv_set_edit:
  assumes "inv base st" "\<not> given_up st" "fits_edit e" "set_edit ops e st = (ok, staged, st')"
  shows "inv base st' \<and> \<not> given_up st'"
proof (cases "key_store (e_key e)")
  case None
  then show ?thesis using assms by (simp add: set_edit_def)
next
  case (Some sto)
  define st1 where "st1 = rcd_guard_hold ops st"
  have h: "held base st1" "inv base st1" using hold_held [OF assms(1,2)] by (simp_all add: st1_def)
  define v where "v = (if reset e then [] else rendered e)"
  have v: "v = [] \<or> fits sto v" using assms(3) Some by (auto simp: fits_edit_def v_def)
  obtain b c' where w: "wr sto v (cam st1) = (b, c')" by force
  have c': "can_hold base c'" using can_hold_write [OF _ v w] h(2) by (simp add: inv_def)
  define st2 where "st2 = st1\<lparr>cam := c'\<rparr>"
  have i2: "inv base st2" unfolding st2_def using inv_cam [OF h(2) c'] h(1) by simp
  have h2: "held base st2" using h(1) by (simp add: st2_def held_def on_flash_def)
  have "0 < guard_sec (e_key e)" using assms(3) Some by (simp add: fits_edit_def)
  then have "st' = st2 \<or> (\<exists>a b. st' = rcd_stale_add a b RCD_D_COUNT st2)"
    using assms(4) Some w
    by (auto simp: set_edit_def ops_simps st1_def [symmetric] v_def [symmetric] st2_def [symmetric] Let_def split: if_splits)
  then show ?thesis
  proof
    assume "\<exists>a b. st' = rcd_stale_add a b RCD_D_COUNT st2"
    then have "inv base st'" "held base st'" using i2 h2 inv_frame [of st' st2] by auto
    then show ?thesis using held_not_given_up by blast
  qed (use i2 held_not_given_up [OF h2] in simp)
qed

lemma inv_set_edits:
  "inv base st \<Longrightarrow> \<not> given_up st \<Longrightarrow> list_all fits_edit es \<Longrightarrow> inv base (snd (set_edits ops es n st))"
proof (induction es arbitrary: st n)
  case (Cons e es)
  obtain ok staged st1 where one: "set_edit ops e st = (ok, staged, st1)" by (metis prod_cases3)
  have "inv base st1" "\<not> given_up st1" using inv_set_edit [OF Cons.prems(1,2) _ one] Cons.prems(3) by auto
  then show ?case using Cons.IH Cons.prems(3) one by simp
qed (simp add: inv_stale_save)

lemma inv_arm:
  assumes "inv base st" "\<not> given_up st"
  shows "inv base (rcd_guard_arm ops now now2 w st)" and "0 < w \<Longrightarrow> held base (rcd_guard_arm ops now now2 w st)"
proof -
  define st1 where "st1 = (if guard st = [] then snapshot ops st else st)"
  have enc: "encodes base (guard st1)"
  proof (cases "guard st = []")
    case True
    then have "steady base st" using assms encodes_nonempty
      by (auto simp: inv_def held_def abandoned_def given_up_def on_flash_def)
    then show ?thesis using True encodes_now by (simp add: st1_def snapshot_def steady_def)
  next
    case False
    then show ?thesis using assms(1) by (auto simp: st1_def inv_def steady_def abandoned_def held_def)
  qed
  define m where "m \<longleftrightarrow> guard_deadline_ms st1 \<noteq> 0 \<and> guard_wifi_moved st1 \<or>
    wifi_moved ops (st1\<lparr>guard_retries := 0, guard_window_sec := int w, guard_deadline_ms := now + w * 1000\<rparr>)"
  define st3 where "st3 = st1\<lparr>guard_retries := 0, guard_window_sec := int w, guard_deadline_ms := now + w * 1000,
    guard_wifi_moved := m, guard_wifi_ask_ms := now2 + RCD_GUARD_WIFI_DWELL_SEC * 1000\<rparr>"
  have f: "flash_ok st3" "can_hold base (cam st3)" using assms(1) by (simp_all add: inv_def st3_def st1_def snapshot_def)
  have arm: "rcd_guard_arm ops now now2 w st = (if w = 0 then st else armed_write (record_write st3))"
    by (simp add: rcd_guard_arm_def st1_def [symmetric] m_def st3_def Let_def)
  have g: "guard st3 = guard st1" "guard_retries st3 = 0" "guard_deadline_ms st3 = now + w * 1000" by (simp_all add: st3_def)
  have e: "armed_write (record_write st3) = st3\<lparr>record_file := Some (Record (guard_deadline_ms st3 \<noteq> 0) (guard_window_sec st3)
      (map record_item_of (guard st3))), armed_file := Some (guard_deadline_ms st3, guard_window_sec st3)\<rparr>"
    using f(1) by (simp add: record_write_flash armed_write_flash)
  show held: "held base (rcd_guard_arm ops now now2 w st)" if "0 < w"
    using that enc unfolding arm e by (auto simp: held_def on_flash_def g)
  show "inv base (rcd_guard_arm ops now now2 w st)"
  proof (cases "w = 0")
    case True
    then show ?thesis unfolding arm using assms(1) by simp
  next
    case False
    then have "held base (rcd_guard_arm ops now now2 w st)" using held by simp
    then show ?thesis using False f unfolding inv_def arm e by (simp add: g)
  qed
qed

lemma apply_enacts_effect:
  "can_hold base (cam st) \<Longrightarrow> apply_enacts ops oks es st = (oks', st') \<Longrightarrow>
     can_hold base (cam st') \<and> (\<forall>s. rd s (cam st') = rd s (cam st)) \<and> st' = st\<lparr>cam := cam st'\<rparr>"
proof (induction es arbitrary: oks st)
  case (Cons e es)
  obtain ok c' where o: "force e (cam st) = (ok, c')" by force
  have wf: "wf (cam st)" using Cons.prems(1) by (simp add: can_hold_def)
  have h: "can_hold base (cam (st\<lparr>cam := c'\<rparr>))" using can_hold_force [OF Cons.prems(1) o] by simp
  have run: "apply_enacts ops (if ok then oks @ [e] else oks) es (st\<lparr>cam := c'\<rparr>) = (oks', st')"
    using Cons.prems(2) o by (simp add: ops_simps)
  show ?case using Cons.IH [OF h run] force_keeps [OF wf o] by simp
qed simp

lemma inv_apply:
  assumes "inv base st" "\<not> given_up st"
  shows "inv base (apply_system ops now now2 st)"
proof (cases "rcd_enact_owed st = []")
  case False
  define st1 where "st1 = rcd_guard_arm ops now now2 (fold max (map guard_sec (rcd_enact_owed st)) 0) st"
  have i1: "inv base st1" unfolding st1_def by (rule inv_arm(1) [OF assms])
  obtain oks st2 where run: "apply_enacts ops [] (distinct_enacts [] (rcd_enact_owed st)) st1 = (oks, st2)" by force
  have "can_hold base (cam st1)" using i1 by (simp add: inv_def)
  note e = apply_enacts_effect [OF this run]
  have "inv base (st1\<lparr>cam := cam st2\<rparr>)" using inv_cam [OF i1] e by blast
  then have i2: "inv base st2" using e by metis
  have "enact_system ops now now2 st = rcd_enact_done oks st2"
    using False run by (simp add: enact_system_def st1_def [symmetric] Let_def)
  moreover have "inv base (rcd_enact_done oks st2)" using inv_frame(1) [of "rcd_enact_done oks st2" st2] i2 by simp
  ultimately show ?thesis using False by (simp add: apply_system_def inv_stale_save)
qed (use assms in \<open>simp add: apply_system_def\<close>)

lemma inv_start:
  assumes "inv base st"
  shows "inv base (rcd_start ops now st)"
proof -
  define st0 where "st0 = rcd_stale_load (fresh st)"
  have part: "guard_part st0 = ([], 0, 0, 0, cam st)" and rec: "record_file st0 = record_file st"
      and fl: "flash_ok st0" and mem: "guard_retries st0 = 0" "guard st0 = []" "guard_deadline_ms st0 = 0" "cam st0 = cam st"
    using stale_load_frame [of "fresh st"] assms by (simp_all add: st0_def fresh_def guard_part_def inv_def flash_ok_def)
  have h: "can_hold base (cam st0)" using assms mem by (simp add: inv_def)
  have start: "rcd_start ops now st = rcd_guard_load ops now st0" by (simp add: rcd_start_def st0_def)
  show ?thesis
  proof (cases "record_file st")
    case None
    then have "steady base st" using assms by (auto simp: inv_def held_def abandoned_def on_flash_def)
    then have "steady base st0" using rec mem by (simp add: steady_def)
    then show ?thesis using None h fl mem rec start by (simp add: rcd_guard_load_def inv_def)
  next
    case (Some r)
    then obtain a w ss where r: "r = Record a w (map record_item_of ss)" and enc: "encodes base ss"
      using assms by (auto simp: inv_def steady_def held_def abandoned_def on_flash_def)
    have st: "stored_ok base" using can_hold_stored [OF h] .
    define ls where "ls = load_items [] (map record_item_of ss)"
    have encl: "encodes base ls" unfolding ls_def by (rule encodes_load [OF st enc])
    have items: "map record_item_of ls = map record_item_of ss"
      unfolding ls_def using stored_items [of base ss] enc st encodes_length [OF enc] by (simp add: encodes_def)
    define st1 where "st1 = st0\<lparr>guard := ls\<rparr>"
    have flash: "on_flash a ls (st1\<lparr>guard_window_sec := x, guard_deadline_ms := d\<rparr>)" for x d
      using Some r rec items by (simp add: on_flash_def st1_def)
    have good: "inv base (st1\<lparr>guard_window_sec := x, guard_deadline_ms := d\<rparr>)" if "a \<or> d = 0" for x d
    proof -
      have "held base (st1\<lparr>guard_window_sec := x, guard_deadline_ms := d\<rparr>)"
        using encl flash [where x = x and d = d] that unfolding held_def by (auto simp: st1_def)
      then show ?thesis using h fl mem by (simp add: inv_def st1_def)
    qed
    have same: "st1\<lparr>guard_window_sec := guard_window_sec st1, guard_deadline_ms := 0\<rparr> = st1"
      using mem(3) by (simp add: st1_def)
    obtain d mw where ar: "armed_read st1 = (d, mw)" by force
    define x where "x = (if 0 < (if 0 < mw then mw else w) then (if 0 < mw then mw else w) else int RCD_GUARD_NAME_SEC)"
    define st3 where "st3 = st1\<lparr>guard_window_sec := x, guard_deadline_ms := d\<rparr>"
    have zero: "st1\<lparr>guard_window_sec := x\<rparr> = st1\<lparr>guard_window_sec := x, guard_deadline_ms := 0\<rparr>"
      using mem(3) by (simp add: st1_def)
    have "rcd_guard_load ops now st0 = (if \<not> a then st1
        else if d = 0 then rcd_guard_revert ops now (st1\<lparr>guard_window_sec := x, guard_deadline_ms := 0\<rparr>)
        else if d \<le> now then rcd_guard_revert ops now st3 else st3)"
      using Some r rec ar zero by (simp add: rcd_guard_load_def st1_def [symmetric] ls_def [symmetric] x_def st3_def Let_def)
    then show ?thesis using good [where x = "guard_window_sec st1" and d = 0] same good inv_revert_any start by (auto simp: st3_def)
  qed
qed

lemma inv_reboot: "inv base st \<Longrightarrow> inv base (reboot st)"
  using inv_frame(1) [of "reboot st" st] by (simp add: reboot_def guard_part_def)

text \<open>No event of an unconfirmed session loses the reading the session began with.\<close>

lemma inv_event:
  assumes "inv base st" "unconfirmed fits_edit ops [e] st"
  shows "inv base (serve_event ops e st)"
  using assms inv_set_edits [of base st] inv_apply [of base st] inv_tick [of base st] inv_revert_any [of base st]
    inv_start inv_reboot [of base st]
  by (cases e) (auto simp: rcd_cmd_cancel_def Let_def)

lemma inv_serve:
  "inv base st \<Longrightarrow> unconfirmed fits_edit ops es st \<Longrightarrow> inv base (serve ops es st)"
proof (induction es arbitrary: st)
  case (Cons e es)
  have "inv base (serve_event ops e st)" using inv_event [OF Cons.prems(1)] Cons.prems(2) by simp
  then show ?case using Cons.IH Cons.prems(2) by simp
qed simp

lemma armed_held: "inv base st \<Longrightarrow> guard_deadline_ms st \<noteq> 0 \<Longrightarrow> held base st"
  by (auto simp: inv_def steady_def abandoned_def)

lemma tick_overdue:
  assumes "inv base st" "guard_deadline_ms st \<noteq> 0" "st' = rcd_guard_tick ops False (guard_deadline_ms st + late) now2 st"
  shows "guard st' = [] \<and> guard_deadline_ms st' = 0 \<or>
    guard_deadline_ms st' \<noteq> 0 \<and> guard_retries st' = guard_retries st + 1 \<and> guard_retries st < RCD_GUARD_RETRIES"
proof -
  obtain k where st': "st' = rcd_guard_revert ops now2 (st\<lparr>guard_wifi_ask_ms := k\<rparr>)"
  proof (cases "guard_wifi_moved st \<and> guard_wifi_ask_ms st \<noteq> 0 \<and> guard_wifi_ask_ms st \<le> guard_deadline_ms st + late")
    case True
    then show ?thesis using assms(2,3) that by (simp add: rcd_guard_tick_def)
  next
    case False
    have "st\<lparr>guard_wifi_ask_ms := guard_wifi_ask_ms st\<rparr> = st" by simp
    then show ?thesis using False assms(2,3) that [of "guard_wifi_ask_ms st"] by (auto simp: rcd_guard_tick_def)
  qed
  obtain a where "encodes base (guard st)" "on_flash a (guard st) st" using armed_held [OF assms(1,2)] by (auto simp: held_def)
  then show ?thesis
    using inv_revert(2) [of base "st\<lparr>guard_wifi_ask_ms := k\<rparr>" a now2] assms(1)
    by (auto simp: st' inv_def on_flash_def)
qed

lemma expire_idle: "guard_deadline_ms st = 0 \<Longrightarrow> expire ops ts st = st"
  by (induction ts) (auto simp: rcd_guard_tick_def)

lemma expire_ends:
  "inv base st \<Longrightarrow> guard_deadline_ms st \<noteq> 0 \<Longrightarrow> 5 \<le> length ts + guard_retries st \<Longrightarrow>
     inv base (expire ops ts st) \<and> guard (expire ops ts st) = [] \<and> guard_deadline_ms (expire ops ts st) = 0"
proof (induction ts arbitrary: st)
  case Nil
  then show ?case by (simp add: inv_def)
next
  case (Cons t ts)
  obtain late now2 where t: "t = (late, now2)" by force
  define st' where "st' = rcd_guard_tick ops False (guard_deadline_ms st + late) now2 st"
  have i: "inv base st'" unfolding st'_def by (rule inv_tick [OF Cons.prems(1)])
  have e: "expire ops (t # ts) st = expire ops ts st'" by (simp add: t st'_def)
  from tick_overdue [OF Cons.prems(1,2) st'_def] show ?case
  proof
    assume "guard st' = [] \<and> guard_deadline_ms st' = 0"
    then show ?thesis using i e expire_idle by simp
  next
    assume "guard_deadline_ms st' \<noteq> 0 \<and> guard_retries st' = guard_retries st + 1 \<and> guard_retries st < RCD_GUARD_RETRIES"
    then show ?thesis using Cons.IH [OF i] Cons.prems(3) e by simp
  qed
qed

end

subsection \<open>The camera\<close>

definition store_type :: "store \<Rightarrow> rcd_val_type" where
  "store_type s = (case s of Hostname \<Rightarrow> V_HOST | Net_dhcp \<Rightarrow> V_BOOL | Wifi_ssid \<Rightarrow> V_TEXT | Wifi_psk \<Rightarrow> V_SECRET | _ \<Rightarrow> V_IPV4)"

lemma provider_rows:
  "list_all (\<lambda>k. case key_store k of None \<Rightarrow> True | Some s \<Rightarrow> 0 < guard_sec k \<and> k_type k = store_type s) keys"
  by code_simp

lemma isprint_not_LF: "list_all isprint v \<Longrightarrow> LF \<notin> set v" and isprint_not_CR: "list_all isprint v \<Longrightarrow> CR \<notin> set v"
  by (auto simp: list_all_iff)

lemma not_blank_chars: "isdigit c \<or> c = CHR ''.'' \<Longrightarrow> \<not> isblank c"
  by (auto simp: isblank_def isdigit_def code_def)

text \<open>A value the schema accepts is one its store can hold.\<close>

lemma edit_ok_fits:
  assumes "edit_ok e"
  shows "gcam.fits_edit e"
  unfolding gcam.fits_edit_def
proof (intro allI impI)
  fix sto assume sto: "key_store (e_key e) = Some sto"
  have row: "0 < guard_sec (e_key e)" "k_type (e_key e) = store_type sto"
    using provider_rows assms sto by (auto simp: list_all_iff edit_ok_def)
  define v where "v = rendered e"
  have "reset e \<or> v = [] \<or> valid sto v"
  proof (cases "reset e \<or> v = []")
    case False
    then have ok: "value_ok (e_key e) v" "v \<noteq> []" using assms by (auto simp: edit_ok_def v_def)
    have clean: "LF \<notin> set v" "CR \<notin> set v" "length v \<le> 127"
      using ok(1) isprint_not_LF isprint_not_CR by (auto simp: value_ok_def)
    have "valid sto v"
    proof (cases sto rule: store_cases)
      case directive
      then have "k_type (e_key e) = V_IPV4" using row(2) by (auto simp: is_directive_def store_type_def)
      then have "\<forall>c \<in> set v. isdigit c \<or> c = CHR ''.''" using ok(1) by (simp add: value_ok_def list_all_iff)
      then have "\<not> isblank (hd v)" using ok(2) not_blank_chars by (cases v) auto
      then show ?thesis using directive clean ok(2) by (simp add: valid_def plain_def)
    next
      case dhcp
      then show ?thesis using row(2) ok(1) by (simp add: store_type_def value_ok_def valid_def is_directive_def)
    next
      case host
      have "last v \<noteq> CR" using clean(2) ok(2) by (metis last_in_set)
      then show ?thesis using host clean ok(2) by (simp add: valid_def is_directive_def)
    next
      case (env n)
      then show ?thesis using ok(2) by (auto simp: valid_def is_directive_def)
    qed
    then show ?thesis by simp
  qed blast
  then show "0 < guard_sec (e_key e) \<and> (reset e \<or> rendered e = [] \<or> valid sto (rendered e))"
    using row(1) by (simp add: v_def)
qed

lemma unconfirmed_mono: "(\<And>e. p e \<Longrightarrow> q e) \<Longrightarrow> unconfirmed p ops es st \<Longrightarrow> unconfirmed q ops es st"
proof (induction es arbitrary: st)
  case (Cons e es)
  then show ?case by (cases e) (auto simp: list_all_iff)
qed simp

definition at_rest :: "camera rcd \<Rightarrow> bool" where
  "at_rest st \<longleftrightarrow> guard st = [] \<and> guard_deadline_ms st = 0 \<and> guard_retries st = 0 \<and> record_file st = None \<and>
     flash_ok st \<and> wf_camera (cam st)"

definition reading :: "camera \<Rightarrow> store \<Rightarrow> string option" where
  "reading c = (\<lambda>s. p_stored s c)"

text \<open>The reading is in the stores, in the snapshot, or in the record a start will load.\<close>

definition recoverable :: "(store \<Rightarrow> string option) \<Rightarrow> camera rcd \<Rightarrow> bool" where
  "recoverable base st \<longleftrightarrow>
     guard st = [] \<and> record_file st = None \<and> reading (cam st) = base \<or>
     encodes base (guard st) \<or>
     guard st = [] \<and> (\<exists>a w is. record_file st = Some (Record a w is) \<and> encodes base (load_items [] is))"

lemma inv_at_rest: "at_rest st \<Longrightarrow> gcam.inv (reading (cam st)) st"
  using gcam.can_hold_reading [of "cam st"]
  by (auto simp: at_rest_def gcam.inv_def gcam.steady_def reading_def)

lemma inv_recoverable: "gcam.inv base st \<Longrightarrow> recoverable base st"
proof -
  assume i: "gcam.inv base st"
  have st: "stored_ok base" using i gcam.can_hold_stored by (auto simp: gcam.inv_def)
  then show ?thesis using i encodes_load [OF st]
    by (auto simp: gcam.inv_def gcam.steady_def gcam.held_def gcam.abandoned_def recoverable_def reading_def on_flash_def)
qed

lemma session_inv:
  assumes "at_rest st" "unconfirmed edit_ok camera_ops evs st"
  shows "gcam.inv (reading (cam st)) (serve camera_ops evs st)"
  using gcam.inv_serve [OF inv_at_rest [OF assms(1)] unconfirmed_mono [OF edit_ok_fits assms(2)]] .



subsection \<open>A reboot inside the window\<close>

lemma outcome_enacts: "outcome c = (b, c') \<Longrightarrow> enacts c' = enacts c"
  using outcome_io by fastforce

lemma put_stanza_enacts: "put_stanza t c = (b, c') \<Longrightarrow> enacts c' = enacts c"
  by (auto simp: put_stanza_def split: prod.splits if_splits dest: outcome_enacts)

lemma p_set_enacts: "p_set s v c = (b, c') \<Longrightarrow> enacts c' = enacts c"
proof -
  assume set: "p_set s v c = (b, c')"
  have st: "enacts c' = enacts c" if "stanza_set n v c = (b, c')" for n
    using that by (auto simp: stanza_set_def split: if_splits option.splits dest: put_stanza_enacts)
  have m: "enacts c' = enacts c" if "method_set m c = (b, c')" for m
    using that by (auto simp: method_set_def split: if_splits option.splits dest: put_stanza_enacts)
  have h: "enacts c' = enacts c" if "hostname_set v c = (b, c')"
    using that by (auto simp: hostname_set_def split: if_splits prod.splits dest: outcome_enacts)
  have e: "enacts c' = enacts c" if "env_set n v c = (b, c')" for n
    using that by (auto simp: env_set_def Let_def split: if_splits prod.splits dest!: outcome_enacts)
  show ?thesis using set st m h e by (cases s) (auto simp: p_set_def dhcp_set_def split: if_splits)
qed

lemma revert_key_enacts:
  "revert_key camera_ops wa s st en f = (s', st', en', f') \<Longrightarrow> enacts (cam st') = enacts (cam st) \<and> (\<not> wa \<longrightarrow> en' = en)"
  by (auto simp: revert_key_def camera_ops_def rcd_stale_forget_def add_enact_def Let_def
      split: option.splits if_splits prod.splits dest: p_set_enacts)

lemma revert_keys_enacts:
  "revert_keys camera_ops wa acc ss st en f = (out, st', en', f') \<Longrightarrow> enacts (cam st') = enacts (cam st) \<and> (\<not> wa \<longrightarrow> en' = en)"
proof (induction ss arbitrary: acc st en f)
  case (Cons s ss)
  obtain s1 st1 en1 f1 where one: "revert_key camera_ops wa s st en f = (s1, st1, en1, f1)" by (metis prod_cases4)
  have "revert_keys camera_ops wa (acc @ [s1]) ss st1 en1 f1 = (out, st', en', f')" using Cons.prems one by simp
  from Cons.IH [OF this] revert_key_enacts [OF one] show ?case by simp
qed simp

lemma stale_save_cam: "cam (rcd_stale_save st) = cam st"
  using stale_save_frame [of st] by (simp add: guard_part_def)

lemma record_clear_cam: "cam (record_clear st) = cam st"
  by (auto simp: record_clear_def file_outcome_def Let_def split: list.splits)

lemma guard_retry_cam: "cam (guard_retry now st) = cam st"
  by (auto simp: guard_retry_def armed_write_def file_outcome_def stale_save_cam Let_def split: list.splits)

lemma revert_unarmed_enacts:
  assumes "guard_deadline_ms st = 0"
  shows "enacts (cam (rcd_guard_revert camera_ops now st)) = enacts (cam st)"
proof (cases "guard st = []")
  case False
  obtain ss st1 en f1 where keys: "revert_keys camera_ops False [] (guard st) st [] 0 = (ss, st1, en, f1)" by (metis prod_cases4)
  from revert_keys_enacts [OF keys] show ?thesis
    using assms False keys
    by (simp add: rcd_guard_revert_def guard_retry_cam stale_save_cam record_clear_cam)
qed (use assms in \<open>simp add: rcd_guard_revert_def\<close>)


subsection \<open>Sessions on a small camera\<close>

text \<open>
  A camera with a host name and nothing else, and the states of a daemon that renames it: the
  events below compute on these states.
\<close>

definition names :: "string list" where
  "names = [''porch'', ''attic'', ''cellar'']"

definition small_camera :: "string \<Rightarrow> string \<Rightarrow> (enact \<times> bool) list \<Rightarrow> camera" where
  "small_camera host k es = \<lparr>stanzas = (\<lambda>_. None), hostfile = Some (host @ [LF]), hostsfile = None, kname = k,
     fwenv = (\<lambda>_. None), fw_ok = True, resolv = None, net_up = None, radio_up = Radio_down, enacts = es, io = []\<rparr>"

definition small :: "bool \<Rightarrow> rcd_guard_snap list \<Rightarrow> nat \<Rightarrow> int \<Rightarrow> nat \<Rightarrow> record_text option \<Rightarrow> (nat \<times> int) option \<Rightarrow>
    camera \<Rightarrow> camera rcd" where
  "small owed g d w ask r a c = \<lparr>stale = if owed then [(''device'', ''hostname'')] else [], stale_daemon = (\<lambda>_. False),
     guard = g, guard_deadline_ms = d, guard_window_sec = w, guard_wifi_moved = False, guard_wifi_ask_ms = ask,
     guard_retries = 0, record_file = r, armed_file = a,
     stale_file = if owed then Some [(''device'', ''hostname'')] else None, fio = [], cam = c\<rparr>"

definition start :: "camera rcd" where
  "start = small False [] 0 0 0 None None (small_camera ''porch'' ''porch'' [])"

definition rename :: "string \<Rightarrow> event" where
  "rename v = (let k = guarded_rows ! 0 in
    Set_edits [\<lparr>e_key = k, e_section = k_section k, rendered = v, e_num = 0, is_num = False, reset = False\<rparr>])"

definition snap :: "string \<Rightarrow> string \<Rightarrow> string option \<Rightarrow> rcd_guard_snap" where
  "snap sec key v = \<lparr>g_section = sec, g_key = key, prev = (case v of Some x \<Rightarrow> x | None \<Rightarrow> []), had = (v \<noteq> None),
     owed_enact = False\<rparr>"

definition snaps :: "string \<Rightarrow> rcd_guard_snap list" where
  "snaps h = map (\<lambda>(k, s). snap_of k (if s = Hostname then Some h else None)) guarded"

lemma small_simps [simp]:
  "guard (small b g d w q r a c) = g" "guard_deadline_ms (small b g d w q r a c) = d"
  "guard_retries (small b g d w q r a c) = 0" "cam (small b g d w q r a c) = c" "record_file (small b g d w q r a c) = r"
  by (simp_all add: small_def)

lemma start_at_rest: "at_rest start"
  by code_simp

lemma rename_ok: "list_all (\<lambda>v. case rename v of Set_edits es \<Rightarrow> list_all edit_ok es | _ \<Rightarrow> False) names"
  by code_simp

lemma small_line: "h \<in> set names \<Longrightarrow> read_line (Some (h @ [LF])) 128 = h"
  by (simp add: names_def, elim disjE; simp; code_simp)

lemma small_host: "h \<in> set names \<Longrightarrow> hostname_get (small_camera h k es) = Some h"
  using small_line [of h] by (auto simp: hostname_get_def small_camera_def names_def strlcpy_def)

lemma small_stored:
  assumes "h \<in> set names"
  shows "p_stored s (small_camera h k es) = (if s = Hostname then Some h else None)"
proof (cases s)
  case Hostname
  then show ?thesis using small_host [OF assms] by (simp add: p_stored_def p_get_def)
qed (simp_all add: p_stored_def p_get_def small_camera_def dhcp_get_def directive_get_def env_get_def stanza_get_def)

lemma small_guard_get:
  "h \<in> set names \<Longrightarrow> guard_get camera_ops s (small_camera h k es) = (if s = Hostname then Some h else None)"
  using small_stored by (simp add: guard_get_def camera_ops_def)

lemma small_set: "v \<in> set names \<Longrightarrow> p_set Hostname v (small_camera h k es) = (True, small_camera v k es)"
  by (auto simp: names_def p_set_def hostname_set_def small_camera_def outcome_def)

lemma small_enact:
  "h \<in> set names \<Longrightarrow> run_enact Enact_hostname (small_camera h k es) = (True, small_camera h h (es @ [(Enact_hostname, True)]))"
  using small_line [of h] by (auto simp: names_def run_enact_def hostname_enact_def small_camera_def outcome_def hosts_rename_def)

lemma guarded_list:
  "guarded = zip guarded_rows [Hostname, Net_dhcp, Net_address, Net_netmask, Net_gateway, Net_dns, Wifi_ssid, Wifi_psk]"
  by code_simp

lemma host_row:
  "key_store (guarded_rows ! 0) = Some Hostname" "guard_sec (guarded_rows ! 0) = 90"
  "k_section (guarded_rows ! 0) = ''device''" "k_key (guarded_rows ! 0) = ''hostname''"
  "rcd_key_find ''device'' ''hostname'' = Some (guarded_rows ! 0)"
  "strlcpy RCD_SECT_MAX ''device'' = ''device''" "strlcpy RCD_KEY_MAX ''hostname'' = ''hostname''"
  by code_simp+

lemma stores_of:
  "store_of ''device'' ''hostname'' = Some Hostname" "store_of ''network'' ''dhcp'' = Some Net_dhcp"
  "store_of ''network'' ''address'' = Some Net_address" "store_of ''network'' ''netmask'' = Some Net_netmask"
  "store_of ''network'' ''gateway'' = Some Net_gateway" "store_of ''network'' ''dns'' = Some Net_dns"
  "store_of ''wifi'' ''ssid'' = Some Wifi_ssid" "store_of ''wifi'' ''psk'' = Some Wifi_psk"
  by code_simp+

lemma snaps_list:
  "snaps h = snap ''device'' ''hostname'' (Some h) #
     map (\<lambda>(s, k). snap s k None) [(''network'', ''dhcp''), (''network'', ''address''), (''network'', ''netmask''),
       (''network'', ''gateway''), (''network'', ''dns''), (''wifi'', ''ssid''), (''wifi'', ''psk'')]"
  by (simp add: snaps_def guarded_list guarded_rows_def snap_of_def snap_def strlcpy_def GUARDED_def)

lemma snaps_not_Nil [simp]: "snaps h \<noteq> []"
  by (simp add: snaps_list)

lemma snapshot_small:
  "h \<in> set names \<Longrightarrow> snapshot camera_ops (small b g d w q r a (small_camera h k es)) =
     small b (snaps h) d w q r a (small_camera h k es)"
  by (simp add: snapshot_def snapshot_guarded small_def small_guard_get snaps_def)

lemma wifi_still:
  "v \<in> set names \<Longrightarrow> guard st = snaps h \<Longrightarrow> cam st = small_camera v k es \<Longrightarrow> \<not> wifi_moved camera_ops st"
  by (simp add: wifi_moved_def snaps_list snap_def stores_of small_guard_get was_value_def)

lemmas small_files = record_write_def record_clear_def armed_write_def file_outcome_def rcd_stale_save_def

lemma rename_edit:
  assumes "h \<in> set names" "v \<in> set names" "h \<noteq> v"
  shows "serve_event camera_ops (rename v) (small False [] 0 0 q None None (small_camera h k es)) =
      small True (snaps h) 0 0 q (Some (Record False 0 (map record_item_of (snaps h)))) None (small_camera v k es)"
    and "g \<noteq> [] \<Longrightarrow> serve_event camera_ops (rename v) (small False g d w q r a (small_camera h k es)) =
      small True g d w q r a (small_camera v k es)"
  using assms small_host [of h] small_host [of v]
  by (simp_all add: rename_def host_row set_edit_def rcd_guard_hold_def snapshot_small)
    (simp_all add: small_def small_files camera_ops_def p_get_def small_set rcd_stale_add_def host_row)

lemma apply_rename:
  assumes "h \<in> set names" "v \<in> set names" "g = snaps h \<or> g = [] \<and> h = v"
  shows "serve_event camera_ops (Apply n n) (small True g d w q r a (small_camera v k es)) =
    small False (snaps h) (n + 90000) 90 (n + 30000) (Some (Record True 90 (map record_item_of (snaps h))))
      (Some (n + 90000, 90)) (small_camera v v (es @ [(Enact_hostname, True)]))"
proof -
  have s: "(if g = [] then snapshot camera_ops (small True g d w q r a (small_camera v k es))
      else small True g d w q r a (small_camera v k es)) = small True (snaps h) d w q r a (small_camera v k es)"
    using assms by (auto simp: snapshot_small)
  have owed: "rcd_enact_owed (small True g d w q r a c) = [guarded_rows ! 0]" for c g
    by (simp add: rcd_enact_owed_def small_def host_row)
  have "rcd_guard_arm camera_ops n n 90 (small True g d w q r a (small_camera v k es)) =
      small True (snaps h) (n + 90000) 90 (n + 30000) (Some (Record True 90 (map record_item_of (snaps h))))
        (Some (n + 90000, 90)) (small_camera v k es)"
    unfolding rcd_guard_arm_def small_simps(1) s using assms(2) by (simp add: small_def wifi_still small_files)
  then show ?thesis using assms owed
    by (simp add: apply_system_def enact_system_def host_row enact_of_def)
      (simp add: small_def small_enact camera_ops_def rcd_enact_done_def small_files stores_of enact_of_def)
qed

lemma confirm_small: "0 < d \<Longrightarrow> serve_event camera_ops Confirm (small b g d w q r a c) = small b [] 0 0 0 None None c"
  by (simp add: rcd_cmd_confirm_def rcd_guard_confirm_def small_def small_files)

lemma revert_small:
  assumes "h \<in> set names" "v \<in> set names" "0 < d" "d \<le> t"
  shows "serve_event camera_ops (Tick False t t) (small False (snaps h) d w q r a (small_camera v k es)) =
    small False [] 0 0 q None None (if h = v then small_camera v k es else small_camera h h (es @ [(Enact_hostname, True)]))"
proof -
  define st where "st = small False (snaps h) d w q r a (small_camera v k es)"
  have st: "cam st = small_camera v k es" "guard st = snaps h" "stale st = []" "guard_deadline_ms st = d"
      "guard_wifi_moved st = False"
    by (simp_all add: st_def small_def)
  have same: "st\<lparr>stale := []\<rparr> = st" using st(3) by simp
  have "revert_keys camera_ops True [] (snaps h) st [] 0 = (if h = v then (snaps h, st, [], 0)
      else ((snaps h)[0 := (snap ''device'' ''hostname'' (Some h))\<lparr>owed_enact := True\<rparr>],
        st\<lparr>cam := small_camera h k es\<rparr>, [Enact_hostname], 0))"
    using assms st by (simp add: snaps_list snap_def revert_key_def stores_of small_guard_get was_value_def
        rcd_stale_forget_def add_enact_def enact_of_def small_set camera_ops_def [THEN arg_cong [where f = o_set]] same)
  then show ?thesis unfolding st_def [symmetric] using assms st
    by (simp add: rcd_guard_tick_def rcd_guard_revert_def Let_def split del: if_split)
      (simp add: small_enact camera_ops_def small_files, simp add: small_def st_def)
qed

lemmas small_steps = rename_edit apply_rename [OF _ _ disjI1 [OF refl]] apply_rename [OF _ _ disjI2 [OF conjI [OF refl refl]]]
  confirm_small revert_small

lemma rename_session:
  "serve camera_ops [rename ''attic'', Apply 1000 1000] start =
     small False (snaps ''porch'') 91000 90 31000 (Some (Record True 90 (map record_item_of (snaps ''porch''))))
       (Some (91000, 90)) (small_camera ''attic'' ''attic'' [(Enact_hostname, True)])"
  "unconfirmed edit_ok camera_ops [rename ''attic'', Apply 1000 1000] start"
  using rename_ok by (simp_all add: start_def small_steps names_def given_up_def split: event.splits del: serve_event.simps)





end
