(* ===== verification/Rhd_Authrate.thy ===== *)
theory Rhd_Authrate
  imports C_Text "HOL-Library.While_Combinator"
begin

text \<open>
  What it costs to guess the system password: \<^verbatim>\<open>rhd/rhd_authrate.c\<close> and its caller in
  \<^verbatim>\<open>rhd/rhd_api.c\<close>. A host that keeps guessing waits longer and longer, and a ceiling bounds the
  hashes computed for all hosts together. The request is text; the decoder of base 64 and the
  check of the password against the shadow file are arguments, as is the clock.
\<close>

subsection \<open>The table of hosts\<close>

record rhd_auth_source =
  a_host :: string
  failures :: nat
  wait_until_ms :: int
  seen_ms :: int
  told :: bool

record rhd_auth =
  g_src :: "rhd_auth_source list"
  g_tokens :: int
  g_refill_ms :: int

abbreviation RHD_AUTH_SOURCES :: nat where "RHD_AUTH_SOURCES \<equiv> 8"
abbreviation RHD_AUTH_FREE_TRIES :: nat where "RHD_AUTH_FREE_TRIES \<equiv> 3"
abbreviation RHD_AUTH_DELAY_MS :: int where "RHD_AUTH_DELAY_MS \<equiv> 1000"
abbreviation RHD_AUTH_DELAY_MAX_MS :: int where "RHD_AUTH_DELAY_MAX_MS \<equiv> 30000"
abbreviation RHD_AUTH_FORGET_MS :: int where "RHD_AUTH_FORGET_MS \<equiv> 300000"
abbreviation RHD_AUTH_BURST :: int where "RHD_AUTH_BURST \<equiv> 6"
abbreviation RHD_AUTH_REFILL_MS :: int where "RHD_AUTH_REFILL_MS \<equiv> 500"

definition no_source :: rhd_auth_source where
  "no_source = \<lparr>a_host = [], failures = 0, wait_until_ms = 0, seen_ms = 0, told = False\<rparr>"

definition rhd_auth_reset :: rhd_auth where
  "rhd_auth_reset = \<lparr>g_src = replicate RHD_AUTH_SOURCES no_source, g_tokens = RHD_AUTH_BURST, g_refill_ms = 0\<rparr>"

text \<open>The walk over the table: the slot of this host, or the one to take.\<close>

fun slot_scan :: "string \<Rightarrow> rhd_auth_source list \<Rightarrow> nat \<Rightarrow> nat \<Rightarrow> rhd_auth_source list \<Rightarrow> nat + nat" where
  "slot_scan host src i oldest [] = Inr oldest"
| "slot_scan host src i oldest (s # ss) =
     (if a_host s \<noteq> [] \<and> a_host s = host then Inl i
      else slot_scan host src (i + 1)
        (if a_host s = [] then i
         else if a_host (src ! oldest) \<noteq> [] \<and> seen_ms s < seen_ms (src ! oldest) then i
         else oldest) ss)"

definition slot_for :: "string \<Rightarrow> int \<Rightarrow> rhd_auth \<Rightarrow> nat \<times> rhd_auth" where
  "slot_for host now st = (case slot_scan host (g_src st) 0 0 (g_src st) of
     Inl i \<Rightarrow>
       (if RHD_AUTH_FORGET_MS < now - seen_ms (g_src st ! i) then
          (i, st\<lparr>g_src := (g_src st)[i := (g_src st ! i)\<lparr>failures := 0, wait_until_ms := 0, told := False\<rparr>]\<rparr>)
        else (i, st))
   | Inr i \<Rightarrow> (i, st\<lparr>g_src := (g_src st)[i := no_source\<lparr>a_host := strlcpy 64 host\<rparr>]\<rparr>))"

subsection \<open>The ceiling\<close>

function refill :: "int \<Rightarrow> int \<Rightarrow> int \<Rightarrow> int \<times> int" where
  "refill now tokens refill_ms =
     (if tokens < RHD_AUTH_BURST \<and> RHD_AUTH_REFILL_MS \<le> now - refill_ms then
        refill now (tokens + 1) (refill_ms + RHD_AUTH_REFILL_MS)
      else (tokens, refill_ms))"
  by pat_completeness auto
termination
  by (relation "measure (\<lambda>(_, tokens, _). nat (RHD_AUTH_BURST - tokens))") auto

declare refill.simps [simp del]

definition ceiling_take :: "int \<Rightarrow> int \<times> int \<Rightarrow> bool \<times> int \<times> int" where
  "ceiling_take now = (\<lambda>(tokens, refill_ms).
     let r1 = (if refill_ms = 0 then now else refill_ms);
         (t2, r2) = refill now tokens r1;
         r3 = (if RHD_AUTH_BURST \<le> t2 \<or> now < r2 then now else r2)
     in if t2 \<le> 0 then (False, t2, r3) else (True, t2 - 1, r3))"

text \<open>Whether a hash may be computed, and the seconds to wait where the code stores them.\<close>

definition rhd_auth_may_hash :: "string \<Rightarrow> int \<Rightarrow> rhd_auth \<Rightarrow> bool \<times> int option \<times> rhd_auth" where
  "rhd_auth_may_hash host now st =
     (let (i, st1) = slot_for host now st;
          s = (g_src st1 ! i)\<lparr>seen_ms := now\<rparr>;
          st2 = st1\<lparr>g_src := (g_src st1)[i := s]\<rparr>
      in if now < wait_until_ms s then
           (False, Some ((wait_until_ms s - now + 999) div 1000), st2\<lparr>g_src := (g_src st2)[i := s\<lparr>told := True\<rparr>]\<rparr>)
         else
           let (ok, t, r) = ceiling_take now (g_tokens st2, g_refill_ms st2); st3 = st2\<lparr>g_tokens := t, g_refill_ms := r\<rparr>
           in (ok, if ok then None else Some 1, st3))"

text \<open>Doubling from the first wait up to the longest.\<close>

function backoff :: "nat \<Rightarrow> nat \<Rightarrow> int \<Rightarrow> int" where
  "backoff i n wait = (if i < n \<and> wait < RHD_AUTH_DELAY_MAX_MS then backoff (i + 1) n (wait * 2) else wait)"
  by pat_completeness auto
termination
  by (relation "measure (\<lambda>(i, n, _). n - i)") auto

declare backoff.simps [simp del]

definition rhd_auth_failed :: "string \<Rightarrow> int \<Rightarrow> rhd_auth \<Rightarrow> rhd_auth" where
  "rhd_auth_failed host now st =
     (let (i, st1) = slot_for host now st;
          n = (failures (g_src st1 ! i) + 1) mod 2 ^ 32;
          s = (g_src st1 ! i)\<lparr>failures := n\<rparr>;
          put = (\<lambda>s. st1\<lparr>g_src := (g_src st1)[i := s]\<rparr>)
      in if n \<le> RHD_AUTH_FREE_TRIES then put s
         else let wait = min (backoff (RHD_AUTH_FREE_TRIES + 1) n RHD_AUTH_DELAY_MS) RHD_AUTH_DELAY_MAX_MS
              in put (s\<lparr>wait_until_ms := now + wait, told := False\<rparr>))"

definition rhd_auth_succeeded :: "string \<Rightarrow> int \<Rightarrow> rhd_auth \<Rightarrow> rhd_auth" where
  "rhd_auth_succeeded host now st =
     (let (i, st1) = slot_for host now st;
          s = (g_src st1 ! i)\<lparr>failures := 0, wait_until_ms := 0, told := False\<rparr>;
          st2 = st1\<lparr>g_src := (g_src st1)[i := s]\<rparr>
      in if g_tokens st2 < RHD_AUTH_BURST then st2\<lparr>g_tokens := g_tokens st2 + 1\<rparr> else st2)"

subsection \<open>Reading the request\<close>

fun strstr :: "string \<Rightarrow> string \<Rightarrow> string option" where
  "strstr needle [] = (if needle = [] then Some [] else None)"
| "strstr needle (c # cs) = (if take (length needle) (c # cs) = needle then Some (c # cs) else strstr needle cs)"

lemma strstr_length: "strstr needle s = Some t \<Longrightarrow> length needle \<le> length t \<and> length t \<le> length s"
proof (induction s)
  case (Cons c cs)
  show ?case
  proof (cases "take (length needle) (c # cs) = needle")
    case True
    then have "length needle \<le> length (c # cs)" by (metis length_take min.cobounded1)
    then show ?thesis using True Cons.prems by auto
  next
    case False
    then show ?thesis using Cons by simp
  qed
qed (auto split: if_splits)

definition tolower :: "char \<Rightarrow> char" where
  "tolower c = (if 65 \<le> code c \<and> code c \<le> 90 then char_of (code c + 32) else c)"

definition strncasecmp_eq :: "string \<Rightarrow> string \<Rightarrow> nat \<Rightarrow> bool" where
  "strncasecmp_eq a b n \<longleftrightarrow> map tolower (take n a) = map tolower (take n b)"

abbreviation CRLF :: string where "CRLF \<equiv> [CR, LF]"

text \<open>
  The loop over header lines; \<open>stop\<close> is the length of what is left from the blank line on, and a
  position is before the blank line when more than that is left.
\<close>

function header_scan :: "string \<Rightarrow> nat option \<Rightarrow> string \<Rightarrow> string option" where
  "header_scan name stop p =
     (if (case stop of None \<Rightarrow> True | Some n \<Rightarrow> n < length p) then
        (if strncasecmp_eq p name (length name) \<and> length name < length p \<and> p ! length name = CHR '':'' then
           (let v = dropWhile isblank (drop (length name + 1) p)
            in map_option (\<lambda>eol. take (length v - length eol) v) (strstr CRLF v))
         else case strstr CRLF p of None \<Rightarrow> None | Some q \<Rightarrow> header_scan name stop (drop 2 q))
      else None)"
  by pat_completeness auto
termination
  by (relation "measure (\<lambda>(_, _, p). length p)") (auto dest: strstr_length)

declare header_scan.simps [simp del]

definition header_value :: "string \<Rightarrow> string \<Rightarrow> string option" where
  "header_value buf name = header_scan name (map_option length (strstr (CRLF @ CRLF) buf)) buf"

definition auth_safe_name :: "nat \<Rightarrow> string \<Rightarrow> string" where
  "auth_safe_name outsz name = (let out = map (\<lambda>c. if isprint c then c else CHR ''?'') (take (outsz - 1) name)
     in if out = [] then strlcpy outsz ''(empty)'' else out)"

text \<open>
  The credentials a request offers: the decoder answers at most 255 bytes, and nothing after a
  zero byte is seen.
\<close>

definition offer :: "(string \<Rightarrow> string option) \<Rightarrow> string \<Rightarrow> (string \<times> string) option" where
  "offer decode request = (case header_value request ''Authorization'' of
     None \<Rightarrow> None
   | Some v \<Rightarrow>
       (if length v \<le> 6 \<or> \<not> strncasecmp_eq v ''Basic '' 6 then None
        else case decode (drop 6 v) of
          None \<Rightarrow> None
        | Some d \<Rightarrow>
            (let t = takeWhile (\<lambda>c. c \<noteq> CHR 0x00) d; u = takeWhile (\<lambda>c. c \<noteq> CHR '':'') t
             in if d = [] \<or> length u = length t then None else Some (u, drop (length u + 1) t))))"

datatype api_auth = API_AUTH_NONE | API_AUTH_THROTTLED | API_AUTH_BAD | API_AUTH_OK

abbreviation RHD_API_USER :: string where "RHD_API_USER \<equiv> ''root''"

definition api_authenticate ::
  "(string \<Rightarrow> string option) \<Rightarrow> (string \<Rightarrow> string \<Rightarrow> bool) \<Rightarrow> string \<Rightarrow> string \<Rightarrow> int \<Rightarrow> rhd_auth \<Rightarrow>
     api_auth \<times> int option \<times> rhd_auth" where
  "api_authenticate decode account_ok request host now st = (case offer decode request of
     None \<Rightarrow> (API_AUTH_NONE, None, st)
   | Some (user, pass) \<Rightarrow>
       (if user \<noteq> RHD_API_USER then (API_AUTH_BAD, None, st)
        else
          let (may, retry_sec, st1) = rhd_auth_may_hash host now st
          in if \<not> may then (API_AUTH_THROTTLED, retry_sec, st1)
             else if account_ok user pass then (API_AUTH_OK, None, rhd_auth_succeeded host now st1)
             else (API_AUTH_BAD, None, rhd_auth_failed host now st1)))"

subsection \<open>The refill loop\<close>

definition refills :: "int \<Rightarrow> int \<Rightarrow> int \<Rightarrow> int" where
  "refills now tokens refill_ms = max 0 (min (RHD_AUTH_BURST - tokens) ((now - refill_ms) div RHD_AUTH_REFILL_MS))"

lemma refills_step:
  assumes "tokens < RHD_AUTH_BURST" "RHD_AUTH_REFILL_MS \<le> now - refill_ms"
  shows "refills now tokens refill_ms = refills now (tokens + 1) (refill_ms + RHD_AUTH_REFILL_MS) + 1"
proof -
  have "(now - (refill_ms + 500)) div 500 = (now - refill_ms) div 500 - 1"
    using div_add_self2 [of 500 "now - refill_ms - 500"] by (simp add: algebra_simps)
  moreover have "1 \<le> (now - refill_ms) div 500" using zdiv_mono1 [OF assms(2), of 500] by simp
  ultimately show ?thesis using assms by (simp add: refills_def)
qed

lemma refills_stop: "\<not> (tokens < RHD_AUTH_BURST \<and> RHD_AUTH_REFILL_MS \<le> now - refill_ms) \<Longrightarrow> refills now tokens refill_ms = 0"
  by (auto simp: refills_def max_def min_def not_le)

lemma refill_closed:
  "refill now tokens refill_ms =
     (tokens + refills now tokens refill_ms, refill_ms + RHD_AUTH_REFILL_MS * refills now tokens refill_ms)"
proof (induction now tokens refill_ms rule: refill.induct)
  case (1 now tokens refill_ms)
  then show ?case
    by (cases "tokens < RHD_AUTH_BURST \<and> RHD_AUTH_REFILL_MS \<le> now - refill_ms")
      (auto simp: refill.simps [of now tokens refill_ms] refills_step refills_stop)
qed

lemma refill_effect:
  assumes "refill now tokens refill_ms = (t, r)"
  shows "tokens \<le> t" "tokens \<le> RHD_AUTH_BURST \<Longrightarrow> t \<le> RHD_AUTH_BURST" "500 * t - r = 500 * tokens - refill_ms"
    "t < RHD_AUTH_BURST \<Longrightarrow> now - r < 500"
proof -
  note c = refill_closed [of now tokens refill_ms]
  show "tokens \<le> t" "tokens \<le> RHD_AUTH_BURST \<Longrightarrow> t \<le> RHD_AUTH_BURST" "500 * t - r = 500 * tokens - refill_ms"
    using assms c by (auto simp: refills_def)
  show "now - r < 500" if "t < RHD_AUTH_BURST"
    using assms that
  proof (induction now tokens refill_ms rule: refill.induct)
    case (1 now tokens refill_ms)
    then show ?case by (auto simp: refill.simps [of now tokens refill_ms] split: if_splits)
  qed
qed

text \<open>
  C40. The refill loop ends whatever the gap since it last ran: as the loop of the code it reaches
  the state that the model computes, after no more rounds than there are tokens missing, and it
  has then given back one token for each whole half second, up to the burst.
\<close>

theorem refill_loop_ends:
  "while_option (\<lambda>(t, r). t < RHD_AUTH_BURST \<and> RHD_AUTH_REFILL_MS \<le> now - r) (\<lambda>(t, r). (t + 1, r + RHD_AUTH_REFILL_MS))
       (tokens, refill_ms) = Some (refill now tokens refill_ms) \<and>
   refill now tokens refill_ms = (tokens + refills now tokens refill_ms,
       refill_ms + RHD_AUTH_REFILL_MS * refills now tokens refill_ms) \<and>
   refills now tokens refill_ms \<le> max 0 (RHD_AUTH_BURST - tokens)"
proof -
  have "while_option (\<lambda>(t, r). t < RHD_AUTH_BURST \<and> RHD_AUTH_REFILL_MS \<le> now - r) (\<lambda>(t, r). (t + 1, r + RHD_AUTH_REFILL_MS))
       (tokens, refill_ms) = Some (refill now tokens refill_ms)"
  proof (induction now tokens refill_ms rule: refill.induct)
    case (1 now tokens refill_ms)
    then show ?case
      by (cases "tokens < RHD_AUTH_BURST \<and> RHD_AUTH_REFILL_MS \<le> now - refill_ms")
        (auto simp: while_option_unfold [of _ _ "(tokens, refill_ms)"] refill.simps [of now tokens refill_ms])
  qed
  then show ?thesis using refill_closed by (simp add: refills_def)
qed

subsection \<open>The ceiling over a run of requests\<close>

definition ceiling_ok :: "rhd_auth \<Rightarrow> bool" where
  "ceiling_ok st \<longleftrightarrow> 0 \<le> g_tokens st \<and> g_tokens st \<le> RHD_AUTH_BURST \<and> 0 \<le> g_refill_ms st"

text \<open>What is left to spend, in milliseconds on the clock of the refill.\<close>

definition credit :: "rhd_auth \<Rightarrow> int" where
  "credit st = 500 * g_tokens st - g_refill_ms st"

text \<open>An attempt: the host, the request and the time. A wrong guess is one that cost a hash.\<close>

type_synonym attempt = "string \<times> string \<times> int"

fun attempt_at :: "attempt \<Rightarrow> int" where
  "attempt_at (_, _, now) = now"

definition wrong_guess :: "(string \<Rightarrow> string option) \<Rightarrow> string \<Rightarrow> api_auth \<Rightarrow> bool" where
  "wrong_guess decode request r \<longleftrightarrow> r = API_AUTH_BAD \<and> map_option fst (offer decode request) = Some RHD_API_USER"

fun wrong_guesses :: "(string \<Rightarrow> string option) \<Rightarrow> (string \<Rightarrow> string \<Rightarrow> bool) \<Rightarrow> attempt list \<Rightarrow> rhd_auth \<Rightarrow> nat" where
  "wrong_guesses decode account_ok [] st = 0"
| "wrong_guesses decode account_ok ((host, request, now) # as) st =
     (let (r, _, st') = api_authenticate decode account_ok request host now st
      in (if wrong_guess decode request r then 1 else 0) + wrong_guesses decode account_ok as st')"

lemma ceiling_take_effect:
  assumes "ceiling_take now (tokens, refill_ms) = (ok, t, r)" "0 \<le> tokens" "tokens \<le> RHD_AUTH_BURST" "0 \<le> now" "0 \<le> refill_ms"
  shows "0 \<le> t \<and> t \<le> RHD_AUTH_BURST \<and> 0 \<le> r \<and> r \<le> now" "ok \<Longrightarrow> t < RHD_AUTH_BURST"
    "500 * t - r \<le> 3000 - now - (if ok then 500 else 0)"
    "refill_ms \<le> now \<Longrightarrow> 500 * t - r \<le> 500 * tokens - refill_ms - (if ok then 500 else 0)"
proof -
  define r1 where "r1 = (if refill_ms = 0 then now else refill_ms)"
  obtain t2 r2 where two: "refill now tokens r1 = (t2, r2)" by (cases "refill now tokens r1")
  note e = refill_effect [OF two]
  have r: "r = (if RHD_AUTH_BURST \<le> t2 \<or> now < r2 then now else r2)" and ok: "ok \<longleftrightarrow> 0 < t2"
      and t: "t = (if ok then t2 - 1 else t2)"
    using assms(1) two by (auto simp: ceiling_take_def r1_def [symmetric] Let_def split: if_splits)
  have r1: "0 \<le> r1" using assms(4,5) by (simp add: r1_def)
  have r2: "r1 \<le> r2" using e(1,3) by linarith
  show "0 \<le> t \<and> t \<le> RHD_AUTH_BURST \<and> 0 \<le> r \<and> r \<le> now" "ok \<Longrightarrow> t < RHD_AUTH_BURST"
    using e assms(2-4) r ok t r1 r2 by auto
  show "500 * t - r \<le> 3000 - now - (if ok then 500 else 0)"
    using e assms(2,3) r ok t by auto
  show "500 * t - r \<le> 500 * tokens - refill_ms - (if ok then 500 else 0)" if "refill_ms \<le> now"
  proof -
    have r1: "refill_ms \<le> r1" "r1 \<le> now" using that assms(4,5) by (auto simp: r1_def)
    have "r2 \<le> now" using two r1(2)
    proof (induction now tokens r1 rule: refill.induct)
      case (1 now tokens r1)
      then show ?case by (auto simp: refill.simps [of now tokens r1] split: if_splits)
    qed
    then show ?thesis using e r1 r ok t by auto
  qed
qed

lemma slot_for_ceiling: "slot_for host now st = (i, st') \<Longrightarrow> g_tokens st' = g_tokens st \<and> g_refill_ms st' = g_refill_ms st"
  by (auto simp: slot_for_def split: sum.splits if_splits)

lemma failed_ceiling:
  "g_tokens (rhd_auth_failed host now st) = g_tokens st" "g_refill_ms (rhd_auth_failed host now st) = g_refill_ms st"
  using slot_for_ceiling [of host now st] by (auto simp: rhd_auth_failed_def Let_def split: prod.splits)

lemma succeeded_ceiling:
  "g_tokens (rhd_auth_succeeded host now st) = (if g_tokens st < RHD_AUTH_BURST then g_tokens st + 1 else g_tokens st)"
  "g_refill_ms (rhd_auth_succeeded host now st) = g_refill_ms st"
  using slot_for_ceiling [of host now st] by (auto simp: rhd_auth_succeeded_def Let_def split: prod.splits)

lemma may_hash_ceiling:
  assumes "rhd_auth_may_hash host now st = (may, rs, st')"
  shows "\<not> may \<and> g_tokens st' = g_tokens st \<and> g_refill_ms st' = g_refill_ms st \<or>
    ceiling_take now (g_tokens st, g_refill_ms st) = (may, g_tokens st', g_refill_ms st')"
proof -
  obtain i st1 where slot: "slot_for host now st = (i, st1)" by (cases "slot_for host now st")
  note c = slot_for_ceiling [OF slot]
  obtain ok t r where take: "ceiling_take now (g_tokens st, g_refill_ms st) = (ok, t, r)"
    by (cases "ceiling_take now (g_tokens st, g_refill_ms st)")
  show ?thesis using assms slot c take by (auto simp: rhd_auth_may_hash_def Let_def split: if_splits)
qed

text \<open>One attempt: it leaves the ceiling alone and is no wrong guess, or it spends from it.\<close>

lemma attempt_spends:
  assumes "api_authenticate decode account_ok request host now st = (r, rs, st')" "ceiling_ok st" "0 \<le> now"
  defines "cost \<equiv> if wrong_guess decode request r then 500 else 0"
  shows "ceiling_ok st' \<and> (cost = 0 \<and> g_tokens st' = g_tokens st \<and> g_refill_ms st' = g_refill_ms st \<or>
    g_refill_ms st' \<le> now \<and> credit st' \<le> 3000 - now - cost \<and>
    (g_refill_ms st \<le> now \<longrightarrow> credit st' \<le> credit st - cost))"
proof (cases "map_option fst (offer decode request) = Some RHD_API_USER")
  case False
  then have "st' = st" "cost = 0" using assms(1)
    by (auto simp: api_authenticate_def cost_def wrong_guess_def split: option.splits if_splits)
  then show ?thesis using assms(2) by simp
next
  case True
  then obtain pass where off: "offer decode request = Some (RHD_API_USER, pass)" by (auto simp: map_option_case split: option.splits)
  obtain may rs1 st1 where m: "rhd_auth_may_hash host now st = (may, rs1, st1)" by (cases "rhd_auth_may_hash host now st")
  consider (kept) "\<not> may" "g_tokens st1 = g_tokens st" "g_refill_ms st1 = g_refill_ms st"
    | (took) "ceiling_take now (g_tokens st, g_refill_ms st) = (may, g_tokens st1, g_refill_ms st1)"
    using may_hash_ceiling [OF m] by blast
  then show ?thesis
  proof cases
    case kept
    then have "st' = st1" "cost = 0" using assms(1) off m by (auto simp: api_authenticate_def cost_def wrong_guess_def)
    then show ?thesis using kept assms(2) by (simp add: ceiling_ok_def)
  next
    case took
    have tk: "0 \<le> g_tokens st" "g_tokens st \<le> RHD_AUTH_BURST" "0 \<le> g_refill_ms st" using assms(2) by (simp_all add: ceiling_ok_def)
    note e = ceiling_take_effect [OF took tk(1,2) assms(3) tk(3)]
    consider "\<not> may" "r = API_AUTH_THROTTLED" "st' = st1" | "may" "r = API_AUTH_OK" "st' = rhd_auth_succeeded host now st1"
      | "may" "r = API_AUTH_BAD" "st' = rhd_auth_failed host now st1"
      using assms(1) off m by (auto simp: api_authenticate_def split: if_splits)
    then show ?thesis
      using e True by cases (auto simp: ceiling_ok_def credit_def cost_def wrong_guess_def succeeded_ceiling failed_ceiling)
  qed
qed

lemma run_spends:
  "ceiling_ok st \<Longrightarrow> g_refill_ms st \<le> t0 \<Longrightarrow> 0 \<le> t0 \<Longrightarrow> sorted (t0 # map attempt_at as) \<Longrightarrow>
   500 * int (wrong_guesses decode account_ok as st) \<le> credit st + last (t0 # map attempt_at as)"
proof (induction as arbitrary: st t0)
  case Nil
  then show ?case by (simp add: credit_def ceiling_ok_def)
next
  case (Cons a as)
  obtain host request now where a: "a = (host, request, now)" by (cases a)
  obtain r rs st' where step: "api_authenticate decode account_ok request host now st = (r, rs, st')"
    by (cases "api_authenticate decode account_ok request host now st")
  have now: "0 \<le> now" "t0 \<le> now" "sorted (now # map attempt_at as)" using Cons.prems by (auto simp: a)
  define cost where "cost = (if wrong_guess decode request r then 500 else 0 :: int)"
  have e: "ceiling_ok st' \<and> g_refill_ms st' \<le> now \<and> credit st' \<le> credit st - cost"
    using attempt_spends [OF step Cons.prems(1) now(1)] Cons.prems(2) now(2) by (auto simp: cost_def credit_def)
  have "500 * int (wrong_guesses decode account_ok as st') \<le> credit st' + last (now # map attempt_at as)"
    using Cons.IH e now by blast
  then show ?case using e step by (auto simp: a cost_def)
qed

lemma window_spends:
  "ceiling_ok st \<Longrightarrow> 0 \<le> t0 \<Longrightarrow> sorted (t0 # map attempt_at as) \<Longrightarrow>
   500 * int (wrong_guesses decode account_ok as st) \<le> 3000 - t0 + last (t0 # map attempt_at as)"
proof (induction as arbitrary: st t0)
  case (Cons a as)
  obtain host request now where a: "a = (host, request, now)" by (cases a)
  obtain r rs st' where step: "api_authenticate decode account_ok request host now st = (r, rs, st')"
    by (cases "api_authenticate decode account_ok request host now st")
  have now: "0 \<le> now" "t0 \<le> now" "sorted (now # map attempt_at as)" using Cons.prems by (auto simp: a)
  note e = attempt_spends [OF step Cons.prems(1) now(1)]
  show ?case
  proof (cases "wrong_guess decode request r \<or> \<not> (g_tokens st' = g_tokens st \<and> g_refill_ms st' = g_refill_ms st)")
    case True
    then have e': "ceiling_ok st'" "g_refill_ms st' \<le> now" "credit st' \<le> 3000 - now - (if wrong_guess decode request r then 500 else 0)"
      using e by (auto split: if_splits)
    show ?thesis using e' run_spends [of st' now as decode account_ok] now step by (auto simp: a)
  next
    case False
    then have "500 * int (wrong_guesses decode account_ok as st') \<le> 3000 - now + last (now # map attempt_at as)"
      using Cons.IH [of st' now] e now by simp
    then show ?thesis using False now step by (simp add: a)
  qed
qed simp

fun auth_run :: "(string \<Rightarrow> string option) \<Rightarrow> (string \<Rightarrow> string \<Rightarrow> bool) \<Rightarrow> attempt list \<Rightarrow> rhd_auth \<Rightarrow> rhd_auth" where
  "auth_run decode account_ok [] st = st"
| "auth_run decode account_ok ((host, request, now) # as) st =
     auth_run decode account_ok as (snd (snd (api_authenticate decode account_ok request host now st)))"

lemma run_ceiling: "ceiling_ok st \<Longrightarrow> \<forall>a \<in> set as. 0 \<le> attempt_at a \<Longrightarrow> ceiling_ok (auth_run decode account_ok as st)"
proof (induction as arbitrary: st)
  case (Cons a as)
  obtain host request now where a: "a = (host, request, now)" by (cases a)
  obtain r rs st' where step: "api_authenticate decode account_ok request host now st = (r, rs, st')"
    by (cases "api_authenticate decode account_ok request host now st")
  have "ceiling_ok st'" using attempt_spends [OF step Cons.prems(1)] Cons.prems(2) by (simp add: a)
  then show ?case using Cons.IH Cons.prems(2) step by (simp add: a)
qed simp

text \<open>
  C9. The ceiling holds for everyone together: in any stretch of requests, whatever went before,
  from however many hosts and with whatever passwords, the wrong guesses at the system password
  number at most six and one more for each half second the stretch lasts.
\<close>

theorem wrong_guesses_bounded:
  assumes "sorted (map attempt_at (earlier @ as))" and "\<forall>a \<in> set (earlier @ as). 0 \<le> attempt_at a" and "as \<noteq> []"
  shows "500 * int (wrong_guesses decode account_ok as (auth_run decode account_ok earlier rhd_auth_reset)) \<le>
    3000 + (attempt_at (last as) - attempt_at (hd as))"
proof -
  have "ceiling_ok rhd_auth_reset" by (simp add: ceiling_ok_def rhd_auth_reset_def)
  then have ok: "ceiling_ok (auth_run decode account_ok earlier rhd_auth_reset)" using run_ceiling assms(2) by simp
  have "sorted (attempt_at (hd as) # map attempt_at as)" using assms(1,3) by (cases as) (auto simp: sorted_append)
  from window_spends [OF ok _ this, of decode account_ok] show ?thesis using assms(2,3) by (simp add: last_map)
qed

definition guess :: string where
  "guess = ''Authorization: Basic cm9vdDp4'' @ CRLF @ CRLF"

theorem wrong_guesses_bounded_witness:
  "500 * int (wrong_guesses (\<lambda>_. Some ''root:x'') (\<lambda>_ _. False) [(''10.0.0.1'', guess, 1000), (''10.0.0.2'', guess, 1500)]
     (auth_run (\<lambda>_. Some ''root:x'') (\<lambda>_ _. False) [(''10.0.0.3'', guess, 900)] rhd_auth_reset)) \<le> 3500"
  using wrong_guesses_bounded [of "[(''10.0.0.3'', guess, 900)]" "[(''10.0.0.1'', guess, 1000), (''10.0.0.2'', guess, 1500)]"
      "\<lambda>_. Some ''root:x''" "\<lambda>_ _. False"] by simp

subsection \<open>The wait of one host\<close>

lemma slot_scan_held:
  "k < length ss \<Longrightarrow> a_host (ss ! k) = host \<Longrightarrow> host \<noteq> [] \<Longrightarrow> \<forall>m < k. a_host (ss ! m) \<noteq> host \<Longrightarrow>
   slot_scan host src i oldest ss = Inl (i + k)"
proof (induction ss arbitrary: i oldest k)
  case (Cons s ss)
  show ?case
  proof (cases k)
    case (Suc j)
    have "a_host s \<noteq> host" using Cons.prems(4) Suc by fastforce
    moreover have "\<forall>m < j. a_host (ss ! m) \<noteq> host" using Cons.prems(4) Suc by fastforce
    ultimately show ?thesis using Cons.IH [of j] Cons.prems Suc by simp
  qed (use Cons.prems in simp)
qed simp

lemma slot_scan_Inl:
  "slot_scan host src i oldest ss = Inl j \<Longrightarrow>
   \<exists>k < length ss. j = i + k \<and> a_host (ss ! k) = host \<and> host \<noteq> [] \<and> (\<forall>m < k. a_host (ss ! m) \<noteq> host)"
proof (induction ss arbitrary: i oldest)
  case (Cons s ss)
  show ?case
  proof (cases "a_host s \<noteq> [] \<and> a_host s = host")
    case True
    then show ?thesis using Cons.prems by (intro exI [of _ 0]) auto
  next
    case False
    then obtain k where k: "k < length ss" "j = i + 1 + k" "a_host (ss ! k) = host" "host \<noteq> []" "\<forall>m < k. a_host (ss ! m) \<noteq> host"
      using Cons.IH Cons.prems by fastforce
    then show ?thesis using False by (intro exI [of _ "Suc k"]) (auto simp: less_Suc_eq_0_disj)
  qed
qed simp

lemma slot_scan_Inr:
  "slot_scan host src i oldest ss = Inr j \<Longrightarrow> host \<noteq> [] \<Longrightarrow>
   (j = oldest \<or> i \<le> j \<and> j < i + length ss) \<and> (\<forall>s \<in> set ss. a_host s \<noteq> host)"
  by (induction ss arbitrary: i oldest) (fastforce split: if_splits)+

definition held_at :: "string \<Rightarrow> nat \<Rightarrow> rhd_auth \<Rightarrow> bool" where
  "held_at host i st \<longleftrightarrow> i < length (g_src st) \<and> a_host (g_src st ! i) = host \<and> (\<forall>m < i. a_host (g_src st ! m) \<noteq> host)"

lemma held_at_update [simp]:
  "held_at host i st \<Longrightarrow> a_host s = host \<Longrightarrow> held_at host i (st\<lparr>g_src := (g_src st)[i := s]\<rparr>)"
  by (simp add: held_at_def)

lemma held_at_ceiling [simp]: "held_at host i (st\<lparr>g_tokens := t, g_refill_ms := r\<rparr>) = held_at host i st"
  by (simp add: held_at_def)

lemma slot_for_held:
  "held_at host i st \<Longrightarrow> host \<noteq> [] \<Longrightarrow> now - seen_ms (g_src st ! i) \<le> RHD_AUTH_FORGET_MS \<Longrightarrow> slot_for host now st = (i, st)"
  using slot_scan_held [of i "g_src st" host "g_src st" 0 0] by (simp add: held_at_def slot_for_def)

lemma slot_for_holds:
  assumes "slot_for host now st = (i, st')" "g_src st \<noteq> []" "host \<noteq> []" "length host < 64"
  shows "held_at host i st'"
proof (cases "slot_scan host (g_src st) 0 0 (g_src st)")
  case (Inl j)
  then have "held_at host j st" using slot_scan_Inl [OF Inl] by (auto simp: held_at_def)
  then show ?thesis using assms(1) Inl by (auto simp: slot_for_def held_at_def split: if_splits)
next
  case (Inr j)
  note r = slot_scan_Inr [OF Inr assms(3)]
  have "j < length (g_src st)" using r assms(2) by auto
  then show ?thesis using assms Inr r by (auto simp: slot_for_def held_at_def strlcpy_def)
qed

lemma backoff_closed: "0 < w \<Longrightarrow> i \<le> n \<Longrightarrow> min (backoff i n w) RHD_AUTH_DELAY_MAX_MS = min (w * 2 ^ (n - i)) RHD_AUTH_DELAY_MAX_MS"
proof (induction i n w rule: backoff.induct)
  case (1 i n w)
  show ?case
  proof (cases "i < n \<and> w < RHD_AUTH_DELAY_MAX_MS")
    case True
    then have "n - i = Suc (n - (i + 1))" by linarith
    then have "w * 2 ^ (n - i) = w * 2 * 2 ^ (n - (i + 1))" by simp
    then show ?thesis using 1 True by (simp add: backoff.simps [of i n w])
  next
    case False
    have le: "w \<le> w * 2 ^ (n - i)" using 1(2) by simp
    have "min (w * 2 ^ (n - i)) RHD_AUTH_DELAY_MAX_MS = RHD_AUTH_DELAY_MAX_MS" if "\<not> w < RHD_AUTH_DELAY_MAX_MS"
      by (rule min_absorb2) (use le that in linarith)
    moreover have "n - i = 0" if "w < RHD_AUTH_DELAY_MAX_MS" using that False by simp
    moreover have "backoff i n w = w" using False by (auto simp: backoff.simps [of i n w])
    ultimately show ?thesis by (cases "w < RHD_AUTH_DELAY_MAX_MS") simp_all
  qed
qed

definition failures_of :: "string \<Rightarrow> rhd_auth \<Rightarrow> nat" where
  "failures_of host st = (case slot_scan host (g_src st) 0 0 (g_src st) of Inl i \<Rightarrow> failures (g_src st ! i) | Inr _ \<Rightarrow> 0)"

lemma failures_of_held: "held_at host i st \<Longrightarrow> host \<noteq> [] \<Longrightarrow> failures_of host st = failures (g_src st ! i)"
  using slot_scan_held [of i "g_src st" host "g_src st" 0 0] by (simp add: held_at_def failures_of_def)

lemma may_hash_holds:
  assumes "rhd_auth_may_hash host now st = (True, rs, st')" "g_src st \<noteq> []" "host \<noteq> []" "length host < 64"
  shows "\<exists>i. held_at host i st' \<and> seen_ms (g_src st' ! i) = now"
proof -
  obtain i st1 where slot: "slot_for host now st = (i, st1)" by (cases "slot_for host now st")
  have h: "held_at host i st1" using slot_for_holds [OF slot assms(2-4)] .
  have "i < length (g_src st1)" using h by (simp add: held_at_def)
  then show ?thesis using assms(1) slot h
    by (intro exI [of _ i]) (auto simp: rhd_auth_may_hash_def held_at_def Let_def split: if_splits prod.splits)
qed

lemma failed_waits:
  assumes "held_at host i st" "seen_ms (g_src st ! i) = now" "host \<noteq> []" and n: "n = failures_of host (rhd_auth_failed host now st)"
    "RHD_AUTH_FREE_TRIES < n"
  defines "st' \<equiv> rhd_auth_failed host now st"
  shows "held_at host i st' \<and> seen_ms (g_src st' ! i) = now \<and>
    wait_until_ms (g_src st' ! i) = now + min (1000 * 2 ^ (n - 4)) RHD_AUTH_DELAY_MAX_MS"
proof -
  have slot: "slot_for host now st = (i, st)" using slot_for_held [OF assms(1,3)] assms(2) by simp
  have i: "i < length (g_src st)" "a_host (g_src st ! i) = host" using assms(1) by (simp_all add: held_at_def)
  define m where "m = (failures (g_src st ! i) + 1) mod 2 ^ 32"
  have h: "held_at host i st'" using assms(1) i slot by (auto simp: st'_def rhd_auth_failed_def Let_def held_at_def)
  have "failures (g_src st' ! i) = m" using i slot by (auto simp: st'_def rhd_auth_failed_def Let_def m_def)
  then have m: "n = m" using n(1) failures_of_held [OF h assms(3)] by (simp add: st'_def)
  have "st' = st\<lparr>g_src := (g_src st)[i := (g_src st ! i)\<lparr>failures := m,
      wait_until_ms := now + min (backoff 4 m RHD_AUTH_DELAY_MS) RHD_AUTH_DELAY_MAX_MS, told := False\<rparr>]\<rparr>"
    unfolding st'_def rhd_auth_failed_def slot using m n(2) by (simp add: Let_def m_def)
  then show ?thesis using h i assms(2) backoff_closed [of 1000 4 m] m n(2) by simp
qed


definition burnt :: rhd_auth where
  "burnt = rhd_auth_reset\<lparr>g_src := (g_src rhd_auth_reset)[2 := \<lparr>a_host = ''10.0.0.1'', failures = 3, wait_until_ms = 0,
     seen_ms = 900, told = False\<rparr>]\<rparr>"

lemma guess_offer: "offer (\<lambda>_. Some ''root:x'') guess = Some (RHD_API_USER, ''x'')"
  by code_simp

lemma burnt_src: "g_src burnt = [no_source, no_source, \<lparr>a_host = ''10.0.0.1'', failures = 3, wait_until_ms = 0,
     seen_ms = 900, told = False\<rparr>, no_source, no_source, no_source, no_source, no_source]"
   "g_tokens burnt = 6" "g_refill_ms burnt = 0"
  by (simp_all add: burnt_def rhd_auth_reset_def numeral_eq_Suc)

lemma burnt_guess:
  "api_authenticate (\<lambda>_. Some ''root:x'') (\<lambda>_ _. False) guess ''10.0.0.1'' 1000 burnt =
    (API_AUTH_BAD, None, burnt\<lparr>g_src := (g_src burnt)[2 := \<lparr>a_host = ''10.0.0.1'', failures = 4, wait_until_ms = 2000,
     seen_ms = 1000, told = False\<rparr>], g_tokens := 5, g_refill_ms := 1000\<rparr>)"
  by (simp add: api_authenticate_def guess_offer rhd_auth_may_hash_def rhd_auth_failed_def
      slot_for_def burnt_src no_source_def ceiling_take_def refill.simps backoff.simps)


subsection \<open>The body of a request\<close>

lemma strstr_append: "strstr needle (h @ needle) = Some needle \<Longrightarrow> strstr needle (h @ needle @ b) = Some (needle @ b)"
proof (induction h)
  case Nil
  then show ?case by (cases needle) (cases b, auto)
next
  case (Cons c cs)
  have "take (length needle) (c # cs @ needle) \<noteq> needle"
  proof
    assume "take (length needle) (c # cs @ needle) = needle"
    then have "needle = c # cs @ needle" using Cons.prems by simp
    then show False by (metis append_Cons append_self_conv2 list.discI append_assoc)
  qed
  moreover have "take (length needle) (c # cs @ needle @ b) = take (length needle) (c # cs @ needle)"
    by (cases "length needle") simp_all
  ultimately show ?case using Cons by simp
qed

text \<open>Where the first line ends does not depend on what follows the line end.\<close>

lemma strstr_CRLF:
  "\<exists>k \<le> length x. strstr CRLF (x @ CRLF @ y) = Some (drop k (x @ CRLF @ y)) \<and> strstr CRLF (x @ CRLF @ z) = Some (drop k (x @ CRLF @ z)) \<and>
     k + 1 \<noteq> length x"
proof (induction x)
  case (Cons c cs)
  show ?case
  proof (cases "take 2 (c # cs @ CRLF) = CRLF")
    case True
    then have "cs \<noteq> []" by (cases cs) auto
    then have "take 2 (c # cs @ CRLF @ y) = CRLF" "take 2 (c # cs @ CRLF @ z) = CRLF" using True by (cases cs; simp)+
    then show ?thesis using \<open>cs \<noteq> []\<close> by (intro exI [of _ 0]) (simp add: numeral_2_eq_2)
  next
    case False
    then have "take 2 (c # cs @ CRLF @ y) \<noteq> CRLF" "take 2 (c # cs @ CRLF @ z) \<noteq> CRLF" by (cases cs; simp)+
    moreover obtain k where "k \<le> length cs" "strstr CRLF (cs @ CRLF @ y) = Some (drop k (cs @ CRLF @ y))"
        "strstr CRLF (cs @ CRLF @ z) = Some (drop k (cs @ CRLF @ z))" "k + 1 \<noteq> length cs" using Cons.IH by blast
    ultimately show ?thesis by (intro exI [of _ "Suc k"]) (auto simp: numeral_2_eq_2)
  qed
qed simp

lemma name_in_line:
  assumes "CR \<notin> set (map tolower name)"
  shows "strncasecmp_eq (q @ CR # r) name (length name) \<and> length name < length (q @ CR # r) \<and> (q @ CR # r) ! length name = CHR '':'' \<longleftrightarrow>
    strncasecmp_eq q name (length name) \<and> length name < length q \<and> q ! length name = CHR '':''"
proof (cases "length name < length q")
  case True
  then show ?thesis by (simp add: strncasecmp_eq_def nth_append)
next
  case False
  have "\<not> strncasecmp_eq (q @ CR # r) name (length name)" if "length q < length name"
  proof
    assume "strncasecmp_eq (q @ CR # r) name (length name)"
    then have same: "map tolower (take (length name) (q @ CR # r)) = map tolower name" by (simp add: strncasecmp_eq_def)
    have "CR \<in> set (take (length name) (q @ CR # r))" using that by (cases "length name - length q") auto
    then have "tolower CR \<in> set (map tolower (take (length name) (q @ CR # r)))"
      unfolding set_map by (rule imageI)
    then have "tolower CR \<in> set (map tolower name)" unfolding same .
    then show False using assms by (simp add: tolower_def code_def)
  qed
  then show ?thesis using False by (cases "length name = length q") auto
qed

lemma skip_blanks: "dropWhile isblank (x @ CR # r) = dropWhile isblank x @ CR # r"
  by (induction x) (simp_all add: isblank_def)

lemma header_scan_stop: "length p \<le> n \<Longrightarrow> header_scan name (Some n) p = None"
  by (subst header_scan.simps) simp

lemma header_scan_found:
  assumes "strncasecmp_eq p name (length name) \<and> length name < length p \<and> p ! length name = CHR '':''" "n < length p"
  shows "header_scan name (Some n) p = (let v = dropWhile isblank (drop (length name + 1) p)
    in map_option (\<lambda>eol. take (length v - length eol) v) (strstr CRLF v))"
  using assms by (subst header_scan.simps) simp

lemma header_scan_next:
  assumes "\<not> (strncasecmp_eq p name (length name) \<and> length name < length p \<and> p ! length name = CHR '':'')" "n < length p"
    "strstr CRLF p = Some q"
  shows "header_scan name (Some n) p = header_scan name (Some n) (drop 2 q)"
  using assms by (subst header_scan.simps) auto

lemma header_scan_body:
  assumes "CR \<notin> set (map tolower name)"
  shows "header_scan name (Some (length b + 4)) (q @ CRLF @ CRLF @ b) = header_scan name (Some 4) (q @ CRLF @ CRLF)"
proof (induction q rule: length_induct)
  case (1 q)
  have m: "strncasecmp_eq (q @ CRLF @ r) name (length name) \<and> length name < length (q @ CRLF @ r) \<and> (q @ CRLF @ r) ! length name = CHR '':'' \<longleftrightarrow>
      strncasecmp_eq q name (length name) \<and> length name < length q \<and> q ! length name = CHR '':''" for r
    using name_in_line [OF assms, of q "LF # r"] by simp
  show ?case
  proof (cases "q = []")
    case False
    have more: "length b + 4 < length (q @ CRLF @ CRLF @ b)" "4 < length (q @ CRLF @ CRLF)" using False by simp_all
    show ?thesis
    proof (cases "strncasecmp_eq q name (length name) \<and> length name < length q \<and> q ! length name = CHR '':''")
      case True
      define v where "v = dropWhile isblank (drop (length name + 1) q)"
      have v: "dropWhile isblank (drop (length name + 1) (q @ CRLF @ r)) = v @ CRLF @ r" for r
        using True skip_blanks by (simp add: v_def)
      obtain k where k: "k \<le> length v" "strstr CRLF (v @ CRLF @ CRLF @ b) = Some (drop k (v @ CRLF @ CRLF @ b))"
          "strstr CRLF (v @ CRLF @ CRLF) = Some (drop k (v @ CRLF @ CRLF))" using strstr_CRLF [of v "CRLF @ b" CRLF] by auto
      have t: "take (length (v @ CRLF @ r) - length (drop k (v @ CRLF @ r))) (v @ CRLF @ r) = take k v" for r using k(1) by simp
      show ?thesis
        unfolding header_scan_found [OF m [THEN iffD2, OF True] more(1)] header_scan_found [OF m [THEN iffD2, OF True] more(2)]
          v Let_def k(2,3) option.map t ..
    next
      case no: False
      obtain k where k: "k \<le> length q" "strstr CRLF (q @ CRLF @ CRLF @ b) = Some (drop k (q @ CRLF @ CRLF @ b))"
          "strstr CRLF (q @ CRLF @ CRLF) = Some (drop k (q @ CRLF @ CRLF))" "k + 1 \<noteq> length q"
        using strstr_CRLF [of q "CRLF @ b" CRLF] by auto
      have n: "header_scan name (Some (length b + 4)) (q @ CRLF @ CRLF @ b) =
            header_scan name (Some (length b + 4)) (drop 2 (drop k (q @ CRLF @ CRLF @ b)))"
          "header_scan name (Some 4) (q @ CRLF @ CRLF) = header_scan name (Some 4) (drop 2 (drop k (q @ CRLF @ CRLF)))"
        using header_scan_next [OF _ more(1) k(2)] header_scan_next [OF _ more(2) k(3)] m no by blast+
      show ?thesis
      proof (cases "k = length q")
        case True
        then show ?thesis unfolding n by (simp add: header_scan_stop)
      next
        case False
        then have d: "drop 2 (drop k (q @ r)) = drop (k + 2) q @ r" for r using k by simp
        show ?thesis unfolding n d using 1 \<open>q \<noteq> []\<close> by simp
      qed
    qed
  qed (simp add: header_scan_stop)
qed

text \<open>
  A body cannot supply the credentials: what a request offers, and so what becomes of it and of
  every host's record, is the same whatever follows the blank line that ends its header.
\<close>

lemma body_offers_nothing:
  assumes "strstr (CRLF @ CRLF) (header @ CRLF @ CRLF) = Some (CRLF @ CRLF)"
  shows "api_authenticate decode account_ok (header @ CRLF @ CRLF @ body) host now st =
    api_authenticate decode account_ok (header @ CRLF @ CRLF) host now st"
proof -
  have ends: "strstr (CRLF @ CRLF) (header @ CRLF @ CRLF @ b) = Some (CRLF @ CRLF @ b)" for b
    using strstr_append [of "CRLF @ CRLF" header b] assms by simp
  have "CR \<notin> set (map tolower ''Authorization'')" by code_simp
  from header_scan_body [OF this, of body header]
  have "header_value (header @ CRLF @ CRLF @ body) ''Authorization'' = header_value (header @ CRLF @ CRLF) ''Authorization''"
    unfolding header_value_def ends ends [of "[]", unfolded append_Nil2] by (simp add: numeral_eq_Suc)
  then show ?thesis by (simp add: api_authenticate_def offer_def)
qed

end
