(* ===== verification/Spec2Isabelle.thy ===== *)
theory Spec2Isabelle
  imports Rsd_Reader Rwd_Sendq Rsd555_Queue Rfs_Mp4 Rmr_Loop Rmr_Setup Rcd_Serve Rhd_Authrate
begin

text \<open>
  Verification of Raptor, a set of daemons that stream and record the video and audio of a
  camera. The daemons share rings: the video daemon (\<^verbatim>\<open>rvd\<close>) and the audio daemon (\<^verbatim>\<open>rad\<close>) publish
  encoded frames, and the servers and the recorder read them. A reader that falls behind loses
  frames and asks the encoder for a keyframe. The configuration daemon (\<^verbatim>\<open>rcd\<close>) changes settings on
  request, and the HTTP daemon (\<^verbatim>\<open>rhd\<close>) relays such requests after checking the system password.
  This development covers the way of a frame from a ring to a client or to a file, the way of a
  setting from a request into force and back, and the check of the password.

  \<^item> \<^emph>\<open>Prelude.\<close> \<open>Raptor_Prelude\<close>: machine words and their bytes, C division, rings of slots.
    \<open>C_Text\<close>: strings, lines and conversions as the C library has them.

  \<^item> \<^emph>\<open>Queues to clients.\<close> \<open>Lossy_Queue\<close> is the interface of a bounded queue that drops;
    \<open>Gop_Stream\<close> says when what a client has received can be decoded, with the gate that drops until a
    keyframe and the bounded gate in front of a queue. \<open>Rsd_Sendq\<close> (\<^verbatim>\<open>rsd/rsd_sendq.c\<close>),
    \<open>Rwd_Sendq\<close> (\<^verbatim>\<open>rwd/rwd_sendq.c\<close>, the gate in \<^verbatim>\<open>rwd_media.c\<close>) and \<open>Rsd555_Queue\<close>
    (\<^verbatim>\<open>rsd-555\<close>) model the three servers' queues at the level of slots, reference counts and locks, and
    refine the interface. \<open>Rsd_Reader\<close> (\<^verbatim>\<open>rsd/rsd_ring_reader.c\<close>, \<^verbatim>\<open>rsd_idr_recovery.h\<close>) delivers frames
    to clients and recovers from losses.

  \<^item> \<^emph>\<open>Formats.\<close> \<open>Annexb_Format\<close> and \<open>Mp4_Format\<close> define byte streams with start codes,
    length-prefixed samples, decoder configuration records, boxes, their tree, and the reading of a
    movie fragment. They are references, not models of code.

  \<^item> \<^emph>\<open>The file source.\<close> \<open>Rfs_Mp4\<close> (\<^verbatim>\<open>rfs/rfs_mp4.c\<close>).

  \<^item> \<^emph>\<open>The recorder.\<close> \<open>Rmr_Nal\<close>, \<open>Box_Buffer\<close>, \<open>Rmr_Moov\<close>, \<open>Rmr_Mux\<close>, \<open>Rmr_Sign\<close>,
    \<open>Rmr_Timelapse\<close>, \<open>Rmr_Storage\<close>, \<open>Rmr_Prebuf\<close> and \<open>Rmr_Main\<close> model the files of \<^verbatim>\<open>rmr/\<close> of those names
    (\<open>Box_Buffer\<close>, \<open>Rmr_Moov\<close> and \<open>Rmr_Mux\<close> together are \<^verbatim>\<open>rmr_mux.c\<close>). \<open>Rmr_Recording\<close>, \<open>Rmr_Signed\<close>,
    \<open>Rmr_Run\<close> and \<open>Rmr_Loop\<close> show what the recorder leaves on disk, from one fragment to the whole run of
    its main loop; \<open>Rmr_Setup\<close> is the start of its \<^verbatim>\<open>main\<close>. \<open>Rverify\<close> models the verifier of
    recordings, \<^verbatim>\<open>rverify/rverify.c\<close>.

  \<^item> \<^emph>\<open>Settings.\<close> \<open>Rcd_Schema\<close> is the table of keys of \<^verbatim>\<open>rcd/rcd_schema.c\<close> and the validation of a
    \<^verbatim>\<open>set\<close> request in \<^verbatim>\<open>rcd_config.c\<close>. \<open>Rcd_Stores\<close> models the stores behind the guarded keys, which
    are the interface file (\<^verbatim>\<open>rcd_network.c\<close>), the host name (\<^verbatim>\<open>rcd_system.c\<close>) and the boot environment
    (\<^verbatim>\<open>rcd_wifi.c\<close>); \<open>Rcd_Store_Laws\<close> states the contract of a store as a locale and shows that they
    meet it. \<open>Rcd_Guard\<close> is the guard that reverts what nobody confirms (\<^verbatim>\<open>rcd_guard.c\<close>), with the
    drift record and the parts of \<^verbatim>\<open>set\<close> and \<^verbatim>\<open>apply\<close> that drive it; \<open>Rcd_Guard_Laws\<close> shows what a revert
    does over any stores with that contract, and \<open>Rcd_Serve\<close> what a session of requests, ticks,
    restarts and reboots can and cannot lose.

  \<^item> \<^emph>\<open>The password.\<close> \<open>Rhd_Authrate\<close>: the throttle \<^verbatim>\<open>rhd/rhd_authrate.c\<close> and the authentication of
    a request in \<^verbatim>\<open>rhd_api.c\<close>.

  State is a record with the fields of the C struct that the modelled code reads or writes, and
  each function is a definition that returns the new state beside its result. Lengths and
  counters that cannot wrap are natural numbers, words where the code wraps or truncates, and
  integers where it computes in 64 bits. Allocation, clocks, the results of system calls, the
  rings and the cryptography are arguments, or lists of outcomes in the state. The loops of the
  code are structural recursions or have a termination proof; the walk of the verifier and the
  tree of boxes take the length of the file and the nesting depth as their bound.

  Not modelled: the daemons that are calls into the vendor's encoder, audio or overlay layers
  (\<^verbatim>\<open>rvd\<close>, \<^verbatim>\<open>rad\<close>, \<^verbatim>\<open>rod\<close>, \<^verbatim>\<open>ric\<close>, \<^verbatim>\<open>rwc\<close>), the protocol sessions over sockets and libraries outside the
  repository (RTSP, live555, DTLS, SRT, RTMP, MQTT), the JSON documents that \<^verbatim>\<open>rcd\<close> exchanges with
  clients and daemons and the configuration file behind them, the restarting of daemons, the rest
  of the HTTP server, and the command line tools.
\<close>

end
